(* ===== verification/Prelude.thy ===== *)
theory Prelude
  imports Main "HOL-Library.Word" "HOL-Library.Signed_Division"
begin

text \<open>
  Shared vocabulary of the development: type synonyms for the C types the sources use, the
  collections of rewrite rules the component theories extend, and generic facts on lists,
  maps and C integer arithmetic.

  Pointers are natural numbers; the null pointer is \<open>0\<close>. A store is a partial map from
  addresses to objects; a dereference outside its domain is a crash, modelled by \<open>None\<close>.
\<close>

type_synonym addr = nat

abbreviation (input) NULL :: addr where "NULL \<equiv> 0"

named_theorems dk_simps \<open>symbolic execution of the loops over linked stores\<close>
named_theorems num_simps \<open>reading and writing the digit buffers of numerics\<close>
named_theorems lk_simps \<open>projections of the lock records\<close>

subsection \<open>Lists\<close>

lemma remove1_append_notin:
  "x \<notin> set xs \<Longrightarrow> remove1 x (xs @ x # ys) = xs @ ys"
  by (simp add: remove1_append)

lemma distinct_map_of_remove1:
  "distinct (map fst xs) \<Longrightarrow> map_of (filter (\<lambda>(k, v). k \<noteq> a) xs) = (map_of xs)(a := None)"
  by (induction xs) (auto simp: fun_eq_iff dom_def)

subsection \<open>Maps\<close>

lemma map_upd_upd_same: "m(a \<mapsto> x, a \<mapsto> y) = m(a \<mapsto> y)"
  by simp

end
