(* ===== verification/Dk_Sets.thy ===== *)
theory Dk_Sets
  imports Prelude
begin

text \<open>
  The singly linked lists of \<^verbatim>\<open>libsrc/Dk/Dksets.c\<close> (the type \<^verbatim>\<open>dk_set_t\<close>), on an explicit
  store of \<^verbatim>\<open>s_node_t\<close> cells so that in-place updates and aliasing are visible.

  The address an allocation returns is an argument of the operation that allocates; the
  lemmas ask that it is not null and not in use. A loop over a list is a
  \<^theory_text>\<open>partial_function (option)\<close>: \<open>None\<close> stands for a crash on a dangling pointer or for a
  loop that never ends on a circular list, and every lemma about a well-formed list shows
  that the operation returns.
\<close>

record 'v s_node =
  s_data :: 'v
  s_next :: addr

type_synonym 'v store = "addr \<rightharpoonup> 'v s_node"

subsection \<open>Operations\<close>

definition dk_set_push :: "addr \<Rightarrow> 'v store \<Rightarrow> addr \<Rightarrow> 'v \<Rightarrow> 'v store \<times> addr" where
  "dk_set_push newn h st item = (h(newn \<mapsto> \<lparr>s_data = item, s_next = st\<rparr>), newn)"

definition dk_set_push_two ::
  "addr \<Rightarrow> addr \<Rightarrow> 'v store \<Rightarrow> addr \<Rightarrow> 'v \<Rightarrow> 'v \<Rightarrow> 'v store \<times> addr" where
  "dk_set_push_two cadr_newn car_newn h st car_item cadr_item =
     (h(cadr_newn \<mapsto> \<lparr>s_data = cadr_item, s_next = st\<rparr>,
        car_newn \<mapsto> \<lparr>s_data = car_item, s_next = cadr_newn\<rparr>), car_newn)"

partial_function (option) dk_set_member :: "'v store \<Rightarrow> addr \<Rightarrow> 'v \<Rightarrow> addr option" where
  "dk_set_member h st elt =
     (if st = NULL then Some NULL
      else case h st of
        None \<Rightarrow> None
      | Some nd \<Rightarrow> if elt = s_data nd then Some st else dk_set_member h (s_next nd) elt)"

definition dk_set_pushnew :: "addr \<Rightarrow> 'v store \<Rightarrow> addr \<Rightarrow> 'v \<Rightarrow> ('v store \<times> addr) option" where
  "dk_set_pushnew newn h st item =
     (case dk_set_member h st item of
        None \<Rightarrow> None
      | Some m \<Rightarrow>
          if m = NULL
          then Some (h(newn \<mapsto> \<lparr>s_data = item, s_next = st\<rparr>), newn)
          else Some (h, st))"

text \<open>The second component of the result is the popped item, \<open>None\<close> for the null pointer.\<close>

definition dk_set_pop :: "'v store \<Rightarrow> addr \<Rightarrow> ('v store \<times> addr \<times> 'v option) option" where
  "dk_set_pop h st =
     (if st \<noteq> NULL then
        (case h st of
           None \<Rightarrow> None
         | Some old \<Rightarrow> Some (h(st := None), s_next old, Some (s_data old)))
      else Some (h, st, None))"

definition dk_set_pop_or_null :: "'v store \<Rightarrow> addr \<Rightarrow> ('v store \<times> addr \<times> 'v option) option" where
  "dk_set_pop_or_null h st =
     (if st \<noteq> NULL then
        (case h st of
           None \<Rightarrow> None
         | Some old \<Rightarrow> Some (h(st := None), s_next old, Some (s_data old)))
      else Some (h, st, None))"

text \<open>
  \<^verbatim>\<open>*previous = v\<close>: the pointer \<^verbatim>\<open>previous\<close> is either the address of the list variable
  (\<open>None\<close>) or the address of the \<^verbatim>\<open>next\<close> field of a cell.
\<close>

definition store_through ::
  "'v store \<Rightarrow> addr \<Rightarrow> addr option \<Rightarrow> addr \<Rightarrow> ('v store \<times> addr) option" where
  "store_through h root previous v =
     (case previous of
        None \<Rightarrow> Some (h, v)
      | Some a \<Rightarrow> (case h a of None \<Rightarrow> None | Some nd \<Rightarrow> Some (h(a \<mapsto> nd\<lparr>s_next := v\<rparr>), root)))"

partial_function (option) dk_set_delete_loop ::
  "'v store \<Rightarrow> addr \<Rightarrow> 'v \<Rightarrow> addr \<Rightarrow> addr option \<Rightarrow> ('v store \<times> addr \<times> int) option" where
  "dk_set_delete_loop h root item node previous =
     (if node = NULL then Some (h, root, 0)
      else case h node of
        None \<Rightarrow> None
      | Some nd \<Rightarrow>
          if s_data nd = item then
            (case store_through h root previous (s_next nd) of
               None \<Rightarrow> None
             | Some (h', root') \<Rightarrow> Some (h'(node := None), root', 1))
          else dk_set_delete_loop h root item (s_next nd) (Some node))"

definition dk_set_delete :: "'v store \<Rightarrow> addr \<Rightarrow> 'v \<Rightarrow> ('v store \<times> addr \<times> int) option" where
  "dk_set_delete h st item = dk_set_delete_loop h st item st None"

partial_function (option) dk_set_delete_nth_loop ::
  "'v store \<Rightarrow> addr \<Rightarrow> int \<Rightarrow> addr \<Rightarrow> addr option \<Rightarrow> ('v store \<times> addr \<times> 'v option) option" where
  "dk_set_delete_nth_loop h root idx node previous =
     (if node = NULL then Some (h, root, None)
      else case h node of
        None \<Rightarrow> None
      | Some nd \<Rightarrow>
          if idx = 0 then
            (case store_through h root previous (s_next nd) of
               None \<Rightarrow> None
             | Some (h', root') \<Rightarrow> Some (h'(node := None), root', Some (s_data nd)))
          else dk_set_delete_nth_loop h root (idx - 1) (s_next nd) (Some node))"

definition dk_set_delete_nth ::
  "'v store \<Rightarrow> addr \<Rightarrow> int \<Rightarrow> ('v store \<times> addr \<times> 'v option) option" where
  "dk_set_delete_nth h st idx =
     (if 0 > idx then Some (h, st, None) else dk_set_delete_nth_loop h st idx st None)"

partial_function (option) dk_set_length_loop :: "'v store \<Rightarrow> addr \<Rightarrow> 32 word \<Rightarrow> 32 word option" where
  "dk_set_length_loop h st count =
     (if st = NULL then Some count
      else case h st of None \<Rightarrow> None | Some nd \<Rightarrow> dk_set_length_loop h (s_next nd) (count + 1))"

definition dk_set_length :: "'v store \<Rightarrow> addr \<Rightarrow> 32 word option" where
  "dk_set_length h st = dk_set_length_loop h st 0"

partial_function (option) dk_set_last_loop :: "'v store \<Rightarrow> addr \<Rightarrow> addr option" where
  "dk_set_last_loop h s =
     (case h s of
        None \<Rightarrow> None
      | Some nd \<Rightarrow> if s_next nd = NULL then Some s else dk_set_last_loop h (s_next nd))"

definition dk_set_last :: "'v store \<Rightarrow> addr \<Rightarrow> addr option" where
  "dk_set_last h st = (if st = NULL then Some st else dk_set_last_loop h st)"

definition dk_set_conc :: "'v store \<Rightarrow> addr \<Rightarrow> addr \<Rightarrow> ('v store \<times> addr) option" where
  "dk_set_conc h s1 s2 =
     (case dk_set_last h s1 of
        None \<Rightarrow> None
      | Some lst \<Rightarrow>
          if lst \<noteq> NULL then
            (case h lst of
               None \<Rightarrow> None
             | Some nd \<Rightarrow> Some (h(lst \<mapsto> nd\<lparr>s_next := s2\<rparr>), s1))
          else Some (h, s2))"

definition dk_set_cons :: "addr \<Rightarrow> 'v store \<Rightarrow> 'v \<Rightarrow> addr \<Rightarrow> 'v store \<times> addr" where
  "dk_set_cons tmp h s1 s2 = (h(tmp \<mapsto> \<lparr>s_data = s1, s_next = s2\<rparr>), tmp)"

partial_function (option) dk_set_free :: "'v store \<Rightarrow> addr \<Rightarrow> 'v store option" where
  "dk_set_free h st =
     (if st = NULL then Some h
      else case h st of None \<Rightarrow> None | Some nd \<Rightarrow> dk_set_free (h(st := None)) (s_next nd))"

text \<open>
  \<^verbatim>\<open>array[inx++] = elt\<close> over the list; the array has \<^verbatim>\<open>dk_set_length\<close> entries, and a store
  outside it is an error.
\<close>

partial_function (option) dk_set_to_array_loop ::
  "'v store \<Rightarrow> addr \<Rightarrow> 'v option list \<Rightarrow> nat \<Rightarrow> 'v option list option" where
  "dk_set_to_array_loop h st array inx =
     (if st = NULL then Some array
      else case h st of
        None \<Rightarrow> None
      | Some nd \<Rightarrow>
          if inx < length array
          then dk_set_to_array_loop h (s_next nd) (array[inx := Some (s_data nd)]) (inx + 1)
          else None)"

definition dk_set_to_array :: "'v store \<Rightarrow> addr \<Rightarrow> 'v option list option" where
  "dk_set_to_array h st =
     (case dk_set_length h st of
        None \<Rightarrow> None
      | Some len \<Rightarrow> dk_set_to_array_loop h st (replicate (unat len) None) 0)"

definition list_to_array :: "'v store \<Rightarrow> addr \<Rightarrow> ('v store \<times> 'v option list) option" where
  "list_to_array h st =
     (case dk_set_to_array h st of
        None \<Rightarrow> None
      | Some array \<Rightarrow> (case dk_set_free h st of None \<Rightarrow> None | Some h' \<Rightarrow> Some (h', array)))"

definition copy_list_to_array :: "'v store \<Rightarrow> addr \<Rightarrow> 'v option list option" where
  "copy_list_to_array h st =
     (case dk_set_length h st of
        None \<Rightarrow> None
      | Some len \<Rightarrow> dk_set_to_array_loop h st (replicate (unat len) None) 0)"

text \<open>\<^verbatim>\<open>array[--inx] = elt\<close>\<close>

partial_function (option) revlist_to_array_loop ::
  "'v store \<Rightarrow> addr \<Rightarrow> 'v option list \<Rightarrow> nat \<Rightarrow> 'v option list option" where
  "revlist_to_array_loop h st array inx =
     (if st = NULL then Some array
      else case h st of
        None \<Rightarrow> None
      | Some nd \<Rightarrow>
          if 0 < inx \<and> inx \<le> length array
          then revlist_to_array_loop h (s_next nd) (array[inx - 1 := Some (s_data nd)]) (inx - 1)
          else None)"

definition revlist_to_array :: "'v store \<Rightarrow> addr \<Rightarrow> ('v store \<times> 'v option list) option" where
  "revlist_to_array h st =
     (case dk_set_length h st of
        None \<Rightarrow> None
      | Some len \<Rightarrow>
          (case revlist_to_array_loop h st (replicate (unat len) None) (unat len) of
             None \<Rightarrow> None
           | Some array \<Rightarrow>
               (case dk_set_free h st of None \<Rightarrow> None | Some h' \<Rightarrow> Some (h', array))))"

partial_function (option) dk_set_nreverse_loop ::
  "'v store \<Rightarrow> addr \<Rightarrow> addr \<Rightarrow> ('v store \<times> addr) option" where
  "dk_set_nreverse_loop h st next =
     (if next = NULL then Some (h, st)
      else case h next of
        None \<Rightarrow> None
      | Some nd \<Rightarrow> dk_set_nreverse_loop (h(next \<mapsto> nd\<lparr>s_next := st\<rparr>)) next (s_next nd))"

definition dk_set_nreverse :: "'v store \<Rightarrow> addr \<Rightarrow> ('v store \<times> addr) option" where
  "dk_set_nreverse h st =
     (if st = NULL then Some (h, NULL)
      else case h st of
        None \<Rightarrow> None
      | Some nd \<Rightarrow> dk_set_nreverse_loop (h(st \<mapsto> nd\<lparr>s_next := NULL\<rparr>)) st (s_next nd))"

datatype straight_result = Straight | GPF_circular_list

definition next_or_null :: "'v store \<Rightarrow> addr \<Rightarrow> addr option" where
  "next_or_null h node =
     (if node = NULL then Some NULL
      else case h node of None \<Rightarrow> None | Some nd \<Rightarrow> Some (s_next nd))"

definition STEP_2 :: "'v store \<Rightarrow> addr \<Rightarrow> addr option" where
  "STEP_2 h node = Option.bind (next_or_null h node) (next_or_null h)"

partial_function (option) dk_set_check_straight_loop ::
  "'v store \<Rightarrow> addr \<Rightarrow> addr \<Rightarrow> straight_result option" where
  "dk_set_check_straight_loop h slow fast =
     (if slow = NULL then Some Straight
      else if slow = fast then Some GPF_circular_list
      else case STEP_2 h fast of
        None \<Rightarrow> None
      | Some fast' \<Rightarrow>
          (case h slow of
             None \<Rightarrow> None
           | Some nd \<Rightarrow> dk_set_check_straight_loop h (s_next nd) fast'))"

definition dk_set_check_straight :: "'v store \<Rightarrow> addr \<Rightarrow> straight_result option" where
  "dk_set_check_straight h st =
     (case STEP_2 h st of
        None \<Rightarrow> None
      | Some fast \<Rightarrow> dk_set_check_straight_loop h st fast)"

partial_function (option) dk_set_position_loop :: "'v store \<Rightarrow> addr \<Rightarrow> 'v \<Rightarrow> int \<Rightarrow> int option" where
  "dk_set_position_loop h st elt nt =
     (if st = NULL then Some (- 1)
      else case h st of
        None \<Rightarrow> None
      | Some nd \<Rightarrow> if s_data nd = elt then Some nt
                    else dk_set_position_loop h (s_next nd) elt (nt + 1))"

definition dk_set_position :: "'v store \<Rightarrow> addr \<Rightarrow> 'v \<Rightarrow> int option" where
  "dk_set_position h st elt = dk_set_position_loop h st elt 0"

text \<open>\<^verbatim>\<open>strcmp (set->data, strg)\<close> is equality of the strings the data pointers denote.\<close>

definition dk_set_position_of_string :: "string store \<Rightarrow> addr \<Rightarrow> string \<Rightarrow> int option" where
  "dk_set_position_of_string h st strg = dk_set_position_loop h st strg 0"

datatype kw_item = KwStr string | KwVal int

partial_function (option) dk_set_get_keyword ::
  "kw_item store \<Rightarrow> addr \<Rightarrow> string \<Rightarrow> kw_item \<Rightarrow> kw_item option" where
  "dk_set_get_keyword h st key_strg dflt_val =
     (if st = NULL then Some dflt_val
      else case h st of
        None \<Rightarrow> None
      | Some nd \<Rightarrow>
          (case h (s_next nd) of
             None \<Rightarrow> None
           | Some nd2 \<Rightarrow>
               if s_data nd = KwStr key_strg then Some (s_data nd2)
               else dk_set_get_keyword h (s_next nd2) key_strg dflt_val))"

text \<open>The result is the address of the cell whose data field holds the value.\<close>

partial_function (option) dk_set_getptr_keyword ::
  "kw_item store \<Rightarrow> addr \<Rightarrow> string \<Rightarrow> addr option" where
  "dk_set_getptr_keyword h st key_strg =
     (if st = NULL then Some NULL
      else case h st of
        None \<Rightarrow> None
      | Some nd \<Rightarrow>
          (case h (s_next nd) of
             None \<Rightarrow> None
           | Some nd2 \<Rightarrow>
               if s_data nd = KwStr key_strg then Some (s_next nd)
               else dk_set_getptr_keyword h (s_next nd2) key_strg))"

partial_function (option) dk_set_nth_loop :: "'v store \<Rightarrow> addr \<Rightarrow> int \<Rightarrow> int \<Rightarrow> addr option" where
  "dk_set_nth_loop h st inx nt =
     (if inx < nt then
        (if st \<noteq> NULL then
           (case h st of None \<Rightarrow> None | Some nd \<Rightarrow> dk_set_nth_loop h (s_next nd) (inx + 1) nt)
         else Some st)
      else Some st)"

definition dk_set_nth :: "'v store \<Rightarrow> addr \<Rightarrow> int \<Rightarrow> 'v option option" where
  "dk_set_nth h st nt =
     (case dk_set_nth_loop h st 0 nt of
        None \<Rightarrow> None
      | Some s \<Rightarrow>
          if s \<noteq> NULL then (case h s of None \<Rightarrow> None | Some nd \<Rightarrow> Some (Some (s_data nd)))
          else Some None)"

text \<open>
  \<^verbatim>\<open>dk_set_copy\<close> allocates one cell per element: \<open>news\<close> are the addresses the successive
  allocations return. The running pointer \<^verbatim>\<open>last\<close> is \<open>None\<close> for \<^verbatim>\<open>&r\<close> and the address of
  the lst new cell otherwise.
\<close>

partial_function (option) dk_set_copy_loop ::
  "addr list \<Rightarrow> 'v store \<Rightarrow> addr \<Rightarrow> addr option \<Rightarrow> addr \<Rightarrow> ('v store \<times> addr) option" where
  "dk_set_copy_loop news h r lst s =
     (if s = NULL then Some (h, r)
      else case h s of
        None \<Rightarrow> None
      | Some nd \<Rightarrow>
          (case news of
             [] \<Rightarrow> None
           | n # news' \<Rightarrow>
               (case store_through h r lst n of
                  None \<Rightarrow> None
                | Some (h', r') \<Rightarrow>
                    dk_set_copy_loop news' (h'(n \<mapsto> \<lparr>s_data = s_data nd, s_next = NULL\<rparr>)) r'
                      (Some n) (s_next nd))))"

definition dk_set_copy :: "addr list \<Rightarrow> 'v store \<Rightarrow> addr \<Rightarrow> ('v store \<times> addr) option" where
  "dk_set_copy news h s = dk_set_copy_loop news h NULL None s"

partial_function (option) dk_set_is_subset :: "'v store \<Rightarrow> addr \<Rightarrow> addr \<Rightarrow> int option" where
  "dk_set_is_subset h super sub =
     (if sub = NULL then Some 1
      else case h sub of
        None \<Rightarrow> None
      | Some nd \<Rightarrow>
          (case dk_set_member h super (s_data nd) of
             None \<Rightarrow> None
           | Some m \<Rightarrow> if m = NULL then Some 0 else dk_set_is_subset h super (s_next nd)))"

subsection \<open>Well-formed lists in the store\<close>

fun dk_seg :: "'v store \<Rightarrow> addr \<Rightarrow> addr list \<Rightarrow> addr \<Rightarrow> bool" where
  "dk_seg h p [] q = (p = q)"
| "dk_seg h p (a # as) q =
     (p = a \<and> a \<noteq> NULL \<and> (case h a of None \<Rightarrow> False | Some nd \<Rightarrow> dk_seg h (s_next nd) as q))"

definition dk_elts :: "'v store \<Rightarrow> addr list \<Rightarrow> 'v list" where
  "dk_elts h as = map (\<lambda>a. s_data (the (h a))) as"

definition dk_set_at :: "'v store \<Rightarrow> addr \<Rightarrow> addr list \<Rightarrow> 'v list \<Rightarrow> bool" where
  "dk_set_at h p as xs \<longleftrightarrow> dk_seg h p as NULL \<and> xs = dk_elts h as"

lemma dk_elts_simps [simp]:
  "dk_elts h [] = []"
  "dk_elts h (a # as) = s_data (the (h a)) # dk_elts h as"
  "dk_elts h (as @ bs) = dk_elts h as @ dk_elts h bs"
  "length (dk_elts h as) = length as"
  by (simp_all add: dk_elts_def)

lemma dk_seg_append [simp]:
  "dk_seg h p (as @ bs) q = (\<exists>m. dk_seg h p as m \<and> dk_seg h m bs q)"
  by (induction as arbitrary: p) (auto split: option.splits)

lemma dk_seg_NULL [simp]: "dk_seg h NULL as q \<longleftrightarrow> as = [] \<and> q = NULL"
  by (cases as) auto

lemma dk_seg_alloc: "dk_seg h p as q \<Longrightarrow> a \<in> set as \<Longrightarrow> a \<noteq> NULL \<and> h a \<noteq> None"
  by (induction as arbitrary: p) (auto split: option.splits)

lemma dk_seg_frame [simp]: "a \<notin> set as \<Longrightarrow> dk_seg (h(a := v)) p as q = dk_seg h p as q"
  by (induction as arbitrary: p) (auto split: option.splits)

lemma dk_elts_frame [simp]: "a \<notin> set as \<Longrightarrow> dk_elts (h(a := v)) as = dk_elts h as"
  by (auto simp: dk_elts_def)

lemma dk_seg_cong:
  "(\<And>a. a \<in> set as \<Longrightarrow> h' a = h a) \<Longrightarrow> dk_seg h' p as q = dk_seg h p as q"
  by (induction as arbitrary: p) (auto split: option.splits)

lemma dk_elts_cong: "(\<And>a. a \<in> set as \<Longrightarrow> h' a = h a) \<Longrightarrow> dk_elts h' as = dk_elts h as"
  by (auto simp: dk_elts_def)

lemma dk_seg_unique: "dk_seg h p as NULL \<Longrightarrow> dk_seg h p bs NULL \<Longrightarrow> as = bs"
proof (induction as arbitrary: p bs)
  case Nil
  then show ?case by simp
next
  case (Cons a as)
  then show ?case by (cases bs) (auto split: option.splits)
qed

text \<open>A list that ends in null visits no cell twice.\<close>

lemma dk_seg_distinct: "dk_seg h p as NULL \<Longrightarrow> distinct as"
proof (induction as arbitrary: p)
  case Nil
  then show ?case by simp
next
  case (Cons a as)
  then obtain nd where nd: "h a = Some nd" and seg: "dk_seg h (s_next nd) as NULL"
    by (auto split: option.splits)
  have "a \<notin> set as"
  proof
    assume "a \<in> set as"
    then obtain us vs where as: "as = us @ a # vs" by (auto simp: in_set_conv_decomp)
    with seg have "dk_seg h a (a # vs) NULL" by auto
    moreover have "dk_seg h a (a # as) NULL" using Cons.prems by auto
    ultimately have "a # vs = a # as" by (rule dk_seg_unique)
    with as show False by simp
  qed
  with Cons.IH[OF seg] show ?case by simp
qed

lemma dk_set_at_simps [simp]:
  "dk_set_at h p [] xs \<longleftrightarrow> p = NULL \<and> xs = []"
  "dk_set_at h NULL as xs \<longleftrightarrow> as = [] \<and> xs = []"
  by (auto simp: dk_set_at_def)

lemma dk_set_at_Cons:
  "dk_set_at h p (a # as) xs \<longleftrightarrow>
     p = a \<and> a \<noteq> NULL \<and>
     (\<exists>nd ys. h a = Some nd \<and> xs = s_data nd # ys \<and> dk_set_at h (s_next nd) as ys)"
  by (auto simp: dk_set_at_def split: option.splits)

lemma dk_set_at_length: "dk_set_at h p as xs \<Longrightarrow> length as = length xs"
  by (auto simp: dk_set_at_def)

lemma dk_set_at_distinct: "dk_set_at h p as xs \<Longrightarrow> distinct as"
  by (auto simp: dk_set_at_def intro: dk_seg_distinct)

lemma dk_set_at_frame:
  "a \<notin> set as \<Longrightarrow> dk_set_at (h(a := v)) p as xs = dk_set_at h p as xs"
  by (simp add: dk_set_at_def)

lemma dk_set_at_cong:
  "(\<And>a. a \<in> set as \<Longrightarrow> h' a = h a) \<Longrightarrow> dk_set_at h' p as xs = dk_set_at h p as xs"
  by (simp add: dk_set_at_def dk_seg_cong[of as h' h] dk_elts_cong[of as h' h])

subsection \<open>Functional behaviour on well-formed lists\<close>

lemma dk_set_push_ok:
  assumes "dk_set_at h p as xs" "newn \<noteq> NULL" "h newn = None"
  shows "dk_set_at (fst (dk_set_push newn h p x)) (snd (dk_set_push newn h p x)) (newn # as) (x # xs)"
proof -
  have "newn \<notin> set as" using assms by (auto simp: dk_set_at_def dest: dk_seg_alloc)
  then show ?thesis using assms by (simp add: dk_set_push_def dk_set_at_Cons dk_set_at_frame)
qed

lemma dk_set_pop_ok:
  assumes "dk_set_at h p (a # as) (x # xs)"
  shows "\<exists>p'. dk_set_pop h p = Some (h(a := None), p', Some x) \<and> dk_set_at (h(a := None)) p' as xs"
  using assms dk_set_at_distinct[OF assms]
  by (auto simp: dk_set_at_Cons dk_set_pop_def dk_set_at_frame)

lemma dk_set_pop_or_null_eq: "dk_set_pop_or_null = dk_set_pop"
  by (simp add: fun_eq_iff dk_set_pop_or_null_def dk_set_pop_def)

lemma dk_set_pop_push:
  assumes "dk_set_at h p as xs" "newn \<noteq> NULL" "h newn = None"
  shows "dk_set_pop (fst (dk_set_push newn h p x)) (snd (dk_set_push newn h p x)) = Some (h, p, Some x)"
  using assms by (auto simp: dk_set_push_def dk_set_pop_def fun_upd_idem)

lemma dk_set_member_ok:
  "dk_set_at h p as xs \<Longrightarrow>
     \<exists>m. dk_set_member h p x = Some m \<and> (m = NULL \<longleftrightarrow> x \<notin> set xs) \<and> (m \<noteq> NULL \<longrightarrow> m \<in> set as)"
proof (induction as arbitrary: p xs)
  case Nil
  then show ?case by (simp add: dk_set_member.simps)
next
  case (Cons a as)
  then obtain nd ys where a: "p = a" "a \<noteq> NULL" "h a = Some nd" "xs = s_data nd # ys"
    and rest: "dk_set_at h (s_next nd) as ys" by (auto simp: dk_set_at_Cons)
  show ?case
  proof (cases "x = s_data nd")
    case True
    with a show ?thesis by (subst dk_set_member.simps) auto
  next
    case False
    with Cons.IH[OF rest] a show ?thesis by (subst dk_set_member.simps) auto
  qed
qed

lemma dk_set_pushnew_ok:
  assumes "dk_set_at h p as xs" "newn \<noteq> NULL" "h newn = None"
  shows "\<exists>h' p' as'. dk_set_pushnew newn h p x = Some (h', p') \<and>
           dk_set_at h' p' as' (if x \<in> set xs then xs else x # xs)"
proof -
  obtain m where m: "dk_set_member h p x = Some m" "m = NULL \<longleftrightarrow> x \<notin> set xs"
    using dk_set_member_ok[OF assms(1)] by blast
  have "newn \<notin> set as" using assms by (auto simp: dk_set_at_def dest: dk_seg_alloc)
  then have "dk_set_at (h(newn \<mapsto> \<lparr>s_data = x, s_next = p\<rparr>)) newn (newn # as) (x # xs)"
    using assms by (simp add: dk_set_at_Cons dk_set_at_frame)
  with m assms(1) show ?thesis by (auto simp: dk_set_pushnew_def)
qed

lemma dk_set_length_loop_ok:
  "dk_set_at h p as xs \<Longrightarrow> dk_set_length_loop h p c = Some (c + of_nat (length xs))"
proof (induction as arbitrary: p xs c)
  case Nil
  then show ?case by (simp add: dk_set_length_loop.simps)
next
  case (Cons a as)
  then obtain nd ys where a: "p = a" "a \<noteq> NULL" "h a = Some nd" "xs = s_data nd # ys"
    and rest: "dk_set_at h (s_next nd) as ys" by (auto simp: dk_set_at_Cons)
  then show ?case
    by (subst dk_set_length_loop.simps) (simp add: Cons.IH[OF rest])
qed

lemma dk_set_length_ok:
  "dk_set_at h p as xs \<Longrightarrow> dk_set_length h p = Some (of_nat (length xs))"
  by (simp add: dk_set_length_def dk_set_length_loop_ok)

lemma store_through_seg:
  assumes "dk_seg h root bs q" "distinct bs"
    and "prev = (if bs = [] then None else Some (last bs))"
  shows "\<exists>h' root'. store_through h root prev v = Some (h', root') \<and>
           dk_seg h' root' bs v \<and> dk_elts h' bs = dk_elts h bs \<and>
           (\<forall>a. a \<notin> set bs \<longrightarrow> h' a = h a) \<and> dom h' = dom h"
proof (cases bs rule: rev_cases)
  case Nil
  then show ?thesis using assms by (simp add: store_through_def)
next
  case (snoc cs b)
  then obtain nd where nd: "h b = Some nd" and seg: "dk_seg h root cs b" "b \<noteq> NULL"
    using assms by (auto split: option.splits)
  have "b \<notin> set cs" using assms snoc by simp
  then show ?thesis
    using assms snoc nd seg by (auto simp: store_through_def)
qed

lemma dk_set_delete_loop_ok:
  assumes "dk_seg h root bs node" "dk_set_at h node as ys" "distinct (bs @ as)"
    and "prev = (if bs = [] then None else Some (last bs))" "x \<notin> set (dk_elts h bs)"
  shows "\<exists>h' root' as'. dk_set_delete_loop h root x node prev =
             Some (h', root', if x \<in> set ys then 1 else 0) \<and>
           dk_set_at h' root' (bs @ as') (dk_elts h bs @ remove1 x ys) \<and> set as' \<subseteq> set as \<and>
           (\<forall>a. a \<notin> set (bs @ as) \<longrightarrow> h' a = h a) \<and> dom h' = dom h - (set as - set as')"
  using assms
proof (induction as arbitrary: bs node ys prev)
  case Nil
  then show ?case by (subst dk_set_delete_loop.simps) (auto simp: dk_set_at_def)
next
  case (Cons a as)
  then obtain nd zs where a: "node = a" "a \<noteq> NULL" "h a = Some nd" "ys = s_data nd # zs"
    and rest: "dk_set_at h (s_next nd) as zs" by (auto simp: dk_set_at_Cons)
  show ?case
  proof (cases "s_data nd = x")
    case True
    from store_through_seg[OF Cons.prems(1) _ Cons.prems(4), of "s_next nd"] Cons.prems(3)
    obtain h1 root1 where st: "store_through h root prev (s_next nd) = Some (h1, root1)"
      and h1: "dk_seg h1 root1 bs (s_next nd)" "dk_elts h1 bs = dk_elts h bs"
        "\<forall>b. b \<notin> set bs \<longrightarrow> h1 b = h b" "dom h1 = dom h" by auto
    have "a \<notin> set bs" "a \<notin> set as" "set as \<inter> set bs = {}" using Cons.prems(3) by auto
    then have h1as: "dk_set_at h1 (s_next nd) as zs"
      using rest h1(3) \<open>set as \<inter> set bs = {}\<close> by (subst dk_set_at_cong[of as h1 h]) auto
    define h2 where "h2 = h1(a := None)"
    have "dk_set_at h2 root1 (bs @ as) (dk_elts h bs @ zs)"
      using h1 h1as \<open>a \<notin> set bs\<close> \<open>a \<notin> set as\<close> by (auto simp: dk_set_at_def h2_def)
    moreover have "dk_set_delete_loop h root x node prev = Some (h2, root1, 1)"
      using a True st by (subst dk_set_delete_loop.simps) (simp add: h2_def)
    moreover have "dom h2 = dom h - (set (a # as) - set as)"
      using h1(4) \<open>a \<notin> set as\<close> by (auto simp: h2_def)
    moreover have "\<forall>b. b \<notin> set (bs @ a # as) \<longrightarrow> h2 b = h b"
      using h1(3) by (simp add: h2_def)
    ultimately show ?thesis
      using a True by (intro exI[of _ h2] exI[of _ root1] exI[of _ as]) auto
  next
    case False
    have "\<exists>h' root' as'. dk_set_delete_loop h root x (s_next nd) (Some a) =
             Some (h', root', if x \<in> set zs then 1 else 0) \<and>
           dk_set_at h' root' ((bs @ [a]) @ as') (dk_elts h (bs @ [a]) @ remove1 x zs) \<and>
           set as' \<subseteq> set as \<and> (\<forall>b. b \<notin> set ((bs @ [a]) @ as) \<longrightarrow> h' b = h b) \<and>
           dom h' = dom h - (set as - set as')"
      using Cons.prems a False rest by (intro Cons.IH) auto
    then obtain h' root' as' where r:
      "dk_set_delete_loop h root x (s_next nd) (Some a) = Some (h', root', if x \<in> set zs then 1 else 0)"
      "dk_set_at h' root' (bs @ (a # as')) (dk_elts h bs @ remove1 x ys)"
      "set as' \<subseteq> set as" "\<forall>b. b \<notin> set (bs @ a # as) \<longrightarrow> h' b = h b"
      "dom h' = dom h - (set as - set as')"
      using a False by auto
    have "a \<notin> set as" using Cons.prems(3) by auto
    with r a False show ?thesis
      by (intro exI[of _ h'] exI[of _ root'] exI[of _ "a # as'"])
         (subst dk_set_delete_loop.simps, auto)
  qed
qed

lemma dk_set_delete_spec:
  assumes "dk_set_at h p as xs"
  shows "\<exists>h' p' as'. dk_set_delete h p x = Some (h', p', if x \<in> set xs then 1 else 0) \<and>
           dk_set_at h' p' as' (remove1 x xs) \<and> set as' \<subseteq> set as \<and>
           (\<forall>a. a \<notin> set as \<longrightarrow> h' a = h a) \<and> dom h' = dom h - (set as - set as')"
  using dk_set_delete_loop_ok[of h p "[]" p as xs None x] assms dk_set_at_distinct[OF assms]
  by (simp add: dk_set_delete_def)

lemma dk_set_free_ok:
  "dk_set_at h p as xs \<Longrightarrow> dk_set_free h p = Some (h |` (- set as))"
proof (induction as arbitrary: h p xs)
  case Nil
  then show ?case by (simp add: dk_set_free.simps)
next
  case (Cons a as)
  then obtain nd ys where a: "p = a" "a \<noteq> NULL" "h a = Some nd" "xs = s_data nd # ys"
    and rest: "dk_set_at h (s_next nd) as ys" by (auto simp: dk_set_at_Cons)
  have "a \<notin> set as" using dk_set_at_distinct[OF Cons.prems] by simp
  with rest have "dk_set_at (h(a := None)) (s_next nd) as ys" by (simp add: dk_set_at_frame)
  then have "dk_set_free (h(a := None)) (s_next nd) = Some ((h(a := None)) |` (- set as))"
    by (rule Cons.IH)
  moreover have "(h(a := None)) |` (- set as) = h |` (- set (a # as))"
    by (auto simp: restrict_map_def)
  ultimately show ?case
    using a by (subst dk_set_free.simps) (simp del: fun_upd_apply)
qed

lemma dk_set_last_loop_ok:
  "dk_set_at h p as xs \<Longrightarrow> as \<noteq> [] \<Longrightarrow> dk_set_last_loop h p = Some (last as)"
proof (induction as arbitrary: p xs)
  case Nil
  then show ?case by simp
next
  case (Cons a as)
  then obtain nd ys where a: "p = a" "a \<noteq> NULL" "h a = Some nd" "xs = s_data nd # ys"
    and rest: "dk_set_at h (s_next nd) as ys" by (auto simp: dk_set_at_Cons)
  show ?case
  proof (cases as)
    case Nil
    with a rest show ?thesis by (subst dk_set_last_loop.simps) simp
  next
    case (Cons b bs)
    with rest have "s_next nd \<noteq> NULL" by (auto simp: dk_set_at_Cons)
    with Cons.IH[OF rest] a Cons show ?thesis by (subst dk_set_last_loop.simps) simp
  qed
qed

lemma dk_set_last_ok:
  "dk_set_at h p as xs \<Longrightarrow> dk_set_last h p = Some (if as = [] then NULL else last as)"
  using dk_set_last_loop_ok[of h p as xs] by (cases as) (auto simp: dk_set_last_def dk_set_at_Cons)

lemma dk_set_conc_ok:
  assumes "dk_set_at h p as xs" "dk_set_at h q bs ys" "set as \<inter> set bs = {}"
  shows "\<exists>h'. dk_set_conc h p q = Some (h', if as = [] then q else p) \<and>
           dk_set_at h' (if as = [] then q else p) (as @ bs) (xs @ ys) \<and>
           (\<forall>a. a \<notin> set as \<longrightarrow> h' a = h a)"
proof (cases as rule: rev_cases)
  case Nil
  then show ?thesis using assms by (simp add: dk_set_conc_def dk_set_last_ok)
next
  case (snoc cs c)
  then obtain nd where nd: "h c = Some nd" and seg: "dk_seg h p cs c" "c \<noteq> NULL"
    using assms by (auto simp: dk_set_at_def split: option.splits)
  have "c \<notin> set cs" "c \<notin> set bs" using dk_set_at_distinct[OF assms(1)] assms(3) snoc by auto
  then show ?thesis
    using assms snoc nd seg
    by (auto simp: dk_set_conc_def dk_set_last_ok[OF assms(1)] dk_set_at_def)
qed

lemma dk_set_to_array_loop_ok:
  "dk_set_at h p as ys \<Longrightarrow>
     dk_set_to_array_loop h p (map Some xs @ replicate (length ys) None) (length xs) =
       Some (map Some (xs @ ys))"
proof (induction as arbitrary: p xs ys)
  case Nil
  then show ?case by (simp add: dk_set_to_array_loop.simps)
next
  case (Cons a as)
  then obtain nd zs where a: "p = a" "a \<noteq> NULL" "h a = Some nd" "ys = s_data nd # zs"
    and rest: "dk_set_at h (s_next nd) as zs" by (auto simp: dk_set_at_Cons)
  have "(map Some xs @ None # replicate (length zs) None)[length xs := Some (s_data nd)] =
          map Some (xs @ [s_data nd]) @ replicate (length zs) None"
    by (simp add: list_update_append)
  with Cons.IH[OF rest, of "xs @ [s_data nd]"] a show ?case
    by (subst dk_set_to_array_loop.simps) simp
qed

lemma dk_set_to_array_ok:
  "dk_set_at h p as xs \<Longrightarrow> length xs < 2 ^ 32 \<Longrightarrow> dk_set_to_array h p = Some (map Some xs)"
  using dk_set_to_array_loop_ok[of h p as xs "[]"]
  by (simp add: dk_set_to_array_def dk_set_length_ok unat_of_nat)

lemma copy_list_to_array_eq: "copy_list_to_array h p = dk_set_to_array h p"
  by (simp add: copy_list_to_array_def dk_set_to_array_def)

lemma list_to_array_ok:
  "dk_set_at h p as xs \<Longrightarrow> length xs < 2 ^ 32 \<Longrightarrow>
     list_to_array h p = Some (h |` (- set as), map Some xs)"
  by (simp add: list_to_array_def dk_set_to_array_ok dk_set_free_ok)

lemma revlist_to_array_loop_ok:
  "dk_set_at h p as ys \<Longrightarrow>
     revlist_to_array_loop h p (replicate (length ys) None @ map Some xs) (length ys) =
       Some (map Some (rev ys @ xs))"
proof (induction as arbitrary: p xs ys)
  case Nil
  then show ?case by (simp add: revlist_to_array_loop.simps)
next
  case (Cons a as)
  then obtain nd zs where a: "p = a" "a \<noteq> NULL" "h a = Some nd" "ys = s_data nd # zs"
    and rest: "dk_set_at h (s_next nd) as zs" by (auto simp: dk_set_at_Cons)
  have "(replicate (length ys) None @ map Some xs)[length ys - 1 := Some (s_data nd)] =
          replicate (length zs) None @ map Some (s_data nd # xs)"
    using a by (simp add: list_update_append replicate_append_same[symmetric] del: replicate_append_same)
  with Cons.IH[OF rest, of "s_data nd # xs"] a show ?case
    by (subst revlist_to_array_loop.simps) simp
qed

lemma revlist_to_array_ok:
  "dk_set_at h p as xs \<Longrightarrow> length xs < 2 ^ 32 \<Longrightarrow>
     revlist_to_array h p = Some (h |` (- set as), map Some (rev xs))"
  using revlist_to_array_loop_ok[of h p as xs "[]"]
  by (simp add: revlist_to_array_def dk_set_length_ok unat_of_nat dk_set_free_ok)

subsection \<open>In-place reversal\<close>

lemma dk_set_nreverse_loop_ok:
  assumes "dk_set_at h s as xs" "dk_set_at h n bs ys" "set as \<inter> set bs = {}"
  shows "\<exists>h'. dk_set_nreverse_loop h s n = Some (h', if bs = [] then s else last bs) \<and>
           dk_set_at h' (if bs = [] then s else last bs) (rev bs @ as) (rev ys @ xs) \<and>
           (\<forall>a. a \<notin> set bs \<longrightarrow> h' a = h a) \<and> dom h' = dom h"
  using assms
proof (induction bs arbitrary: h s n as xs ys)
  case Nil
  then show ?case by (simp add: dk_set_nreverse_loop.simps)
next
  case (Cons b bs)
  then obtain nd zs where b: "n = b" "b \<noteq> NULL" "h b = Some nd" "ys = s_data nd # zs"
    and rest: "dk_set_at h (s_next nd) bs zs" by (auto simp: dk_set_at_Cons)
  define h1 where "h1 = h(b \<mapsto> nd\<lparr>s_next := s\<rparr>)"
  have nb: "b \<notin> set bs" "b \<notin> set as"
    using dk_set_at_distinct[OF Cons.prems(2)] Cons.prems(3) by auto
  have "dk_set_at h1 b (b # as) (s_data nd # xs)"
    using b Cons.prems(1) nb by (simp add: h1_def dk_set_at_Cons dk_set_at_frame)
  moreover have "dk_set_at h1 (s_next nd) bs zs"
    using rest nb by (simp add: h1_def dk_set_at_frame)
  ultimately obtain h' where h':
    "dk_set_nreverse_loop h1 b (s_next nd) = Some (h', if bs = [] then b else last bs)"
    "dk_set_at h' (if bs = [] then b else last bs) (rev bs @ b # as) (rev zs @ s_data nd # xs)"
    "\<forall>a. a \<notin> set bs \<longrightarrow> h' a = h1 a" "dom h' = dom h1"
    using Cons.IH[of h1 b "b # as" "s_data nd # xs" "s_next nd" zs] Cons.prems(3) nb by auto
  moreover have "dk_set_nreverse_loop h s n = dk_set_nreverse_loop h1 b (s_next nd)"
    using b by (subst dk_set_nreverse_loop.simps) (simp add: h1_def)
  moreover have "\<forall>a. a \<notin> set (b # bs) \<longrightarrow> h' a = h a" "dom h' = dom h"
    using h'(3,4) b by (auto simp: h1_def)
  ultimately show ?case using b by (intro exI[of _ h']) auto
qed

lemma dk_set_nreverse_spec:
  assumes "dk_set_at h p as xs"
  shows "\<exists>h'. dk_set_nreverse h p = Some (h', if as = [] then NULL else last as) \<and>
           dk_set_at h' (if as = [] then NULL else last as) (rev as) (rev xs) \<and>
           (\<forall>a. a \<notin> set as \<longrightarrow> h' a = h a) \<and> dom h' = dom h"
proof (cases as)
  case Nil
  then show ?thesis using assms by (simp add: dk_set_nreverse_def)
next
  case (Cons a bs)
  with assms obtain nd ys where a: "p = a" "a \<noteq> NULL" "h a = Some nd" "xs = s_data nd # ys"
    and rest: "dk_set_at h (s_next nd) bs ys" by (auto simp: dk_set_at_Cons)
  define h1 where "h1 = h(a \<mapsto> nd\<lparr>s_next := NULL\<rparr>)"
  have na: "a \<notin> set bs" using dk_set_at_distinct[OF assms] Cons by simp
  have "dk_set_at h1 a [a] [s_data nd]" using a by (simp add: h1_def dk_set_at_Cons)
  moreover have "dk_set_at h1 (s_next nd) bs ys" using rest na by (simp add: h1_def dk_set_at_frame)
  ultimately obtain h' where h':
    "dk_set_nreverse_loop h1 a (s_next nd) = Some (h', if bs = [] then a else last bs)"
    "dk_set_at h' (if bs = [] then a else last bs) (rev bs @ [a]) (rev ys @ [s_data nd])"
    "\<forall>c. c \<notin> set bs \<longrightarrow> h' c = h1 c" "dom h' = dom h1"
    using dk_set_nreverse_loop_ok[of h1 a "[a]" "[s_data nd]" "s_next nd" bs ys] na by auto
  moreover have "dk_set_nreverse h p = dk_set_nreverse_loop h1 a (s_next nd)"
    using a by (simp add: dk_set_nreverse_def h1_def)
  moreover have "\<forall>c. c \<notin> set as \<longrightarrow> h' c = h c" "dom h' = dom h"
    using h'(3,4) a Cons by (auto simp: h1_def)
  ultimately show ?thesis using a Cons by (intro exI[of _ h']) auto
qed

text \<open>
  After the reversal the cell the caller's pointer still names is the tail of the list: a
  caller that keeps using the old pointer sees a list of one element.
\<close>

lemma dk_set_nreverse_old_pointer:
  assumes "dk_set_at h p (a # as) (x # xs)" "dk_set_nreverse h p = Some (h', p')"
  shows "dk_set_at h' p [a] [x]"
proof -
  have "dk_set_at h' p' (rev as @ [a]) (rev xs @ [x])" "p = a"
    using dk_set_nreverse_spec[OF assms(1)] assms by (auto simp: dk_set_at_Cons)
  then have "dk_seg h' a [a] NULL" "x = s_data (the (h' a))"
    by (auto simp: dk_set_at_def split: option.splits)
  then show ?thesis using \<open>p = a\<close> by (auto simp: dk_set_at_def)
qed

subsection \<open>Circularity check\<close>

definition nxt :: "'v store \<Rightarrow> addr \<Rightarrow> addr" where
  "nxt h a = s_next (the (h a))"

lemma dk_seg_funpow: "dk_seg h p as q \<Longrightarrow> (nxt h ^^ length as) p = q"
  by (induction as arbitrary: p) (auto simp: nxt_def funpow_swap1 split: option.splits)

lemma dk_seg_closed: "dk_seg h p as q \<Longrightarrow> a \<in> set as \<Longrightarrow> nxt h a \<in> insert q (set as)"
proof (induction as arbitrary: p)
  case Nil
  then show ?case by simp
next
  case (Cons b as)
  then obtain nd where b: "h b = Some nd" and seg: "dk_seg h (s_next nd) as q"
    by (auto split: option.splits)
  show ?case
  proof (cases "a = b")
    case True
    with b seg show ?thesis by (cases as) (auto simp: nxt_def)
  next
    case False
    with Cons.IH[OF seg] Cons.prems show ?thesis by auto
  qed
qed

text \<open>
  Two runners on a list whose next pointers never reach null: the slow one after \<open>i\<close> steps,
  the fast one after \<open>2 * i + 2\<close>.
\<close>

lemma dk_set_check_straight_loop_meets:
  assumes f: "\<And>i. f i \<noteq> NULL \<and> (\<exists>nd. h (f i) = Some nd \<and> s_next nd = f (Suc i))"
    and "f k = f (2 * k + 2)" "i \<le> k"
  shows "dk_set_check_straight_loop h (f i) (f (2 * i + 2)) = Some GPF_circular_list"
  using assms(3)
proof (induction "k - i" arbitrary: i)
  case 0
  then show ?case using assms(2) f by (subst dk_set_check_straight_loop.simps) auto
next
  case (Suc d)
  show ?case
  proof (cases "f i = f (2 * i + 2)")
    case True
    then show ?thesis using f by (subst dk_set_check_straight_loop.simps) simp
  next
    case False
    obtain nd where nd: "h (f i) = Some nd" "s_next nd = f (Suc i)" using f by blast
    obtain n1 where n1: "h (f (2 * i + 2)) = Some n1" "s_next n1 = f (Suc (2 * i + 2))"
      using f by blast
    obtain n2 where n2: "h (f (Suc (2 * i + 2))) = Some n2" "s_next n2 = f (2 * Suc i + 2)"
      using f[of "Suc (2 * i + 2)"] by auto
    have "STEP_2 h (f (2 * i + 2)) = Some (f (2 * Suc i + 2))"
      using n1 n2 f[of "2 * i + 2"] f[of "Suc (2 * i + 2)"]
      by (auto simp: STEP_2_def next_or_null_def)
    moreover have "dk_set_check_straight_loop h (f (Suc i)) (f (2 * Suc i + 2)) = Some GPF_circular_list"
      using Suc.hyps(2) Suc.prems by (intro Suc.hyps(1)) auto
    ultimately show ?thesis
      using False f nd by (subst dk_set_check_straight_loop.simps) auto
  qed
qed

lemma dk_set_check_straight_circular:
  assumes "dk_seg h p us m" "dk_seg h m vs m" "vs \<noteq> []"
  shows "dk_set_check_straight h p = Some GPF_circular_list"
proof -
  define f where "f i = (nxt h ^^ i) p" for i
  have in_set: "f i \<in> set us \<union> set vs" for i
  proof (induction i)
    case 0
    then show ?case using assms by (cases us; cases vs) (auto simp: f_def)
  next
    case (Suc i)
    have "m \<in> set vs" using assms(2,3) by (cases vs) auto
    with Suc dk_seg_closed[OF assms(1)] dk_seg_closed[OF assms(2)] show ?case
      by (auto simp: f_def)
  qed
  have f: "f i \<noteq> NULL \<and> (\<exists>nd. h (f i) = Some nd \<and> s_next nd = f (Suc i))" for i
  proof -
    have "f i \<noteq> NULL \<and> h (f i) \<noteq> None"
      using in_set[of i] dk_seg_alloc[OF assms(1)] dk_seg_alloc[OF assms(2)] by blast
    then show ?thesis by (auto simp: f_def nxt_def)
  qed
  have period: "(nxt h ^^ (length vs * c)) m = m" for c
    by (induction c) (simp_all add: funpow_add dk_seg_funpow[OF assms(2)])
  define k where "k = length vs * (length us + 2) - 2"
  have k2: "k + 2 = length vs * (length us + 2)"
    using assms(3) by (cases vs) (auto simp: k_def)
  then have ge: "length us \<le> k"
    using assms(3) by (cases vs) auto
  have at_m: "f (d + length us) = (nxt h ^^ d) m" for d
    by (simp add: f_def funpow_add dk_seg_funpow[OF assms(1)])
  have "f (2 * k + 2) = f ((k - length us) + length vs * (length us + 2) + length us)"
    using ge k2 by (intro arg_cong[of _ _ f]) simp
  also have "\<dots> = (nxt h ^^ (k - length us)) m"
    by (simp only: at_m funpow_add comp_apply period)
  also have "\<dots> = f k"
    using at_m[of "k - length us"] ge by simp
  finally have "dk_set_check_straight_loop h (f 0) (f (2 * 0 + 2)) = Some GPF_circular_list"
    using f by (intro dk_set_check_straight_loop_meets[of f h k]) auto
  moreover have "STEP_2 h p = Some (f 2)"
    using f[of 0] f[of 1] by (auto simp: f_def STEP_2_def next_or_null_def numeral_2_eq_2)
  ultimately show ?thesis by (simp add: dk_set_check_straight_def f_def numeral_2_eq_2)
qed

definition node_at :: "addr list \<Rightarrow> nat \<Rightarrow> addr" where
  "node_at as i = (if i < length as then as ! i else NULL)"

lemma dk_seg_node_at:
  "dk_seg h p as NULL \<Longrightarrow> i < length as \<Longrightarrow>
     as ! i \<noteq> NULL \<and> (\<exists>nd. h (as ! i) = Some nd \<and> s_next nd = node_at as (Suc i))"
proof (induction as arbitrary: p i)
  case Nil
  then show ?case by simp
next
  case (Cons a as)
  then obtain nd where a: "h a = Some nd" "a \<noteq> NULL" and seg: "dk_seg h (s_next nd) as NULL"
    by (auto split: option.splits)
  show ?case
  proof (cases i)
    case 0
    with a seg show ?thesis by (cases as) (auto simp: node_at_def)
  next
    case (Suc j)
    with Cons.IH[OF seg, of j] Cons.prems(2) show ?thesis by (auto simp: node_at_def)
  qed
qed

lemma STEP_2_node_at:
  assumes "dk_seg h p as NULL"
  shows "STEP_2 h (node_at as j) = Some (node_at as (j + 2))"
proof -
  have "next_or_null h (node_at as i) = Some (node_at as (Suc i))" for i
    using dk_seg_node_at[OF assms, of i] by (auto simp: next_or_null_def node_at_def)
  then show ?thesis by (simp add: STEP_2_def)
qed

lemma dk_set_check_straight_loop_straight:
  assumes "dk_seg h p as NULL"
  shows "dk_set_check_straight_loop h (node_at as i) (node_at as (2 * i + 2)) = Some Straight"
proof (induction "length as - i" arbitrary: i)
  case 0
  then show ?case by (subst dk_set_check_straight_loop.simps) (simp add: node_at_def)
next
  case (Suc d)
  then have i: "i < length as" by simp
  have "node_at as i \<noteq> node_at as (2 * i + 2)"
    using i dk_seg_distinct[OF assms] dk_seg_node_at[OF assms i]
    by (auto simp: node_at_def nth_eq_iff_index_eq)
  moreover obtain nd where "h (as ! i) = Some nd" "s_next nd = node_at as (Suc i)" "as ! i \<noteq> NULL"
    using dk_seg_node_at[OF assms i] by blast
  moreover have "dk_set_check_straight_loop h (node_at as (Suc i)) (node_at as (2 * Suc i + 2)) = Some Straight"
    using Suc by (intro Suc.hyps(1)) simp
  ultimately show ?case
    using i STEP_2_node_at[OF assms, of "2 * i + 2"]
    by (subst dk_set_check_straight_loop.simps) (simp add: node_at_def del: One_nat_def)
qed

lemma dk_set_check_straight_straight:
  assumes "dk_seg h p as NULL"
  shows "dk_set_check_straight h p = Some Straight"
proof -
  have "p = node_at as 0" using assms by (cases as) (auto simp: node_at_def)
  with dk_set_check_straight_loop_straight[OF assms, of 0] STEP_2_node_at[OF assms, of 0]
  show ?thesis by (simp add: dk_set_check_straight_def)
qed

subsection \<open>Positions, subsets, keyword lists and copies\<close>

lemma dk_set_position_loop_ok:
  "dk_set_at h p as xs \<Longrightarrow>
     dk_set_position_loop h p x n =
       Some (if x \<in> set xs then n + int (length (takeWhile (\<lambda>y. y \<noteq> x) xs)) else - 1)"
proof (induction as arbitrary: p xs n)
  case Nil
  then show ?case by (simp add: dk_set_position_loop.simps)
next
  case (Cons a as)
  then obtain nd ys where a: "p = a" "a \<noteq> NULL" "h a = Some nd" "xs = s_data nd # ys"
    and rest: "dk_set_at h (s_next nd) as ys" by (auto simp: dk_set_at_Cons)
  then show ?case
    by (subst dk_set_position_loop.simps) (auto simp: Cons.IH[OF rest])
qed

lemma dk_set_position_ok:
  "dk_set_at h p as xs \<Longrightarrow>
     dk_set_position h p x =
       Some (if x \<in> set xs then int (length (takeWhile (\<lambda>y. y \<noteq> x) xs)) else - 1)"
  by (simp add: dk_set_position_def dk_set_position_loop_ok)

lemma dk_set_nth_loop_ok:
  "dk_set_at h p as xs \<Longrightarrow> i \<le> n \<Longrightarrow>
     dk_set_nth_loop h p i n = Some (node_at as (nat (n - i)))"
proof (induction as arbitrary: p xs i)
  case Nil
  then show ?case by (subst dk_set_nth_loop.simps) (auto simp: node_at_def)
next
  case (Cons a as)
  then obtain nd ys where a: "p = a" "a \<noteq> NULL" "h a = Some nd" "xs = s_data nd # ys"
    and rest: "dk_set_at h (s_next nd) as ys" by (auto simp: dk_set_at_Cons)
  show ?case
  proof (cases "i < n")
    case True
    then obtain k where "nat (n - i) = Suc k" "nat (n - (i + 1)) = k"
      by (metis Suc_nat_eq_nat_zadd1 diff_add_cancel diff_diff_eq diff_ge_0_iff_ge zless_imp_add1_zle add.commute)
    with True Cons.IH[OF rest, of "i + 1"] a show ?thesis
      by (subst dk_set_nth_loop.simps) (auto simp: node_at_def)
  next
    case False
    with Cons.prems a show ?thesis by (subst dk_set_nth_loop.simps) (auto simp: node_at_def)
  qed
qed

lemma dk_set_nth_ok:
  assumes "dk_set_at h p as xs" "0 \<le> n"
  shows "dk_set_nth h p n = Some (if nat n < length xs then Some (xs ! nat n) else None)"
proof (cases "nat n < length as")
  case True
  with assms dk_seg_node_at[of h p as "nat n"] show ?thesis
    by (auto simp: dk_set_nth_def dk_set_nth_loop_ok[OF assms(1), of 0] node_at_def dk_set_at_def dk_elts_def)
next
  case False
  with assms show ?thesis
    by (simp add: dk_set_nth_def dk_set_nth_loop_ok[OF assms(1), of 0] node_at_def dk_set_at_length[OF assms(1)])
qed

lemma dk_set_is_subset_ok:
  "dk_set_at h q bs ys \<Longrightarrow> dk_set_at h p as xs \<Longrightarrow>
     dk_set_is_subset h q p = Some (if set xs \<subseteq> set ys then 1 else 0)"
proof (induction as arbitrary: p xs)
  case Nil
  then show ?case by (simp add: dk_set_is_subset.simps)
next
  case (Cons a as)
  then obtain nd zs where a: "p = a" "a \<noteq> NULL" "h a = Some nd" "xs = s_data nd # zs"
    and rest: "dk_set_at h (s_next nd) as zs" by (auto simp: dk_set_at_Cons)
  obtain m where m: "dk_set_member h q (s_data nd) = Some m" "m = NULL \<longleftrightarrow> s_data nd \<notin> set ys"
    using dk_set_member_ok[OF Cons.prems(1)] by blast
  show ?case
    using a m Cons.IH[OF Cons.prems(1) rest]
    by (subst dk_set_is_subset.simps) auto
qed

fun kw_list :: "(string \<times> kw_item) list \<Rightarrow> kw_item list" where
  "kw_list [] = []"
| "kw_list ((k, v) # kvs) = KwStr k # v # kw_list kvs"

lemma dk_set_get_keyword_ok:
  "dk_set_at h p as (kw_list kvs) \<Longrightarrow>
     dk_set_get_keyword h p k d = Some (case map_of kvs k of None \<Rightarrow> d | Some v \<Rightarrow> v)"
proof (induction kvs arbitrary: p as)
  case Nil
  then have "p = NULL" by (cases as) (auto simp: dk_set_at_Cons)
  then show ?case by (simp add: dk_set_get_keyword.simps)
next
  case (Cons kv kvs)
  obtain k1 v where kv: "kv = (k1, v)" by fastforce
  with Cons.prems have len: "length as = Suc (Suc (length (kw_list kvs)))"
    using dk_set_at_length[OF Cons.prems] by simp
  then obtain a b cs where as: "as = a # b # cs" by (auto simp: length_Suc_conv)
  with Cons.prems kv obtain n1 n2 where n: "p = a" "a \<noteq> NULL" "h a = Some n1" "s_data n1 = KwStr k1"
     "s_next n1 = b" "h b = Some n2" "s_data n2 = v" "dk_set_at h (s_next n2) cs (kw_list kvs)"
    by (auto simp: dk_set_at_Cons)
  then show ?case
    using kv Cons.IH[OF n(8)] by (subst dk_set_get_keyword.simps) auto
qed

lemma dk_set_copy_loop_ok:
  assumes "dk_seg h r bs NULL" "dk_set_at h s as ys" "distinct (bs @ news)" "set bs \<inter> set as = {}"
    and "prev = (if bs = [] then None else Some (last bs))" "length news = length as"
    and "\<forall>n \<in> set news. n \<noteq> NULL \<and> h n = None"
  shows "\<exists>h' r'. dk_set_copy_loop news h r prev s = Some (h', r') \<and>
           dk_set_at h' r' (bs @ news) (dk_elts h bs @ ys) \<and>
           (\<forall>a. a \<notin> set bs \<union> set news \<longrightarrow> h' a = h a)"
  using assms
proof (induction as arbitrary: h r bs s ys news prev)
  case Nil
  then show ?case by (subst dk_set_copy_loop.simps) (auto simp: dk_set_at_def)
next
  case (Cons a as)
  then obtain nd zs where a: "s = a" "a \<noteq> NULL" "h a = Some nd" "ys = s_data nd # zs"
    and rest: "dk_set_at h (s_next nd) as zs" by (auto simp: dk_set_at_Cons)
  obtain n news' where news: "news = n # news'" using Cons.prems(6) by (cases news) auto
  from store_through_seg[OF Cons.prems(1) _ Cons.prems(5), of n] Cons.prems(3)
  obtain h1 r1 where st: "store_through h r prev n = Some (h1, r1)"
    and h1: "dk_seg h1 r1 bs n" "dk_elts h1 bs = dk_elts h bs"
      "\<forall>b. b \<notin> set bs \<longrightarrow> h1 b = h b" "dom h1 = dom h" by auto
  define h2 where "h2 = h1(n \<mapsto> \<lparr>s_data = s_data nd, s_next = NULL\<rparr>)"
  have n: "n \<notin> set bs" "n \<noteq> NULL" "h n = None"
    using Cons.prems(3,7) news by auto
  then have "n \<notin> set as" using rest by (auto simp: dk_set_at_def dest: dk_seg_alloc)
  have "dk_seg h2 r1 (bs @ [n]) NULL" using h1(1) n by (simp add: h2_def)
  moreover have "dk_set_at h2 (s_next nd) as zs"
    using rest h1(3) \<open>n \<notin> set as\<close> Cons.prems(4)
    by (subst dk_set_at_cong[of as h2 h]) (auto simp: h2_def)
  moreover have "\<forall>m \<in> set news'. m \<noteq> NULL \<and> h2 m = None"
    using Cons.prems(3,7) news h1(3) by (auto simp: h2_def)
  ultimately have "\<exists>h' r'. dk_set_copy_loop news' h2 r1 (Some n) (s_next nd) = Some (h', r') \<and>
      dk_set_at h' r' ((bs @ [n]) @ news') (dk_elts h2 (bs @ [n]) @ zs) \<and>
      (\<forall>b. b \<notin> set (bs @ [n]) \<union> set news' \<longrightarrow> h' b = h2 b)"
    using Cons.prems news n \<open>n \<notin> set as\<close> by (intro Cons.IH) auto
  moreover have "dk_elts h2 (bs @ [n]) = dk_elts h bs @ [s_data nd]"
    using h1(2) n by (simp add: h2_def)
  ultimately obtain h' r' where "dk_set_copy_loop news' h2 r1 (Some n) (s_next nd) = Some (h', r')"
      "dk_set_at h' r' (bs @ news) (dk_elts h bs @ ys)"
      "\<forall>b. b \<notin> set bs \<union> set news \<longrightarrow> h' b = h b"
    using news a h1(3) by (auto simp: h2_def)
  then show ?case
    using a news st by (subst dk_set_copy_loop.simps) (auto simp: h2_def)
qed

lemma dk_set_copy_spec:
  assumes "dk_set_at h s as xs" "distinct news" "length news = length as"
    and "\<forall>n \<in> set news. n \<noteq> NULL \<and> h n = None"
  shows "\<exists>h' r. dk_set_copy news h s = Some (h', r) \<and> dk_set_at h' r news xs \<and>
           dk_set_at h' s as xs \<and> (\<forall>a. a \<notin> set news \<longrightarrow> h' a = h a)"
proof -
  obtain h' r where r: "dk_set_copy news h s = Some (h', r)" "dk_set_at h' r news xs"
      "\<forall>a. a \<notin> set news \<longrightarrow> h' a = h a"
    using dk_set_copy_loop_ok[of h NULL "[]" s as xs news None] assms by (auto simp: dk_set_copy_def)
  moreover have "dk_set_at h' s as xs"
    using assms(1,4) r(3)
    by (subst dk_set_at_cong[of as h' h]) (auto simp: dk_set_at_def dest: dk_seg_alloc)
  ultimately show ?thesis by blast
qed

lemma dk_set_delete_nth_loop_ok:
  assumes "dk_seg h root bs node" "dk_set_at h node as ys" "distinct (bs @ as)"
    and "prev = (if bs = [] then None else Some (last bs))" "0 \<le> idx" "nat idx < length ys"
  shows "\<exists>h' root' as'. dk_set_delete_nth_loop h root idx node prev =
             Some (h', root', Some (ys ! nat idx)) \<and>
           dk_set_at h' root' (bs @ as') (dk_elts h bs @ take (nat idx) ys @ drop (Suc (nat idx)) ys)"
  using assms
proof (induction as arbitrary: bs node ys prev idx)
  case Nil
  then show ?case by simp
next
  case (Cons a as)
  then obtain nd zs where a: "node = a" "a \<noteq> NULL" "h a = Some nd" "ys = s_data nd # zs"
    and rest: "dk_set_at h (s_next nd) as zs" by (auto simp: dk_set_at_Cons)
  show ?case
  proof (cases "idx = 0")
    case True
    from store_through_seg[OF Cons.prems(1) _ Cons.prems(4), of "s_next nd"] Cons.prems(3)
    obtain h1 root1 where st: "store_through h root prev (s_next nd) = Some (h1, root1)"
      and h1: "dk_seg h1 root1 bs (s_next nd)" "dk_elts h1 bs = dk_elts h bs"
        "\<forall>b. b \<notin> set bs \<longrightarrow> h1 b = h b" by auto
    have "a \<notin> set bs" "a \<notin> set as" "set as \<inter> set bs = {}" using Cons.prems(3) by auto
    then have "dk_set_at h1 (s_next nd) as zs"
      using rest h1(3) by (subst dk_set_at_cong[of as h1 h]) auto
    then have "dk_set_at (h1(a := None)) root1 (bs @ as) (dk_elts h bs @ zs)"
      using h1 \<open>a \<notin> set bs\<close> \<open>a \<notin> set as\<close> by (auto simp: dk_set_at_def)
    with a True st show ?thesis by (subst dk_set_delete_nth_loop.simps) auto
  next
    case False
    then obtain k where k: "nat idx = Suc k" "nat (idx - 1) = k" "0 \<le> idx - 1"
      using Cons.prems(5) by (cases "nat idx") auto
    have "\<exists>h' root' as'. dk_set_delete_nth_loop h root (idx - 1) (s_next nd) (Some a) =
             Some (h', root', Some (zs ! nat (idx - 1))) \<and>
           dk_set_at h' root' ((bs @ [a]) @ as')
             (dk_elts h (bs @ [a]) @ take (nat (idx - 1)) zs @ drop (Suc (nat (idx - 1))) zs)"
      using Cons.prems a rest k by (intro Cons.IH) auto
    then show ?thesis
      using a False k by (subst dk_set_delete_nth_loop.simps) (fastforce split: option.splits)
  qed
qed

lemma dk_set_delete_nth_ok:
  assumes "dk_set_at h p as xs" "0 \<le> idx" "nat idx < length xs"
  shows "\<exists>h' p' as'. dk_set_delete_nth h p idx = Some (h', p', Some (xs ! nat idx)) \<and>
           dk_set_at h' p' as' (take (nat idx) xs @ drop (Suc (nat idx)) xs)"
  using dk_set_delete_nth_loop_ok[of h p "[]" p as xs None idx] assms dk_set_at_distinct[OF assms(1)]
  by (simp add: dk_set_delete_nth_def)

subsection \<open>Properties\<close>

text \<open>
  C1. On a well-formed list \<^verbatim>\<open>dk_set_delete\<close> returns, unlinks exactly the first cell that
  holds the item (the result is 1 if there was one and 0 otherwise), frees that cell and
  leaves every cell outside the list alone.
\<close>

theorem dk_set_delete_correct:
  assumes "dk_set_at h p as xs"
  shows "\<exists>h' p' as'. dk_set_delete h p x = Some (h', p', if x \<in> set xs then 1 else 0) \<and>
           dk_set_at h' p' as' (remove1 x xs) \<and> set as' \<subseteq> set as \<and>
           (\<forall>a. a \<notin> set as \<longrightarrow> h' a = h a) \<and> dom h' = dom h - (set as - set as')"
  using assms by (rule dk_set_delete_spec)

theorem dk_set_delete_witness:
  "\<exists>h' p' as'. dk_set_delete [1 \<mapsto> \<lparr>s_data = (7::int), s_next = 2\<rparr>, 2 \<mapsto> \<lparr>s_data = 9, s_next = 0\<rparr>] 1 9 =
       Some (h', p', 1) \<and> dk_set_at h' p' as' [7]"
  using dk_set_delete_correct
    [of "[1 \<mapsto> \<lparr>s_data = (7::int), s_next = 2\<rparr>, 2 \<mapsto> \<lparr>s_data = 9, s_next = 0\<rparr>]" 1 "[1, 2]" "[7, 9]" 9]
  by (auto simp: dk_set_at_def)

text \<open>
  C2. \<^verbatim>\<open>dk_set_nreverse\<close> reverses a well-formed list in place: it returns, the returned
  pointer denotes the reversed list over the same cells, nothing is allocated or freed and
  nothing outside the list changes. The pointer that was passed in now denotes the one-cell
  list of the former first element.
\<close>

theorem dk_set_nreverse_correct:
  assumes "dk_set_at h p as xs"
  shows "\<exists>h' p'. dk_set_nreverse h p = Some (h', p') \<and> dk_set_at h' p' (rev as) (rev xs) \<and>
           (\<forall>a. a \<notin> set as \<longrightarrow> h' a = h a) \<and> dom h' = dom h \<and>
           (as \<noteq> [] \<longrightarrow> dk_set_at h' p [hd as] [hd xs])"
proof -
  obtain h' p' where r: "dk_set_nreverse h p = Some (h', p')" "dk_set_at h' p' (rev as) (rev xs)"
    "\<forall>a. a \<notin> set as \<longrightarrow> h' a = h a" "dom h' = dom h"
    using dk_set_nreverse_spec[OF assms] by blast
  moreover have "as \<noteq> [] \<longrightarrow> dk_set_at h' p [hd as] [hd xs]"
    using dk_set_nreverse_old_pointer[of h p "hd as" "tl as" "hd xs" "tl xs" h' p'] assms r(1)
      dk_set_at_length[OF assms] by (cases as; cases xs) auto
  ultimately show ?thesis by blast
qed

theorem dk_set_nreverse_witness:
  "\<exists>h' p'. dk_set_nreverse [1 \<mapsto> \<lparr>s_data = (7::int), s_next = 2\<rparr>, 2 \<mapsto> \<lparr>s_data = 9, s_next = 0\<rparr>] 1 =
       Some (h', p') \<and> dk_set_at h' p' [2, 1] [9, 7] \<and> dk_set_at h' 1 [1] [7]"
  using dk_set_nreverse_correct
    [of "[1 \<mapsto> \<lparr>s_data = (7::int), s_next = 2\<rparr>, 2 \<mapsto> \<lparr>s_data = 9, s_next = 0\<rparr>]" 1 "[1, 2]" "[7, 9]"]
  by (auto simp: dk_set_at_def)

text \<open>
  C3. \<^verbatim>\<open>dk_set_check_straight\<close> decides circularity: it returns normally on every list that
  ends in null, and on every list that runs into a cycle it returns too, with the circular
  list report.
\<close>

theorem dk_set_check_straight_correct:
  "(dk_seg h p as NULL \<longrightarrow> dk_set_check_straight h p = Some Straight) \<and>
   (dk_seg h p us m \<and> dk_seg h m vs m \<and> vs \<noteq> [] \<longrightarrow>
      dk_set_check_straight h p = Some GPF_circular_list)"
  using dk_set_check_straight_straight dk_set_check_straight_circular by blast

theorem dk_set_check_straight_witness:
  "dk_set_check_straight [1 \<mapsto> \<lparr>s_data = (), s_next = 2\<rparr>, 2 \<mapsto> \<lparr>s_data = (), s_next = 3\<rparr>,
     3 \<mapsto> \<lparr>s_data = (), s_next = 2\<rparr>] 1 = Some GPF_circular_list \<and>
   dk_set_check_straight [1 \<mapsto> \<lparr>s_data = (), s_next = 2\<rparr>, 2 \<mapsto> \<lparr>s_data = (), s_next = 0\<rparr>] 1 = Some Straight"
  using dk_set_check_straight_correct
    [of "[1 \<mapsto> \<lparr>s_data = (), s_next = 2\<rparr>, 2 \<mapsto> \<lparr>s_data = (), s_next = 3\<rparr>,
          3 \<mapsto> \<lparr>s_data = (), s_next = 2\<rparr>]" 1 "[]" "[1]" 2 "[2, 3]"]
    dk_set_check_straight_correct
    [of "[1 \<mapsto> \<lparr>s_data = (), s_next = 2\<rparr>, 2 \<mapsto> \<lparr>s_data = (), s_next = 0\<rparr>]" 1 "[1, 2]" "[]" 0 "[]"]
  by simp

end
