(* ===== verification/Interfaces.thy ===== *)
theory Interfaces
  imports Prelude
begin

text \<open>
  The contracts between components, as locales: what a dictionary keyed by pointers promises
  its clients (provided by the hash tables of \<^verbatim>\<open>Dkhash.c\<close>) and what a first-in first-out
  queue promises (provided by the baskets and the segmented ring buffers of \<^verbatim>\<open>Dkbasket.c\<close>).
\<close>

subsection \<open>Dictionaries\<close>

text \<open>\<open>fits\<close> says that the size counter of the implementation has not wrapped around.\<close>

locale dictionary =
  fixes lookup :: "'m \<Rightarrow> 'k \<Rightarrow> 'v option"
    and update :: "'k \<Rightarrow> 'v \<Rightarrow> 'm \<Rightarrow> 'm"
    and delete :: "'k \<Rightarrow> 'm \<Rightarrow> 'm"
    and clear :: "'m \<Rightarrow> 'm"
    and invar :: "'m \<Rightarrow> bool"
    and fits :: "'m \<Rightarrow> bool"
  assumes lookup_update: "invar m \<Longrightarrow> lookup (update k v m) = (lookup m)(k \<mapsto> v)"
    and lookup_delete: "invar m \<Longrightarrow> lookup (delete k m) = (lookup m)(k := None)"
    and lookup_clear: "invar m \<Longrightarrow> fits m \<Longrightarrow> lookup (clear m) = Map.empty"
    and invar_update: "invar m \<Longrightarrow> invar (update k v m)"
    and invar_delete: "invar m \<Longrightarrow> invar (delete k m)"
    and invar_clear: "invar m \<Longrightarrow> invar (clear m)"
begin

lemmas specs = lookup_update lookup_delete lookup_clear invar_update invar_delete invar_clear

fun update_all :: "('k \<times> 'v) list \<Rightarrow> 'm \<Rightarrow> 'm" where
  "update_all [] m = m"
| "update_all ((k, v) # kvs) m = update_all kvs (update k v m)"

lemma invar_update_all: "invar m \<Longrightarrow> invar (update_all kvs m)"
  by (induction kvs arbitrary: m) (auto simp: specs)

lemma lookup_update_all: "invar m \<Longrightarrow> lookup (update_all kvs m) = lookup m ++ map_of (rev kvs)"
  by (induction kvs arbitrary: m) (auto simp: specs map_add_def fun_eq_iff split: option.splits)

lemma lookup_after_clear: "invar m \<Longrightarrow> fits m \<Longrightarrow> lookup (update_all kvs (clear m)) = map_of (rev kvs)"
  by (simp add: lookup_update_all specs)

lemma delete_update_other:
  "invar m \<Longrightarrow> k \<noteq> k' \<Longrightarrow> lookup (delete k (update k' v m)) k' = Some v"
  by (simp add: specs)

end

subsection \<open>Queues\<close>

text \<open>
  \<open>enq n x q\<close> appends \<open>x\<close>; \<open>n\<close> is what the allocator supplies for the new entry and
  \<open>fresh n q\<close> says that it may be used; \<open>token x\<close> says that \<open>x\<close> may be queued (a null pointer may
  not, since it stands for an empty queue). \<open>deq q\<close> is the oldest entry and the queue without it,
  or \<open>None\<close> for a null result.
\<close>

locale fifo_queue =
  fixes enq :: "'n \<Rightarrow> 'a \<Rightarrow> 'q \<Rightarrow> 'q"
    and deq :: "'q \<Rightarrow> ('a \<times> 'q) option"
    and contents :: "'q \<Rightarrow> 'a list"
    and invar :: "'q \<Rightarrow> bool"
    and fresh :: "'n \<Rightarrow> 'q \<Rightarrow> bool"
    and token :: "'a \<Rightarrow> bool"
  assumes contents_enq: "invar q \<Longrightarrow> fresh n q \<Longrightarrow> token x \<Longrightarrow> contents (enq n x q) = contents q @ [x]"
    and invar_enq: "invar q \<Longrightarrow> fresh n q \<Longrightarrow> token x \<Longrightarrow> invar (enq n x q)"
    and deq_None: "invar q \<Longrightarrow> deq q = None \<longleftrightarrow> contents q = []"
    and deq_Some: "invar q \<Longrightarrow> deq q = Some (x, q') \<Longrightarrow> contents q = x # contents q'"
    and invar_deq: "invar q \<Longrightarrow> deq q = Some (x, q') \<Longrightarrow> invar q'"
begin

lemma deq_enq:
  assumes "invar q" "fresh n q" "token x" "contents q = []"
  shows "\<exists>q'. deq (enq n x q) = Some (x, q') \<and> contents q' = []"
proof -
  have c: "contents (enq n x q) = [x]" and i: "invar (enq n x q)"
    using assms by (simp_all add: contents_enq invar_enq)
  then obtain y q' where y: "deq (enq n x q) = Some (y, q')"
    using deq_None[OF i] by (cases "deq (enq n x q)") auto
  with deq_Some[OF i y] c show ?thesis by simp
qed

text \<open>Taking entries until the queue is empty returns them in order.\<close>

fun drain :: "nat \<Rightarrow> 'q \<Rightarrow> 'a list" where
  "drain 0 q = []"
| "drain (Suc k) q = (case deq q of None \<Rightarrow> [] | Some (x, q') \<Rightarrow> x # drain k q')"

lemma drain_contents: "invar q \<Longrightarrow> length (contents q) \<le> k \<Longrightarrow> drain k q = contents q"
proof (induction k arbitrary: q)
  case 0
  then show ?case by simp
next
  case (Suc k)
  show ?case
  proof (cases "deq q")
    case None
    with Suc.prems deq_None[of q] show ?thesis by simp
  next
    case (Some r)
    obtain x q' where r: "r = (x, q')" by fastforce
    have "contents q = x # contents q'" "invar q'"
      using Suc.prems Some r by (auto intro: deq_Some invar_deq)
    then show ?thesis using Suc Some r by simp
  qed
qed

end

end
