(* ===== verification/Dk_Hash.thy ===== *)
theory Dk_Hash
  imports Interfaces "HOL-Library.Multiset"
begin

text \<open>
  The hash tables of \<^verbatim>\<open>libsrc/Dk/Dkhash.c\<close>: an array of \<^verbatim>\<open>hash_elt_t\<close> whose first entry is
  stored inline and whose overflow entries are chained.

  An entry whose \<^verbatim>\<open>next\<close> is the marker \<^verbatim>\<open>HASH_EMPTY\<close> is the constructor \<open>HASH_EMPTY\<close>; otherwise
  the inline key and data and the chain of \<^verbatim>\<open>next\<close> cells, which no other structure points into,
  are the arguments of \<open>HElt\<close>. Keys and data are pointers; \<^verbatim>\<open>ht_count\<close> is a 32 bit counter.
\<close>

datatype hash_elt =
    HASH_EMPTY
  | HElt (he_key: addr) (he_data: addr) (he_next: "(addr \<times> addr) list")

record dk_hash =
  ht_elements :: "hash_elt list"
  ht_count :: "32 word"
  ht_actual_size :: nat
  ht_rehash_threshold :: nat

definition HASH_INX :: "dk_hash \<Rightarrow> addr \<Rightarrow> nat" where
  "HASH_INX ht key = key mod ht_actual_size ht"

subsection \<open>Table sizes\<close>

definition primetable :: "int list" where
  "primetable = [11, 13, 17, 19, 23, 29, 31, 37, 41, 47, 53, 59,
     67, 71, 79, 83, 89, 97, 103, 109, 127, 137, 149, 157,
     167, 179, 191, 211, 223, 239, 251, 269, 283, 307, 331, 349,
     367, 389, 409, 431, 457, 487, 521, 557, 587, 617, 653, 691,
     727, 769, 809, 853, 907, 953, 1009, 1061, 1117, 1181, 1249, 1319,
     1399, 1471, 1549, 1627, 1709, 1801, 1901, 1997, 2099, 2207, 2333, 2459,
     2591, 2729, 2879, 3023, 3181, 3343, 3511, 3691, 3877, 4073, 4283, 4507,
     4733, 4973, 5227, 5501, 5779, 6073, 6379, 6701, 7039, 7393, 7789, 8179,
     8597, 9029, 9491, 9967, 10477, 11003, 11579, 12161, 12781, 13421, 14107, 14813,
     15559, 16339, 17159, 18041, 18947, 19913, 20921, 21977, 23081, 24239, 25453, 26729,
     28069, 29473, 30949, 32497, 34123, 35831, 37633, 39521, 41507, 43591, 45779, 48073,
     50497, 53047, 55711, 58511, 61441, 64553, 67783, 71191, 74759, 78497, 82457, 86587,
     90917, 95467, 100267, 105319, 110587, 116131, 121949, 128047, 134471, 141199, 148279, 155693,
     163481, 171659, 180247, 189271, 198761, 208721, 219169, 230137, 241651, 253741, 266447, 279779,
     293773, 308467, 323899, 340103, 357109, 374977, 393727, 413417, 434107, 455827, 478627, 502591,
     527729, 554117, 581843, 610957, 641513, 673609, 707293, 742663, 779797, 818813, 859783, 902777,
     947917, 995327, 1045111, 1097377, 1152287, 1209931, 1270429, 1333963, 1400669, 1470709, 1544311, 1621537,
     1702627, 1787783, 1877177, 1971049]"

definition ht_max_sz :: nat where "ht_max_sz = 1971049"

text \<open>\<^verbatim>\<open>last\<close> and \<^verbatim>\<open>base\<close> are pointers into the table, here the indices; \<^verbatim>\<open>last\<close> can end one below the first entry.\<close>

function hash_nextprime_loop :: "int \<Rightarrow> int \<Rightarrow> int \<Rightarrow> int" where
  "hash_nextprime_loop n base lst =
     (if lst \<ge> base then
        let p = base + (lst - base) div 2; res = n - primetable ! nat p in
        if res = 0 then n
        else if res < 0 then hash_nextprime_loop n base (p - 1)
        else hash_nextprime_loop n (p + 1) lst
      else primetable ! nat (lst + 1))"
  by pat_completeness auto
termination
  by (relation "measure (\<lambda>(n, base, lst). nat (lst - base + 1))") (auto simp: Let_def)

declare hash_nextprime_loop.simps [simp del]

definition hash_nextprime :: "nat \<Rightarrow> nat" where
  "hash_nextprime n =
     (if n > ht_max_sz then ht_max_sz
      else nat (hash_nextprime_loop (int n) 0 (int (length primetable) - 1)))"

definition hash_table_allocate :: "nat \<Rightarrow> dk_hash" where
  "hash_table_allocate sz =
     (let sz = hash_nextprime sz in
      \<lparr>ht_elements = replicate sz HASH_EMPTY, ht_count = 0, ht_actual_size = sz,
       ht_rehash_threshold = 10\<rparr>)"

definition hash_table_init :: "int \<Rightarrow> dk_hash" where
  "hash_table_init sz =
     (let sz = hash_nextprime (unat (word_of_int sz :: 32 word)) in
      \<lparr>ht_elements = replicate sz HASH_EMPTY, ht_count = 0, ht_actual_size = sz,
       ht_rehash_threshold = 10\<rparr>)"

subsection \<open>Lookup, insertion, removal\<close>

text \<open>The loops over the overflow chain.\<close>

fun chain_get :: "addr \<Rightarrow> (addr \<times> addr) list \<Rightarrow> addr option" where
  "chain_get key [] = None"
| "chain_get key ((k, d) # rest) = (if k = key then Some d else chain_get key rest)"

fun chain_set :: "addr \<Rightarrow> addr \<Rightarrow> (addr \<times> addr) list \<Rightarrow> (addr \<times> addr) list option" where
  "chain_set key data [] = None"
| "chain_set key data ((k, d) # rest) =
     (if k = key then Some ((k, data) # rest)
      else case chain_set key data rest of None \<Rightarrow> None | Some rest' \<Rightarrow> Some ((k, d) # rest'))"

fun chain_rem :: "addr \<Rightarrow> (addr \<times> addr) list \<Rightarrow> (addr \<times> addr) list option" where
  "chain_rem key [] = None"
| "chain_rem key ((k, d) # rest) =
     (if k = key then Some rest
      else case chain_rem key rest of None \<Rightarrow> None | Some rest' \<Rightarrow> Some ((k, d) # rest'))"

definition gethash :: "addr \<Rightarrow> dk_hash \<Rightarrow> addr" where
  "gethash key ht =
     (case ht_elements ht ! HASH_INX ht key of
        HASH_EMPTY \<Rightarrow> NULL
      | HElt k d nx \<Rightarrow>
          if k = key then d
          else (case chain_get key nx of None \<Rightarrow> NULL | Some d' \<Rightarrow> d'))"

text \<open>\<^verbatim>\<open>CHECK_REHASH\<close>: the product is a 32 bit product, the division an unsigned one.\<close>

definition CHECK_REHASH :: "dk_hash \<Rightarrow> bool" where
  "CHECK_REHASH ht \<longleftrightarrow> unat (ht_count ht * 5) div ht_actual_size ht > 4"

text \<open>
  The body of \<^verbatim>\<open>sethash\<close> up to \<^verbatim>\<open>CHECK_REHASH\<close>; the flag says whether the branch taken
  is one that runs the check.
\<close>

definition sethash_body :: "addr \<Rightarrow> dk_hash \<Rightarrow> addr \<Rightarrow> dk_hash \<times> bool" where
  "sethash_body key ht data =
     (let inx = HASH_INX ht key in
      case ht_elements ht ! inx of
        HASH_EMPTY \<Rightarrow>
          (ht\<lparr>ht_elements := (ht_elements ht)[inx := HElt key data []],
              ht_count := ht_count ht + 1\<rparr>, True)
      | HElt k d nx \<Rightarrow>
          if k = key
          then (ht\<lparr>ht_elements := (ht_elements ht)[inx := HElt k data nx]\<rparr>, False)
          else (case chain_set key data nx of
                  Some nx' \<Rightarrow> (ht\<lparr>ht_elements := (ht_elements ht)[inx := HElt k d nx']\<rparr>, False)
                | None \<Rightarrow>
                    (ht\<lparr>ht_elements := (ht_elements ht)[inx := HElt k d ((key, data) # nx)],
                        ht_count := ht_count ht + 1\<rparr>, True)))"

text \<open>
  \<^verbatim>\<open>dk_rehash\<close>: the inline entry of a bucket goes to the new table through \<^verbatim>\<open>sethash\<close> (the
  parameter \<open>sh\<close>, since \<^verbatim>\<open>sethash\<close> may itself rehash), the overflow cells are relinked.
\<close>

fun rehash_chain :: "(addr \<times> addr) list \<Rightarrow> dk_hash \<Rightarrow> dk_hash" where
  "rehash_chain [] new_ht = new_ht"
| "rehash_chain ((k, d) # rest) new_ht =
     (let new_inx = HASH_INX new_ht k in
      rehash_chain rest
        (case ht_elements new_ht ! new_inx of
           HASH_EMPTY \<Rightarrow>
             new_ht\<lparr>ht_elements := (ht_elements new_ht)[new_inx := HElt k d []]\<rparr>
         | HElt nk nd nx \<Rightarrow>
             new_ht\<lparr>ht_elements := (ht_elements new_ht)[new_inx := HElt nk nd ((k, d) # nx)]\<rparr>))"

fun rehash_elements ::
  "(addr \<Rightarrow> dk_hash \<Rightarrow> addr \<Rightarrow> dk_hash option) \<Rightarrow> hash_elt list \<Rightarrow> dk_hash \<Rightarrow> dk_hash option" where
  "rehash_elements sh [] new_ht = Some new_ht"
| "rehash_elements sh (HASH_EMPTY # es) new_ht = rehash_elements sh es new_ht"
| "rehash_elements sh (HElt k d nx # es) new_ht =
     (case sh k new_ht d of
        None \<Rightarrow> None
      | Some new_ht' \<Rightarrow> rehash_elements sh es (rehash_chain nx new_ht'))"

definition dk_rehash_with ::
  "(addr \<Rightarrow> dk_hash \<Rightarrow> addr \<Rightarrow> dk_hash option) \<Rightarrow> dk_hash \<Rightarrow> nat \<Rightarrow> dk_hash option" where
  "dk_rehash_with sh ht new_sz =
     (let new_sz = hash_nextprime new_sz in
      if ht_actual_size ht \<ge> ht_max_sz then Some ht
      else if ht_actual_size ht = new_sz then Some ht
      else
        (case rehash_elements sh (ht_elements ht)
                \<lparr>ht_elements = replicate new_sz HASH_EMPTY, ht_count = 0, ht_actual_size = new_sz,
                 ht_rehash_threshold = ht_rehash_threshold ht\<rparr> of
           None \<Rightarrow> None
         | Some new_ht \<Rightarrow> Some (new_ht\<lparr>ht_count := ht_count ht\<rparr>)))"

text \<open>\<open>depth\<close> bounds the nesting of \<^verbatim>\<open>sethash\<close> inside \<^verbatim>\<open>dk_rehash\<close> inside \<^verbatim>\<open>sethash\<close>.\<close>

fun sethash_depth :: "nat \<Rightarrow> addr \<Rightarrow> dk_hash \<Rightarrow> addr \<Rightarrow> dk_hash option" where
  "sethash_depth 0 key ht data = None"
| "sethash_depth (Suc depth) key ht data =
     (case sethash_body key ht data of (ht', check) \<Rightarrow>
        if check \<and> CHECK_REHASH ht'
        then dk_rehash_with (sethash_depth depth) ht' (2 * ht_actual_size ht')
        else Some ht')"

definition sethash :: "addr \<Rightarrow> dk_hash \<Rightarrow> addr \<Rightarrow> dk_hash option" where
  "sethash key ht data = sethash_depth 2 key ht data"

definition dk_rehash :: "dk_hash \<Rightarrow> nat \<Rightarrow> dk_hash option" where
  "dk_rehash ht new_sz = dk_rehash_with (sethash_depth 2) ht new_sz"

definition remhash :: "addr \<Rightarrow> dk_hash \<Rightarrow> dk_hash \<times> int" where
  "remhash key ht =
     (let inx = HASH_INX ht key in
      case ht_elements ht ! inx of
        HASH_EMPTY \<Rightarrow> (ht, 0)
      | HElt k d nx \<Rightarrow>
          if k = key then
            (case nx of
               [] \<Rightarrow> (ht\<lparr>ht_count := ht_count ht - 1,
                         ht_elements := (ht_elements ht)[inx := HASH_EMPTY]\<rparr>, 1)
             | (k2, d2) # nx2 \<Rightarrow>
                 (ht\<lparr>ht_count := ht_count ht - 1,
                     ht_elements := (ht_elements ht)[inx := HElt k2 d2 nx2]\<rparr>, 1))
          else
            (case chain_rem key nx of
               None \<Rightarrow> (ht, 0)
             | Some nx' \<Rightarrow>
                 (ht\<lparr>ht_elements := (ht_elements ht)[inx := HElt k d nx'],
                     ht_count := ht_count ht - 1\<rparr>, 1)))"

definition clrhash :: "dk_hash \<Rightarrow> dk_hash" where
  "clrhash table =
     (if ht_count table = 0 then table
      else table\<lparr>ht_elements := map (\<lambda>_. HASH_EMPTY) (ht_elements table), ht_count := 0\<rparr>)"

definition dk_hash_set_rehash :: "dk_hash \<Rightarrow> nat \<Rightarrow> dk_hash" where
  "dk_hash_set_rehash ht ov_per_bucket = ht\<lparr>ht_rehash_threshold := ov_per_bucket mod 256\<rparr>"

subsection \<open>Iteration\<close>

text \<open>
  \<^verbatim>\<open>HQ_CYCLE\<close> keeps one pair in store and hands the callback the pair stored before; the
  final cycle flushes the last one. The model returns the calls made, in order, for a
  callback that leaves the table unchanged.
\<close>

type_synonym hq = "(addr \<times> addr) option \<times> (addr \<times> addr) list"

definition HQ_CYCLE :: "addr \<Rightarrow> addr \<Rightarrow> hq \<Rightarrow> hq" where
  "HQ_CYCLE k d q =
     (case q of
        (None, calls) \<Rightarrow> (Some (k, d), calls)
      | (Some kd, calls) \<Rightarrow> (Some (k, d), calls @ [kd]))"

fun hq_chain :: "(addr \<times> addr) list \<Rightarrow> hq \<Rightarrow> hq" where
  "hq_chain [] q = q"
| "hq_chain ((k, d) # rest) q = hq_chain rest (HQ_CYCLE k d q)"

fun hq_elements :: "hash_elt list \<Rightarrow> hq \<Rightarrow> hq" where
  "hq_elements [] q = q"
| "hq_elements (HASH_EMPTY # es) q = hq_elements es q"
| "hq_elements (HElt k d nx # es) q = hq_elements es (hq_chain nx (HQ_CYCLE k d q))"

definition maphash :: "dk_hash \<Rightarrow> (addr \<times> addr) list" where
  "maphash table =
     (if ht_count table = 0 then []
      else snd (HQ_CYCLE 0 0 (hq_elements (ht_elements table) (None, []))))"

text \<open>\<^verbatim>\<open>maphash3\<close> passes the environment pointer along with each pair.\<close>

definition maphash3 :: "dk_hash \<Rightarrow> addr \<Rightarrow> (addr \<times> addr \<times> addr) list" where
  "maphash3 table env =
     (if ht_count table = 0 then []
      else map (\<lambda>(k, d). (k, d, env))
             (snd (HQ_CYCLE 0 0 (hq_elements (ht_elements table) (None, [])))))"

definition hash_list_keys :: "dk_hash \<Rightarrow> addr list" where
  "hash_list_keys table =
     (if ht_count table = 0 then []
      else map fst (snd (HQ_CYCLE 0 0 (hq_elements (ht_elements table) (None, [])))))"

fun no_remhash_elements :: "hash_elt list \<Rightarrow> (addr \<times> addr) list" where
  "no_remhash_elements [] = []"
| "no_remhash_elements (HASH_EMPTY # es) = no_remhash_elements es"
| "no_remhash_elements (HElt k d nx # es) = (k, d) # nx @ no_remhash_elements es"

definition maphash_no_remhash :: "dk_hash \<Rightarrow> (addr \<times> addr) list" where
  "maphash_no_remhash table =
     (if ht_count table = 0 then [] else no_remhash_elements (ht_elements table))"

text \<open>The iterator: \<^verbatim>\<open>hit_elt\<close> is the rest of the chain it stands in.\<close>

record dk_hash_iterator =
  hit_inx :: nat
  hit_elt :: "(addr \<times> addr) list"

definition dk_hash_iterator_init :: dk_hash_iterator where
  "dk_hash_iterator_init = \<lparr>hit_inx = 0, hit_elt = []\<rparr>"

function dk_hit_scan ::
  "dk_hash \<Rightarrow> dk_hash_iterator \<Rightarrow> dk_hash_iterator \<times> (addr \<times> addr) option" where
  "dk_hit_scan ht hit =
     (if hit_inx hit \<ge> ht_actual_size ht then (hit, None)
      else case ht_elements ht ! hit_inx hit of
        HASH_EMPTY \<Rightarrow> dk_hit_scan ht (hit\<lparr>hit_inx := hit_inx hit + 1\<rparr>)
      | HElt k d nx \<Rightarrow> (hit\<lparr>hit_inx := hit_inx hit + 1, hit_elt := nx\<rparr>, Some (k, d)))"
  by pat_completeness auto
termination
  by (relation "measure (\<lambda>(ht, hit). ht_actual_size ht - hit_inx hit)") auto

declare dk_hit_scan.simps [simp del]

definition dk_hit_next ::
  "dk_hash \<Rightarrow> dk_hash_iterator \<Rightarrow> dk_hash_iterator \<times> (addr \<times> addr) option" where
  "dk_hit_next ht hit =
     (case hit_elt hit of
        (k, d) # nx \<Rightarrow> (hit\<lparr>hit_elt := nx\<rparr>, Some (k, d))
      | [] \<Rightarrow> if ht_count ht = 0 then (hit, None) else dk_hit_scan ht hit)"

subsection \<open>The next prime\<close>

lemma primetable_sorted: "sorted primetable"
  unfolding primetable_def by (simp only: sorted2_simps) simp

lemma primetable_length: "length primetable = 208"
  by (simp add: primetable_def)

lemma primetable_last: "primetable ! 207 = int ht_max_sz"
  by (simp add: primetable_def ht_max_sz_def)

lemma primetable_mono: "i \<le> j \<Longrightarrow> j < length primetable \<Longrightarrow> primetable ! i \<le> primetable ! j"
  by (rule sorted_nth_mono[OF primetable_sorted])

definition least_in_table :: "int \<Rightarrow> int \<Rightarrow> bool" where
  "least_in_table n r \<longleftrightarrow> r \<in> set primetable \<and> n \<le> r \<and> (\<forall>q \<in> set primetable. n \<le> q \<longrightarrow> r \<le> q)"

lemma hash_nextprime_loop_ok:
  assumes "0 \<le> base" "base \<le> lst + 1" "lst < int (length primetable)" "n \<le> primetable ! 207"
    and "\<forall>i < length primetable. int i < base \<longrightarrow> primetable ! i < n"
    and "\<forall>i < length primetable. lst < int i \<longrightarrow> n < primetable ! i"
  shows "least_in_table n (hash_nextprime_loop n base lst)"
  using assms
proof (induction n base lst rule: hash_nextprime_loop.induct)
  case (1 n base lst)
  show ?case
  proof (cases "lst \<ge> base")
    case True
    define p where "p = base + (lst - base) div 2"
    have p: "base \<le> p" "p \<le> lst" "nat p < length primetable" "0 \<le> p"
      using True "1.prems"(1,3) unfolding p_def by linarith+
    note unf = hash_nextprime_loop.simps[of n base lst, folded p_def, unfolded Let_def]
    consider (eq) "n = primetable ! nat p" | (lt) "n < primetable ! nat p" | (gt) "primetable ! nat p < n"
      by linarith
    then show ?thesis
    proof cases
      case eq
      then show ?thesis using True p unf by (simp add: least_in_table_def)
    next
      case lt
      have "\<forall>i < length primetable. p - 1 < int i \<longrightarrow> n < primetable ! i"
      proof (intro allI impI)
        fix i assume "i < length primetable" "p - 1 < int i"
        then have "primetable ! nat p \<le> primetable ! i" by (intro primetable_mono) auto
        with lt show "n < primetable ! i" by linarith
      qed
      then have "least_in_table n (hash_nextprime_loop n base (p - 1))"
      proof (intro "1.IH"(1)[OF True p_def refl])
        show "n - primetable ! nat p \<noteq> 0" "n - primetable ! nat p < 0" using lt by simp_all
        show "0 \<le> base" "base \<le> p - 1 + 1" "p - 1 < int (length primetable)" "n \<le> primetable ! 207"
          using p "1.prems"(1,3,4) by linarith+
      qed (assumption | rule "1.prems"(5))+
      with lt True unf show ?thesis by simp
    next
      case gt
      have "\<forall>i < length primetable. int i < p + 1 \<longrightarrow> primetable ! i < n"
      proof (intro allI impI)
        fix i assume "i < length primetable" "int i < p + 1"
        then have "primetable ! i \<le> primetable ! nat p" using p by (intro primetable_mono) auto
        with gt show "primetable ! i < n" by linarith
      qed
      then have "least_in_table n (hash_nextprime_loop n (p + 1) lst)"
      proof (intro "1.IH"(2)[OF True p_def refl])
        show "n - primetable ! nat p \<noteq> 0" "\<not> n - primetable ! nat p < 0" using gt by simp_all
        show "0 \<le> p + 1" "p + 1 \<le> lst + 1" "lst < int (length primetable)" "n \<le> primetable ! 207"
          using p "1.prems"(1,3,4) by linarith+
      qed (assumption | rule "1.prems"(6))+
      with gt True unf show ?thesis by simp
    qed
  next
    case False
    then have lb: "lst + 1 = base" using "1.prems" by simp
    have "base < int (length primetable)"
    proof (rule ccontr)
      assume "\<not> ?thesis"
      then have "int 207 < base" by (simp add: primetable_length)
      then have "primetable ! 207 < n"
        using "1.prems"(5)[rule_format, of 207] by (simp only: primetable_length)
      with "1.prems" show False by simp
    qed
    then have i: "nat base < length primetable" "0 \<le> base" using "1.prems"(1) by linarith+
    have "n < primetable ! nat base" using "1.prems"(6)[rule_format, OF i(1)] lb i by simp
    moreover have "\<forall>q \<in> set primetable. n \<le> q \<longrightarrow> primetable ! nat base \<le> q"
    proof (intro ballI impI)
      fix q assume "q \<in> set primetable" "n \<le> q"
      then obtain j where j: "j < length primetable" "q = primetable ! j" by (auto simp: in_set_conv_nth)
      with \<open>n \<le> q\<close> "1.prems"(5)[rule_format, of j] have "base \<le> int j" by linarith
      with j show "primetable ! nat base \<le> q" by (auto intro: primetable_mono)
    qed
    ultimately show ?thesis
      using False lb i by (subst hash_nextprime_loop.simps) (simp add: least_in_table_def)
  qed
qed

lemma hash_nextprime_least:
  assumes "n \<le> ht_max_sz"
  shows "least_in_table (int n) (int (hash_nextprime n))"
proof -
  have l: "least_in_table (int n) (hash_nextprime_loop (int n) 0 (int (length primetable) - 1))"
    using assms by (intro hash_nextprime_loop_ok) (auto simp: primetable_last primetable_length)
  moreover have "0 \<le> hash_nextprime_loop (int n) 0 (int (length primetable) - 1)"
    using l by (auto simp: least_in_table_def)
  ultimately show ?thesis using assms by (simp add: hash_nextprime_def)
qed

lemma ht_max_in_table: "int ht_max_sz \<in> set primetable"
  using nth_mem[of 207 primetable] by (simp add: primetable_last primetable_length)

lemma hash_nextprime_bounds:
  "hash_nextprime n \<le> ht_max_sz" "min n ht_max_sz \<le> hash_nextprime n" "0 < hash_nextprime n"
proof -
  have "hash_nextprime n \<le> ht_max_sz \<and> min n ht_max_sz \<le> hash_nextprime n \<and> 0 < hash_nextprime n"
  proof (cases "n \<le> ht_max_sz")
    case True
    have "\<forall>q \<in> set primetable. 0 < q" by (simp add: primetable_def)
    with hash_nextprime_least[OF True] ht_max_in_table True show ?thesis
      unfolding least_in_table_def by fastforce
  next
    case False
    then show ?thesis by (simp add: hash_nextprime_def ht_max_sz_def)
  qed
  then show "hash_nextprime n \<le> ht_max_sz" "min n ht_max_sz \<le> hash_nextprime n" "0 < hash_nextprime n"
    by auto
qed

lemma hash_nextprime_double:
  assumes "0 < sz" "sz < ht_max_sz"
  shows "sz < hash_nextprime (2 * sz)"
  using hash_nextprime_bounds(2)[of "2 * sz"] assms by linarith

subsection \<open>Buckets and the abstract map\<close>

fun entries :: "hash_elt \<Rightarrow> (addr \<times> addr) list" where
  "entries HASH_EMPTY = []"
| "entries (HElt k d nx) = (k, d) # nx"

definition ht_entries :: "dk_hash \<Rightarrow> (addr \<times> addr) list" where
  "ht_entries ht = concat (map entries (ht_elements ht))"

definition ht_lookup :: "dk_hash \<Rightarrow> addr \<Rightarrow> addr option" where
  "ht_lookup ht k = map_of (entries (ht_elements ht ! HASH_INX ht k)) k"

definition bucket_ok :: "nat \<Rightarrow> nat \<Rightarrow> hash_elt \<Rightarrow> bool" where
  "bucket_ok sz i e \<longleftrightarrow> distinct (map fst (entries e)) \<and> (\<forall>k \<in> fst ` set (entries e). k mod sz = i)"

definition ht_struct :: "dk_hash \<Rightarrow> bool" where
  "ht_struct ht \<longleftrightarrow>
     0 < ht_actual_size ht \<and> length (ht_elements ht) = ht_actual_size ht \<and>
     (\<forall>i < ht_actual_size ht. bucket_ok (ht_actual_size ht) i (ht_elements ht ! i))"

text \<open>The invariant of a table: well-formed buckets and a counter that counts the entries.\<close>

definition ht_ok :: "dk_hash \<Rightarrow> bool" where
  "ht_ok ht \<longleftrightarrow> ht_struct ht \<and> ht_count ht = of_nat (length (ht_entries ht))"

lemma bucket_ok_simps [simp]:
  "bucket_ok sz i HASH_EMPTY"
  "bucket_ok sz i (HElt k d nx) \<longleftrightarrow>
     k mod sz = i \<and> k \<notin> fst ` set nx \<and> distinct (map fst nx) \<and> (\<forall>k' \<in> fst ` set nx. k' mod sz = i)"
  by (auto simp: bucket_ok_def)

lemma HASH_INX_less: "ht_struct ht \<Longrightarrow> HASH_INX ht k < length (ht_elements ht)"
  by (simp add: ht_struct_def HASH_INX_def)

lemma ht_struct_bucket:
  "ht_struct ht \<Longrightarrow> bucket_ok (ht_actual_size ht) (HASH_INX ht k) (ht_elements ht ! HASH_INX ht k)"
  by (simp add: ht_struct_def HASH_INX_def)

text \<open>Replacing one bucket.\<close>

definition set_bucket :: "dk_hash \<Rightarrow> nat \<Rightarrow> hash_elt \<Rightarrow> dk_hash" where
  "set_bucket ht i e = ht\<lparr>ht_elements := (ht_elements ht)[i := e]\<rparr>"

lemma set_bucket_sel [simp]:
  "ht_elements (set_bucket ht i e) = (ht_elements ht)[i := e]"
  "ht_count (set_bucket ht i e) = ht_count ht"
  "ht_actual_size (set_bucket ht i e) = ht_actual_size ht"
  "HASH_INX (set_bucket ht i e) k = HASH_INX ht k"
  by (simp_all add: set_bucket_def HASH_INX_def)

lemma count_update_sel [simp]:
  "ht_struct (ht\<lparr>ht_count := c\<rparr>) = ht_struct ht"
  "ht_lookup (ht\<lparr>ht_count := c\<rparr>) = ht_lookup ht"
  "ht_entries (ht\<lparr>ht_count := c\<rparr>) = ht_entries ht"
  "HASH_INX (ht\<lparr>ht_count := c\<rparr>) k = HASH_INX ht k"
  by (auto simp: ht_struct_def ht_lookup_def ht_entries_def HASH_INX_def fun_eq_iff)

lemma set_bucket_struct:
  assumes "ht_struct ht" "bucket_ok (ht_actual_size ht) i e" "i < ht_actual_size ht"
  shows "ht_struct (set_bucket ht i e)"
  using assms by (auto simp: ht_struct_def nth_list_update)

lemma set_bucket_lookup:
  assumes "ht_struct ht" "i = HASH_INX ht k"
    and "map_of (entries e) = (map_of (entries (ht_elements ht ! i)))(k := v)"
  shows "ht_lookup (set_bucket ht i e) = (ht_lookup ht)(k := v)"
proof
  fix q
  show "ht_lookup (set_bucket ht i e) q = ((ht_lookup ht)(k := v)) q"
    using assms HASH_INX_less[OF assms(1), of k]
    by (cases "HASH_INX ht q = i") (auto simp: ht_lookup_def)
qed

lemma set_bucket_length:
  assumes "i < length (ht_elements ht)"
  shows "length (ht_entries (set_bucket ht i e)) + length (entries (ht_elements ht ! i)) =
         length (ht_entries ht) + length (entries e)"
proof -
  have "length (entries (ht_elements ht ! i)) \<in> set (map (length \<circ> entries) (ht_elements ht))"
    using assms by (auto intro!: rev_image_eqI[OF nth_mem])
  then have "length (entries (ht_elements ht ! i)) \<le> sum_list (map (length \<circ> entries) (ht_elements ht))"
    by (simp add: member_le_sum_list)
  then show ?thesis
    using assms by (simp add: ht_entries_def length_concat comp_def map_update sum_list_update)
qed

lemma chain_get_map_of: "chain_get k xs = map_of xs k"
  by (induction k xs rule: chain_get.induct) auto

lemma chain_set_None: "chain_set k d xs = None \<longleftrightarrow> k \<notin> fst ` set xs"
  by (induction k d xs rule: chain_set.induct) (auto split: option.splits)

lemma chain_set_Some:
  "chain_set k d xs = Some ys \<Longrightarrow>
     map fst ys = map fst xs \<and> map_of ys = (map_of xs)(k \<mapsto> d) \<and> k \<in> fst ` set xs"
  by (induction k d xs arbitrary: ys rule: chain_set.induct)
     (auto split: option.splits if_splits)

lemma chain_rem_None: "chain_rem k xs = None \<longleftrightarrow> k \<notin> fst ` set xs"
  by (induction k xs rule: chain_rem.induct) (auto split: option.splits)

lemma chain_rem_Some:
  "chain_rem k xs = Some ys \<Longrightarrow> distinct (map fst xs) \<Longrightarrow>
     map_of ys = (map_of xs)(k := None) \<and> distinct (map fst ys) \<and>
     set ys \<subseteq> set xs \<and> Suc (length ys) = length xs \<and> k \<in> fst ` set xs"
proof (induction k xs arbitrary: ys rule: chain_rem.induct)
  case (1 key)
  then show ?case by simp
next
  case (2 key k d rest)
  show ?case
  proof (cases "k = key")
    case True
    with 2 have "map_of rest key = None" by (auto simp: map_of_eq_None_iff)
    with True 2 show ?thesis by (auto simp: fun_eq_iff)
  next
    case False
    then obtain r where r: "chain_rem key rest = Some r" "ys = (k, d) # r"
      using "2.prems"(1) by (auto split: option.splits)
    have "distinct (map fst rest)" using "2.prems"(2) by simp
    from "2.IH"[OF False r(1) this] False r(2) "2.prems"(2) show ?thesis
      by (auto simp: fun_eq_iff image_iff)
  qed
qed

lemma gethash_lookup:
  "gethash k ht = (case ht_lookup ht k of None \<Rightarrow> NULL | Some d \<Rightarrow> d)"
  by (cases "ht_elements ht ! HASH_INX ht k")
     (auto simp: gethash_def ht_lookup_def chain_get_map_of)

lemma sethash_body_ok:
  assumes "ht_struct ht" "sethash_body k ht d = (ht', c)"
  shows "ht_struct ht'" "ht_lookup ht' = (ht_lookup ht)(k \<mapsto> d)"
    "ht_actual_size ht' = ht_actual_size ht" "c \<longleftrightarrow> ht_lookup ht k = None"
    "ht_count ht' = ht_count ht + (if c then 1 else 0)"
    "length (ht_entries ht') = length (ht_entries ht) + (if c then 1 else 0)"
proof -
  define i where "i = HASH_INX ht k"
  define sz where "sz = ht_actual_size ht"
  have i: "i < length (ht_elements ht)" "i < sz" "k mod sz = i"
    using assms(1) HASH_INX_less[OF assms(1), of k]
    by (auto simp: i_def sz_def ht_struct_def HASH_INX_def)
  have b: "bucket_ok sz i (ht_elements ht ! i)"
    using ht_struct_bucket[OF assms(1)] by (simp add: i_def sz_def)
  have "\<exists>e. ht' = (set_bucket ht i e)\<lparr>ht_count := ht_count ht + (if c then 1 else 0)\<rparr> \<and> bucket_ok sz i e \<and>
      map_of (entries e) = (map_of (entries (ht_elements ht ! i)))(k \<mapsto> d) \<and>
      (c \<longleftrightarrow> ht_lookup ht k = None) \<and>
      length (entries e) = length (entries (ht_elements ht ! i)) + (if c then 1 else 0)"
  proof (cases "ht_elements ht ! i")
    case HASH_EMPTY
    with assms(2) i show ?thesis
      by (intro exI[of _ "HElt k d []"])
         (auto simp: sethash_body_def Let_def set_bucket_def ht_lookup_def simp flip: i_def)
  next
    case e: (HElt k0 d0 nx)
    show ?thesis
    proof (cases "k0 = k")
      case True
      with assms(2) i b e show ?thesis
        by (intro exI[of _ "HElt k0 d nx"])
           (auto simp: sethash_body_def Let_def set_bucket_def ht_lookup_def simp flip: i_def)
    next
      case False
      show ?thesis
      proof (cases "chain_set k d nx")
        case None
        with assms(2) i b e False show ?thesis
          by (intro exI[of _ "HElt k0 d0 ((k, d) # nx)"])
             (auto simp: sethash_body_def Let_def set_bucket_def ht_lookup_def chain_set_None
                map_of_eq_None_iff fun_upd_twist simp flip: i_def)
      next
        case (Some nx')
        note cs = chain_set_Some[OF Some]
        have "fst ` set nx' = fst ` set nx" using cs by (metis list.set_map)
        moreover have "length nx' = length nx" using cs by (metis length_map)
        ultimately show ?thesis
          using assms(2) i b e False Some cs
          by (intro exI[of _ "HElt k0 d0 nx'"])
             (auto simp: sethash_body_def Let_def set_bucket_def ht_lookup_def
                map_of_eq_None_iff fun_upd_twist simp flip: i_def)
      qed
    qed
  qed
  then obtain e where e: "ht' = (set_bucket ht i e)\<lparr>ht_count := ht_count ht + (if c then 1 else 0)\<rparr>"
      "bucket_ok sz i e" "map_of (entries e) = (map_of (entries (ht_elements ht ! i)))(k \<mapsto> d)"
      "c \<longleftrightarrow> ht_lookup ht k = None"
      "length (entries e) = length (entries (ht_elements ht ! i)) + (if c then 1 else 0)"
    by blast
  then show "ht_struct ht'" "ht_lookup ht' = (ht_lookup ht)(k \<mapsto> d)"
    "ht_actual_size ht' = ht_actual_size ht" "c \<longleftrightarrow> ht_lookup ht k = None"
    "ht_count ht' = ht_count ht + (if c then 1 else 0)"
    using assms(1) i set_bucket_struct[of ht i e] set_bucket_lookup[of ht i k e "Some d"]
    by (simp_all add: sz_def i_def)
  show "length (ht_entries ht') = length (ht_entries ht) + (if c then 1 else 0)"
    using e set_bucket_length[OF i(1), of e] by simp
qed

subsection \<open>Rehashing\<close>

lemma distinct_bucket_keys:
  "(\<forall>i < length es. bucket_ok sz (i + off) (es ! i)) \<Longrightarrow> length es + off \<le> sz \<Longrightarrow>
     distinct (map fst (concat (map entries es))) \<and>
     (\<forall>k \<in> fst ` set (concat (map entries es)). off \<le> k mod sz)"
proof (induction es arbitrary: off)
  case Nil
  then show ?case by simp
next
  case (Cons e es)
  have b: "bucket_ok sz off e" using Cons.prems(1) by force
  have "\<forall>i < length es. bucket_ok sz (i + Suc off) (es ! i)"
    using Cons.prems(1) by force
  with Cons.IH[of "Suc off"] Cons.prems(2)
  have IH: "distinct (map fst (concat (map entries es)))"
    "\<forall>k \<in> fst ` set (concat (map entries es)). Suc off \<le> k mod sz" by auto
  have e: "distinct (map fst (entries e))" "\<forall>k \<in> fst ` set (entries e). k mod sz = off"
    using b by (simp_all add: bucket_ok_def)
  have "k \<notin> fst ` set (concat (map entries es))" if "k \<in> fst ` set (entries e)" for k
  proof
    assume "k \<in> fst ` set (concat (map entries es))"
    then have "Suc off \<le> k mod sz" by (rule IH(2)[rule_format])
    moreover have "k mod sz = off" using e(2) that by blast
    ultimately show False by simp
  qed
  then have dis: "fst ` set (entries e) \<inter> fst ` set (concat (map entries es)) = {}" by blast
  have "distinct (map fst (concat (map entries (e # es))))"
    using dis e(1) IH(1) by (simp only: list.map concat.simps map_append distinct_append set_map simp_thms)
  moreover have "off \<le> k mod sz" if "k \<in> fst ` set (concat (map entries (e # es)))" for k
  proof -
    from that consider "k \<in> fst ` set (entries e)" | "k \<in> fst ` set (concat (map entries es))"
      by (simp only: list.map concat.simps set_append image_Un Un_iff) blast
    then show ?thesis
    proof cases
      case 1
      then have "k mod sz = off" using e(2) by blast
      then show ?thesis by simp
    next
      case 2
      then have "Suc off \<le> k mod sz" by (rule IH(2)[rule_format])
      then show ?thesis by simp
    qed
  qed
  ultimately show ?case by blast
qed

lemma ht_entries_distinct: "ht_struct ht \<Longrightarrow> distinct (map fst (ht_entries ht))"
  using distinct_bucket_keys[of "ht_elements ht" "ht_actual_size ht" 0]
  by (simp add: ht_struct_def ht_entries_def)

lemma ht_lookup_entries:
  assumes "ht_struct ht"
  shows "ht_lookup ht = map_of (ht_entries ht)"
proof
  fix k
  have sound: "map_of (ht_entries ht) k = Some v" if "ht_lookup ht k = Some v" for v
  proof -
    have "(k, v) \<in> set (entries (ht_elements ht ! HASH_INX ht k))"
      using that by (simp add: ht_lookup_def map_of_SomeD)
    moreover have "ht_elements ht ! HASH_INX ht k \<in> set (ht_elements ht)"
      using HASH_INX_less[OF assms, of k] by simp
    ultimately have "(k, v) \<in> set (ht_entries ht)"
      unfolding ht_entries_def by (simp only: set_concat set_map UN_simps) blast
    then show ?thesis using ht_entries_distinct[OF assms] by simp
  qed
  have "map_of (ht_entries ht) k = None" if none: "ht_lookup ht k = None"
  proof (rule ccontr)
    assume "map_of (ht_entries ht) k \<noteq> None"
    then obtain v where "(k, v) \<in> set (ht_entries ht)" by (auto dest: map_of_SomeD)
    then obtain e where e: "e \<in> set (ht_elements ht)" "(k, v) \<in> set (entries e)"
      unfolding ht_entries_def by (simp only: set_concat set_map UN_simps) blast
    then obtain i where i: "i < length (ht_elements ht)" "e = ht_elements ht ! i"
      by (metis in_set_conv_nth)
    then have "bucket_ok (ht_actual_size ht) i e" using assms by (simp add: ht_struct_def)
    then have "HASH_INX ht k = i"
      using e(2) unfolding bucket_ok_def HASH_INX_def by (metis fst_conv image_eqI)
    then have "map_of (entries e) k = None" using none i by (simp add: ht_lookup_def)
    with e(2) show False by (metis fst_conv image_eqI map_of_eq_None_iff)
  qed
  with sound show "ht_lookup ht k = map_of (ht_entries ht) k"
    by (cases "ht_lookup ht k") auto
qed

definition push_elt :: "addr \<Rightarrow> addr \<Rightarrow> hash_elt \<Rightarrow> hash_elt" where
  "push_elt k d e = (case e of HASH_EMPTY \<Rightarrow> HElt k d [] | HElt nk nd nx \<Rightarrow> HElt nk nd ((k, d) # nx))"

lemma push_elt_ok:
  assumes "bucket_ok sz i e" "map_of (entries e) k = None" "k mod sz = i"
  shows "bucket_ok sz i (push_elt k d e)"
    and "map_of (entries (push_elt k d e)) = (map_of (entries e))(k \<mapsto> d)"
    and "length (entries (push_elt k d e)) = Suc (length (entries e))"
proof -
  have n: "k \<notin> fst ` set (entries e)" using assms(2) by (simp add: map_of_eq_None_iff)
  show "length (entries (push_elt k d e)) = Suc (length (entries e))"
    by (cases e) (simp_all add: push_elt_def)
  show "map_of (entries (push_elt k d e)) = (map_of (entries e))(k \<mapsto> d)"
    using assms(2) by (cases e) (auto simp: push_elt_def fun_eq_iff)
  show "bucket_ok sz i (push_elt k d e)"
    using assms(1,3) n by (cases e) (simp_all add: push_elt_def)
qed

lemma rehash_chain_Cons:
  "rehash_chain ((k, d) # rest) N =
     rehash_chain rest (set_bucket N (HASH_INX N k) (push_elt k d (ht_elements N ! HASH_INX N k)))"
  by (cases "ht_elements N ! HASH_INX N k") (simp_all add: Let_def push_elt_def set_bucket_def)

lemma rehash_chain_ok:
  assumes "ht_struct N" "distinct (map fst nx)" "fst ` set nx \<inter> dom (ht_lookup N) = {}"
  shows "ht_struct (rehash_chain nx N) \<and> ht_lookup (rehash_chain nx N) = ht_lookup N ++ map_of nx \<and>
         ht_actual_size (rehash_chain nx N) = ht_actual_size N \<and>
         ht_count (rehash_chain nx N) = ht_count N \<and>
         length (ht_entries (rehash_chain nx N)) = length (ht_entries N) + length nx"
  using assms
proof (induction nx arbitrary: N)
  case Nil
  then show ?case by simp
next
  case (Cons kd rest)
  obtain k d where kd: "kd = (k, d)" by fastforce
  define i where "i = HASH_INX N k"
  define e where "e = push_elt k d (ht_elements N ! i)"
  define N1 where "N1 = set_bucket N i e"
  have i: "i < length (ht_elements N)" "i < ht_actual_size N" "k mod ht_actual_size N = i"
    using Cons.prems(1) HASH_INX_less[of N k] by (auto simp: i_def ht_struct_def HASH_INX_def)
  have b: "bucket_ok (ht_actual_size N) i (ht_elements N ! i)"
    using ht_struct_bucket[OF Cons.prems(1)] by (simp add: i_def)
  have "map_of (entries (ht_elements N ! i)) k = None"
    using Cons.prems(3) kd by (auto simp: ht_lookup_def i_def)
  note e = push_elt_ok[OF b this i(3), of d, folded e_def]
  have N1: "ht_struct N1" "ht_lookup N1 = (ht_lookup N)(k \<mapsto> d)"
    "length (ht_entries N1) = Suc (length (ht_entries N))"
    using set_bucket_struct[OF Cons.prems(1) e(1) i(2)] set_bucket_lookup[OF Cons.prems(1) i_def e(2)]
      set_bucket_length[OF i(1), of e] e(3) by (simp_all add: N1_def)
  have "fst ` set rest \<inter> dom (ht_lookup N1) = {}"
    using Cons.prems(2,3) by (auto simp: N1(2) kd)
  then have IH: "ht_struct (rehash_chain rest N1) \<and> ht_lookup (rehash_chain rest N1) = ht_lookup N1 ++ map_of rest \<and>
         ht_actual_size (rehash_chain rest N1) = ht_actual_size N1 \<and>
         ht_count (rehash_chain rest N1) = ht_count N1 \<and>
         length (ht_entries (rehash_chain rest N1)) = length (ht_entries N1) + length rest"
    using Cons.prems(2) kd by (intro Cons.IH[OF N1(1)]) simp_all
  have step: "rehash_chain (kd # rest) N = rehash_chain rest N1"
    by (simp only: kd rehash_chain_Cons N1_def e_def i_def)
  have "k \<notin> dom (map_of rest)" using Cons.prems(2) kd by (simp add: dom_map_of_conv_image_fst)
  then have l: "ht_lookup N1 ++ map_of rest = ht_lookup N ++ map_of (kd # rest)"
    unfolding N1(2) kd by (simp add: map_add_upd_left)
  have "ht_actual_size N1 = ht_actual_size N" "ht_count N1 = ht_count N" by (simp_all add: N1_def)
  with IH N1(3) show ?case unfolding step l[symmetric] by simp
qed

lemma sethash_depth_below:
  assumes "ht_struct N" "ht_actual_size N \<le> ht_max_sz" "unat (ht_count N) + 1 < ht_actual_size N"
  shows "sethash_depth (Suc depth) k N d = Some (fst (sethash_body k N d))"
proof -
  obtain N' c where r: "sethash_body k N d = (N', c)" by fastforce
  note b = sethash_body_ok[OF assms(1) r]
  have "unat (ht_count N') \<le> unat (ht_count N) + 1"
    using b(5) by (auto simp: unat_word_ariths)
  then have u: "unat (ht_count N') < ht_actual_size N'" using assms(3) b(3) by simp
  have "unat (ht_count N') * 5 < 2 ^ 32" using u assms(2) b(3) by (simp add: ht_max_sz_def)
  then have "unat (ht_count N' * 5) = unat (ht_count N') * 5" by (simp add: unat_word_ariths)
  then have "unat (ht_count N' * 5) div ht_actual_size N' < 5"
    using u by (simp add: div_less_iff_less_mult)
  then have "\<not> CHECK_REHASH N'" by (simp add: CHECK_REHASH_def)
  with r show ?thesis by (simp add: sethash_depth.simps)
qed

declare sethash_depth.simps [simp del]

lemma rehash_elements_ok:
  assumes "ht_struct N" "ht_actual_size N \<le> ht_max_sz"
    and "unat (ht_count N) + length es < ht_actual_size N"
    and "distinct (map fst (concat (map entries es)))"
    and "fst ` set (concat (map entries es)) \<inter> dom (ht_lookup N) = {}"
  shows "\<exists>N'. rehash_elements (sethash_depth (Suc depth)) es N = Some N' \<and> ht_struct N' \<and>
     ht_lookup N' = ht_lookup N ++ map_of (concat (map entries es)) \<and>
     ht_actual_size N' = ht_actual_size N \<and>
     length (ht_entries N') = length (ht_entries N) + length (concat (map entries es))"
  using assms
proof (induction es arbitrary: N)
  case Nil
  then show ?case by simp
next
  case (Cons e es)
  define T where "T = concat (map entries es)"
  show ?case
  proof (cases e)
    case HASH_EMPTY
    with Cons.prems show ?thesis by (simp add: Cons.IH)
  next
    case (HElt k d nx)
    obtain N1 c where r: "sethash_body k N d = (N1, c)" by fastforce
    note b = sethash_body_ok[OF Cons.prems(1) r]
    have ent: "concat (map entries (e # es)) = (k, d) # nx @ T" by (simp add: HElt T_def)
    have knew: "ht_lookup N k = None" using Cons.prems(5) unfolding ent by auto
    have s: "sethash_depth (Suc depth) k N d = Some N1"
      using sethash_depth_below[OF Cons.prems(1,2)] Cons.prems(3) r by simp
    define N2 where "N2 = rehash_chain nx N1"
    have dj: "distinct (map fst nx)" "fst ` set nx \<inter> dom (ht_lookup N1) = {}" "k \<notin> dom (map_of nx)"
      using Cons.prems(4,5) unfolding ent b(2) by (auto simp: dom_map_of_conv_image_fst)
    note c = rehash_chain_ok[OF b(1) dj(1,2), folded N2_def]
    have l2: "ht_lookup N2 = ht_lookup N ++ map_of ((k, d) # nx)"
      using c dj(3) b(2) by (simp add: map_add_upd_left)
    have u: "unat (ht_count N1) \<le> unat (ht_count N) + 1"
      using b(5) by (auto simp: unat_word_ariths)
    have dom2: "fst ` set T \<inter> dom (ht_lookup N2) = {}"
      using Cons.prems(4,5) unfolding ent l2 by (auto simp: dom_map_of_conv_image_fst)
    have dT: "distinct (map fst T)" using Cons.prems(4) unfolding ent by simp
    obtain N' where N': "rehash_elements (sethash_depth (Suc depth)) es N2 = Some N'" "ht_struct N'"
       "ht_lookup N' = ht_lookup N2 ++ map_of T" "ht_actual_size N' = ht_actual_size N2"
       "length (ht_entries N') = length (ht_entries N2) + length T"
      using c b(3) u Cons.prems(2,3) dT dom2 Cons.IH[of N2] by (auto simp: T_def)
    have "dom (map_of ((k, d) # nx)) \<inter> dom (map_of T) = {}"
      using Cons.prems(4) unfolding ent dom_map_of_conv_image_fst by auto
    then have "map_of ((k, d) # nx) ++ map_of T = map_of (((k, d) # nx) @ T)"
      unfolding map_of_append by (rule map_add_comm)
    then have "ht_lookup N' = ht_lookup N ++ map_of (concat (map entries (e # es)))"
      unfolding l2 ent N'(3) by (metis map_add_assoc append_Cons)
    moreover have "rehash_elements (sethash_depth (Suc depth)) (e # es) N = Some N'"
      using s N'(1) by (simp add: HElt flip: N2_def)
    moreover have "length (ht_entries N') = length (ht_entries N) + length (concat (map entries (e # es)))"
      unfolding ent N'(5) using c b(4,6) knew by simp
    ultimately show ?thesis using N'(2,4) c b(3) by (intro exI[of _ N']) simp
  qed
qed

lemma ht_struct_empty:
  fixes t :: nat
  assumes "0 < sz"
  defines "N \<equiv> \<lparr>ht_elements = replicate sz HASH_EMPTY, ht_count = 0, ht_actual_size = sz,
                 ht_rehash_threshold = t\<rparr>"
  shows "ht_struct N" "ht_lookup N = Map.empty" "ht_entries N = []"
  using assms by (auto simp: ht_struct_def ht_lookup_def ht_entries_def HASH_INX_def fun_eq_iff)

lemma dk_rehash_with_ok:
  assumes "ht_struct ht" "ht_actual_size ht < hash_nextprime new_sz \<or> ht_actual_size ht \<ge> ht_max_sz"
  shows "\<exists>ht'. dk_rehash_with (sethash_depth (Suc depth)) ht new_sz = Some ht' \<and> ht_struct ht' \<and>
     ht_lookup ht' = ht_lookup ht \<and> ht_count ht' = ht_count ht \<and>
     length (ht_entries ht') = length (ht_entries ht) \<and>
     ht_actual_size ht' = (if ht_actual_size ht \<ge> ht_max_sz then ht_actual_size ht else hash_nextprime new_sz)"
proof (cases "ht_actual_size ht \<ge> ht_max_sz")
  case True
  with assms(1) show ?thesis by (simp add: dk_rehash_with_def)
next
  case False
  define sz where "sz = hash_nextprime new_sz"
  define N where "N = \<lparr>ht_elements = replicate sz HASH_EMPTY, ht_count = 0, ht_actual_size = sz,
                 ht_rehash_threshold = ht_rehash_threshold ht\<rparr>"
  have sz: "0 < sz" "sz \<le> ht_max_sz" "ht_actual_size ht < sz"
    using assms(2) False hash_nextprime_bounds[of new_sz] by (auto simp: sz_def)
  note e = ht_struct_empty[OF sz(1), of "ht_rehash_threshold ht", folded N_def]
  have "length (ht_elements ht) < sz" using assms(1) sz(3) by (simp add: ht_struct_def)
  then obtain N' where N': "rehash_elements (sethash_depth (Suc depth)) (ht_elements ht) N = Some N'"
      "ht_struct N'" "ht_lookup N' = map_of (ht_entries ht)" "ht_actual_size N' = sz"
      "length (ht_entries N') = length (ht_entries ht)"
    using rehash_elements_ok[OF e(1), of "ht_elements ht" depth] e(2,3) sz(2) ht_entries_distinct[OF assms(1)]
    by (auto simp: N_def ht_entries_def)
  then show ?thesis
    using False sz(3) ht_lookup_entries[OF assms(1)]
    by (simp add: dk_rehash_with_def Let_def flip: sz_def N_def)
qed

subsection \<open>The operations refine the finite map\<close>

lemma sethash_ok:
  assumes "ht_ok ht"
  shows "\<exists>ht'. sethash k ht d = Some ht' \<and> ht_ok ht' \<and> ht_lookup ht' = (ht_lookup ht)(k \<mapsto> d) \<and>
    length (ht_entries ht') = length (ht_entries ht) + (if ht_lookup ht k = None then 1 else 0)"
proof -
  have s: "ht_struct ht" and n: "ht_count ht = of_nat (length (ht_entries ht))"
    using assms by (simp_all add: ht_ok_def)
  obtain h1 c where r: "sethash_body k ht d = (h1, c)" by fastforce
  note b = sethash_body_ok[OF s r]
  have ok1: "ht_ok h1" using b(1,5,6) n by (simp add: ht_ok_def)
  have "0 < ht_actual_size h1" using b(1) by (simp add: ht_struct_def)
  then have g: "ht_actual_size h1 < hash_nextprime (2 * ht_actual_size h1) \<or> ht_actual_size h1 \<ge> ht_max_sz"
    using hash_nextprime_double by (meson not_less)
  have st: "sethash k ht d =
      (if c \<and> CHECK_REHASH h1 then dk_rehash_with (sethash_depth (Suc 0)) h1 (2 * ht_actual_size h1)
       else Some h1)"
    by (simp add: sethash_def numeral_2_eq_2 sethash_depth.simps(2)[of "Suc 0"] r)
  show ?thesis
  proof (cases "c \<and> CHECK_REHASH h1")
    case True
    then show ?thesis
      using dk_rehash_with_ok[OF b(1) g, of 0] ok1 b(2,4,6) st by (auto simp: ht_ok_def)
  next
    case False
    then show ?thesis using ok1 b(2,4,6) st by auto
  qed
qed

lemma sethash_threshold:
  assumes "ht_struct ht" "ht_actual_size ht \<le> ht_max_sz" "unat (ht_count ht) < ht_actual_size ht + 1"
  shows "CHECK_REHASH ht \<longleftrightarrow> ht_actual_size ht \<le> unat (ht_count ht)"
proof -
  have p: "0 < ht_actual_size ht" using assms(1) by (simp add: ht_struct_def)
  have "unat (ht_count ht) * 5 < 2 ^ 32" using assms(2,3) by (simp add: ht_max_sz_def)
  then have "unat (ht_count ht * 5) = unat (ht_count ht) * 5" by (simp add: unat_word_ariths)
  then have "CHECK_REHASH ht \<longleftrightarrow> 5 \<le> unat (ht_count ht) * 5 div ht_actual_size ht"
    by (auto simp: CHECK_REHASH_def)
  also have "\<dots> \<longleftrightarrow> 5 * ht_actual_size ht \<le> unat (ht_count ht) * 5"
    using p by (simp add: less_eq_div_iff_mult_less_eq)
  finally show ?thesis by simp
qed

lemma remhash_bucket:
  assumes "ht_struct ht" "remhash k ht = (ht', r)"
  defines "i \<equiv> HASH_INX ht k" and "sz \<equiv> ht_actual_size ht"
  obtains (none) "ht' = ht" "r = 0" "ht_lookup ht k = None"
    | (some) e where "ht' = (set_bucket ht i e)\<lparr>ht_count := ht_count ht - 1\<rparr>" "r = 1" "ht_lookup ht k \<noteq> None"
        "bucket_ok sz i e" "map_of (entries e) = (map_of (entries (ht_elements ht ! i)))(k := None)"
        "Suc (length (entries e)) = length (entries (ht_elements ht ! i))"
proof -
  have b: "bucket_ok sz i (ht_elements ht ! i)"
    using ht_struct_bucket[OF assms(1)] by (simp add: i_def sz_def)
  have lk: "ht_lookup ht k = map_of (entries (ht_elements ht ! i)) k" by (simp add: ht_lookup_def i_def)
  show ?thesis
  proof (cases "ht_elements ht ! i")
    case HASH_EMPTY
    with assms(2) lk show ?thesis by (intro none) (auto simp: remhash_def Let_def simp flip: i_def)
  next
    case e: (HElt k0 d0 nx)
    show ?thesis
    proof (cases "k0 = k")
      case k0: True
      have nn: "map_of nx k = None" using b e k0 by (simp add: map_of_eq_None_iff)
      show ?thesis
      proof (cases nx)
        case Nil
        with assms(2) e k0 lk show ?thesis
          by (intro some[of HASH_EMPTY]) (auto simp: remhash_def Let_def set_bucket_def simp flip: i_def)
      next
        case (Cons kd nx2)
        obtain k2 d2 where kd: "kd = (k2, d2)" by fastforce
        show ?thesis
        proof (rule some[of "HElt k2 d2 nx2"])
          show "map_of (entries (HElt k2 d2 nx2)) = (map_of (entries (ht_elements ht ! i)))(k := None)"
            using nn by (auto simp: e Cons kd k0 fun_eq_iff)
        qed (use assms(2) e k0 lk Cons kd b in
              \<open>auto simp: remhash_def Let_def set_bucket_def simp flip: i_def\<close>)
      qed
    next
      case k0: False
      show ?thesis
      proof (cases "chain_rem k nx")
        case None
        with assms(2) e k0 lk show ?thesis
          by (intro none) (auto simp: remhash_def Let_def chain_rem_None map_of_eq_None_iff simp flip: i_def)
      next
        case (Some nx')
        have dn: "distinct (map fst nx)" using b e by simp
        note cr = chain_rem_Some[OF Some dn]
        show ?thesis
        proof (rule some[of "HElt k0 d0 nx'"])
          show "map_of (entries (HElt k0 d0 nx')) = (map_of (entries (ht_elements ht ! i)))(k := None)"
            using cr k0 by (auto simp: e fun_eq_iff)
          show "bucket_ok sz i (HElt k0 d0 nx')" using b cr by (auto simp: e)
          show "ht_lookup ht k \<noteq> None" using cr k0 by (simp add: lk e map_of_eq_None_iff)
        qed (use assms(2) e k0 Some cr in
              \<open>auto simp: remhash_def Let_def set_bucket_def simp flip: i_def\<close>)
      qed
    qed
  qed
qed

lemma remhash_ok:
  assumes "ht_ok ht" "remhash k ht = (ht', r)"
  shows "ht_ok ht'" "ht_lookup ht' = (ht_lookup ht)(k := None)"
    "r = (if ht_lookup ht k = None then 0 else 1)" "ht_actual_size ht' = ht_actual_size ht"
    "length (ht_entries ht') = length (ht_entries ht) - (if ht_lookup ht k = None then 0 else 1)"
proof -
  have s: "ht_struct ht" and n: "ht_count ht = of_nat (length (ht_entries ht))"
    using assms(1) by (simp_all add: ht_ok_def)
  define i where "i = HASH_INX ht k"
  define sz where "sz = ht_actual_size ht"
  have i: "i < length (ht_elements ht)" "i < sz" "k mod sz = i"
    using s HASH_INX_less[OF s, of k] by (auto simp: i_def sz_def ht_struct_def HASH_INX_def)
  have "ht_ok ht' \<and> ht_lookup ht' = (ht_lookup ht)(k := None) \<and>
    r = (if ht_lookup ht k = None then 0 else 1) \<and> ht_actual_size ht' = ht_actual_size ht \<and>
    length (ht_entries ht') = length (ht_entries ht) - (if ht_lookup ht k = None then 0 else 1)"
  proof (cases rule: remhash_bucket[OF s assms(2), folded i_def sz_def, case_names none some])
    case none
    then show ?thesis using assms(1) by (auto simp: fun_eq_iff)
  next
    case (some e)
    have l: "Suc (length (ht_entries (set_bucket ht i e))) = length (ht_entries ht)"
      using set_bucket_length[OF i(1), of e] some(6) by simp
    then have "ht_count ht - 1 = of_nat (length (ht_entries (set_bucket ht i e)))"
      unfolding n by (simp flip: l)
    then show ?thesis
      using some set_bucket_struct[OF s, of i e] set_bucket_lookup[OF s i_def some(5)] i l
      by (simp add: ht_ok_def sz_def)
  qed
  then show "ht_ok ht'" "ht_lookup ht' = (ht_lookup ht)(k := None)"
    "r = (if ht_lookup ht k = None then 0 else 1)" "ht_actual_size ht' = ht_actual_size ht"
    "length (ht_entries ht') = length (ht_entries ht) - (if ht_lookup ht k = None then 0 else 1)"
    by blast+
qed

definition ht_fits :: "dk_hash \<Rightarrow> bool" where
  "ht_fits ht \<longleftrightarrow> length (ht_entries ht) < 2 ^ 32"

lemma ht_count_0: "ht_ok ht \<Longrightarrow> ht_fits ht \<Longrightarrow> ht_count ht = 0 \<longleftrightarrow> ht_entries ht = []"
  by (auto simp: ht_ok_def ht_fits_def of_nat_eq_0_iff word_of_nat_eq_0_iff dest: nat_dvd_not_less)

lemma clrhash_ok:
  assumes "ht_ok ht"
  shows "ht_ok (clrhash ht)" "ht_fits ht \<Longrightarrow> ht_lookup (clrhash ht) = Map.empty"
    "ht_actual_size (clrhash ht) = ht_actual_size ht"
proof -
  define C where "C = ht\<lparr>ht_elements := map (\<lambda>_. HASH_EMPTY) (ht_elements ht), ht_count := 0\<rparr>"
  have s: "ht_struct ht" using assms by (simp add: ht_ok_def)
  then have "ht_struct C" by (simp add: C_def ht_struct_def)
  moreover have e: "ht_entries C = []" by (simp add: C_def ht_entries_def)
  ultimately have C: "ht_ok C" "ht_lookup C = Map.empty"
    using ht_lookup_entries[of C] by (simp_all add: ht_ok_def) (simp add: C_def)
  have clr: "clrhash ht = (if ht_count ht = 0 then ht else C)" by (simp add: clrhash_def C_def)
  show "ht_ok (clrhash ht)" using assms C(1) by (simp add: clr)
  show "ht_actual_size (clrhash ht) = ht_actual_size ht" by (simp add: clr C_def)
  show "ht_lookup (clrhash ht) = Map.empty" if "ht_fits ht"
    using ht_count_0[OF assms that] ht_lookup_entries[OF s] C(2) by (simp add: clr)
qed

lemma hash_table_allocate_ok:
  "ht_ok (hash_table_allocate sz)" "ht_lookup (hash_table_allocate sz) = Map.empty"
  "ht_fits (hash_table_allocate sz)" "ht_entries (hash_table_allocate sz) = []"
  using ht_struct_empty[OF hash_nextprime_bounds(3), of sz 10]
  by (simp_all add: hash_table_allocate_def Let_def ht_ok_def ht_fits_def)

interpretation ht: dictionary ht_lookup "\<lambda>k v m. the (sethash k m v)" "\<lambda>k m. fst (remhash k m)"
  clrhash ht_ok ht_fits
proof
  fix m k v
  assume m: "ht_ok m"
  obtain m' where "sethash k m v = Some m'" "ht_ok m'" "ht_lookup m' = (ht_lookup m)(k \<mapsto> v)"
    using sethash_ok[OF m] by blast
  then show "ht_lookup (the (sethash k m v)) = (ht_lookup m)(k \<mapsto> v)" "ht_ok (the (sethash k m v))"
    by simp_all
  show "ht_lookup (fst (remhash k m)) = (ht_lookup m)(k := None)" "ht_ok (fst (remhash k m))"
    using remhash_ok[OF m] by (metis prod.collapse)+
qed (simp_all add: clrhash_ok)

subsection \<open>Iteration visits every entry once\<close>

definition hq_flat :: "hq \<Rightarrow> (addr \<times> addr) list" where
  "hq_flat q = snd q @ (case fst q of None \<Rightarrow> [] | Some kd \<Rightarrow> [kd])"

lemma hq_flat_simps [simp]:
  "hq_flat (None, calls) = calls"
  "hq_flat (HQ_CYCLE k d q) = hq_flat q @ [(k, d)]"
  "snd (HQ_CYCLE k d q) = hq_flat q"
  by (auto simp: hq_flat_def HQ_CYCLE_def split: prod.splits option.splits)

lemma hq_flat_chain [simp]: "hq_flat (hq_chain nx q) = hq_flat q @ nx"
  by (induction nx q rule: hq_chain.induct) auto

lemma hq_flat_elements [simp]: "hq_flat (hq_elements es q) = hq_flat q @ concat (map entries es)"
  by (induction es q rule: hq_elements.induct) auto

lemma no_remhash_elements_entries: "no_remhash_elements es = concat (map entries es)"
  by (induction es rule: no_remhash_elements.induct) auto

lemma maphash_entries:
  assumes "ht_ok ht" "ht_fits ht"
  shows "maphash ht = ht_entries ht" "maphash3 ht env = map (\<lambda>(k, d). (k, d, env)) (ht_entries ht)"
    "hash_list_keys ht = map fst (ht_entries ht)" "maphash_no_remhash ht = ht_entries ht"
  using ht_count_0[OF assms]
  by (auto simp: maphash_def maphash3_def hash_list_keys_def maphash_no_remhash_def
      no_remhash_elements_entries ht_entries_def)

definition hit_rest :: "dk_hash \<Rightarrow> dk_hash_iterator \<Rightarrow> (addr \<times> addr) list" where
  "hit_rest ht hit = hit_elt hit @ concat (map entries (drop (hit_inx hit) (ht_elements ht)))"

lemma dk_hit_scan_rest:
  assumes "length (ht_elements ht) = ht_actual_size ht" "hit_elt hit = []" "dk_hit_scan ht hit = (hit', r)"
  shows "case r of None \<Rightarrow> hit_rest ht hit = [] | Some kd \<Rightarrow> hit_rest ht hit = kd # hit_rest ht hit'"
  using assms
proof (induction ht hit arbitrary: hit' r rule: dk_hit_scan.induct)
  case (1 ht hit)
  show ?case
  proof (cases "hit_inx hit \<ge> ht_actual_size ht")
    case True
    with "1.prems" show ?thesis by (auto simp: dk_hit_scan.simps[of ht hit] hit_rest_def)
  next
    case False
    then have d: "drop (hit_inx hit) (ht_elements ht) =
        ht_elements ht ! hit_inx hit # drop (Suc (hit_inx hit)) (ht_elements ht)"
      using "1.prems"(1) by (simp add: Cons_nth_drop_Suc)
    show ?thesis
    proof (cases "ht_elements ht ! hit_inx hit")
      case HASH_EMPTY
      have "dk_hit_scan ht (hit\<lparr>hit_inx := hit_inx hit + 1\<rparr>) = (hit', r)"
        using "1.prems"(3) False HASH_EMPTY by (simp add: dk_hit_scan.simps[of ht hit])
      from "1.IH"[OF False HASH_EMPTY "1.prems"(1) _ this] "1.prems"(2)
      show ?thesis by (simp add: hit_rest_def d HASH_EMPTY split: option.splits)
    next
      case (HElt k dd nx)
      with "1.prems" False show ?thesis
        by (auto simp: dk_hit_scan.simps[of ht hit] hit_rest_def d)
    qed
  qed
qed

text \<open>All the pairs a client gets by calling \<^verbatim>\<open>dk_hit_next\<close> until it returns 0, at most \<open>n\<close> of them.\<close>

fun hit_run :: "nat \<Rightarrow> dk_hash \<Rightarrow> dk_hash_iterator \<Rightarrow> (addr \<times> addr) list" where
  "hit_run 0 ht hit = []"
| "hit_run (Suc n) ht hit =
     (case dk_hit_next ht hit of (hit', None) \<Rightarrow> [] | (hit', Some kd) \<Rightarrow> kd # hit_run n ht hit')"

lemma hit_run_rest:
  assumes "ht_ok ht" "ht_fits ht"
  shows "hit_run n ht hit = take n (hit_rest ht hit)"
proof (induction n arbitrary: hit)
  case 0
  then show ?case by simp
next
  case (Suc n)
  have l: "length (ht_elements ht) = ht_actual_size ht" using assms by (simp add: ht_ok_def ht_struct_def)
  show ?case
  proof (cases "hit_elt hit")
    case Nil
    obtain hit' r where sc: "dk_hit_scan ht hit = (hit', r)" by fastforce
    have z: "hit_rest ht hit = []" if "ht_count ht = 0"
    proof -
      have "concat (map entries (ht_elements ht)) = []"
        using that ht_count_0[OF assms] by (simp add: ht_entries_def)
      then show ?thesis using Nil by (auto simp: hit_rest_def dest: in_set_dropD)
    qed
    show ?thesis
      using Nil sc z dk_hit_scan_rest[OF l Nil sc] Suc.IH
      by (cases r) (auto simp: dk_hit_next_def)
  next
    case (Cons kd nx)
    then show ?thesis using Suc.IH by (cases kd) (simp add: dk_hit_next_def hit_rest_def)
  qed
qed

subsection \<open>Properties\<close>

text \<open>
  C4. Inserting into a well-formed table always returns (the rehashing it may start never starts
  another one), keeps the table well-formed, and updates exactly the key it is given: its lookup
  returns the new datum and every other lookup returns what it returned before.
\<close>

theorem sethash_correct:
  assumes "ht_ok ht"
  shows "\<exists>ht'. sethash k ht d = Some ht' \<and> ht_ok ht' \<and> gethash k ht' = d \<and>
    (\<forall>k'. k' \<noteq> k \<longrightarrow> gethash k' ht' = gethash k' ht) \<and>
    length (ht_entries ht') = length (ht_entries ht) + (if ht_lookup ht k = None then 1 else 0)"
  using sethash_ok[OF assms, of k d] by (auto simp: gethash_lookup)

theorem sethash_correct_witness:
  "ht_ok (hash_table_allocate 3) \<and>
   (\<exists>ht'. sethash 11 (hash_table_allocate 3) 42 = Some ht' \<and> gethash 11 ht' = 42)"
  using sethash_correct[OF hash_table_allocate_ok(1), of 11 3 42] hash_table_allocate_ok(1) by blast

text \<open>
  C5. Removing a key from a well-formed table keeps it well-formed, answers 1 exactly when the key
  was present, and removes exactly that key.
\<close>

theorem remhash_correct:
  assumes "ht_ok ht"
  shows "ht_ok (fst (remhash k ht)) \<and> ht_lookup (fst (remhash k ht)) = (ht_lookup ht)(k := None) \<and>
    snd (remhash k ht) = (if ht_lookup ht k = None then 0 else 1) \<and>
    gethash k (fst (remhash k ht)) = NULL"
  using remhash_ok[OF assms, of k "fst (remhash k ht)" "snd (remhash k ht)"] by (simp add: gethash_lookup)

theorem remhash_correct_witness:
  "let ht = \<lparr>ht_elements = [HElt 4 7 [(6, 8)], HASH_EMPTY], ht_count = 2, ht_actual_size = 2,
             ht_rehash_threshold = 10\<rparr> in
   ht_ok ht \<and> snd (remhash 6 ht) = 1 \<and> gethash 6 (fst (remhash 6 ht)) = NULL"
proof -
  define ht where "ht = \<lparr>ht_elements = [HElt 4 7 [(6, 8)], HASH_EMPTY], ht_count = 2, ht_actual_size = 2,
             ht_rehash_threshold = 10\<rparr>"
  have ok: "ht_ok ht"
    by (auto simp: ht_def ht_ok_def ht_struct_def ht_entries_def less_2_cases_iff)
  have "ht_lookup ht 6 \<noteq> None" by (simp add: ht_def ht_lookup_def HASH_INX_def)
  with remhash_correct[OF ok, of 6] ok show ?thesis unfolding Let_def ht_def[symmetric] by simp
qed

text \<open>
  C6. The size of a new table is the least entry of the prime table that is at least the size asked
  for, for every size up to the largest entry.
\<close>

theorem hash_nextprime_correct:
  assumes "n \<le> ht_max_sz"
  shows "int (hash_nextprime n) \<in> set primetable \<and> n \<le> hash_nextprime n \<and>
    (\<forall>q. q \<in> set primetable \<and> int n \<le> q \<longrightarrow> int (hash_nextprime n) \<le> q)"
  using hash_nextprime_least[OF assms] by (auto simp: least_in_table_def)

theorem hash_nextprime_witness:
  "100 \<le> ht_max_sz \<and> int (hash_nextprime 100) \<in> set primetable \<and> 100 \<le> hash_nextprime 100"
  using hash_nextprime_correct[of 100] by (simp add: ht_max_sz_def)

text \<open>
  C7. Every way of walking a table visits each entry exactly once: the iterator, called until it
  answers that there is nothing more, returns the pairs that \<^verbatim>\<open>maphash\<close> passes to its callback;
  no key occurs twice and the pairs are those the lookups find.
\<close>

theorem dk_hash_iteration:
  assumes "ht_ok ht" "ht_fits ht" "length (ht_entries ht) < n"
  shows "hit_run n ht dk_hash_iterator_init = maphash ht \<and> maphash_no_remhash ht = maphash ht \<and>
    hash_list_keys ht = map fst (maphash ht) \<and> distinct (hash_list_keys ht) \<and>
    set (maphash ht) = {(k, d). ht_lookup ht k = Some d}"
proof -
  have s: "ht_struct ht" using assms(1) by (simp add: ht_ok_def)
  have "hit_rest ht dk_hash_iterator_init = ht_entries ht"
    by (simp add: hit_rest_def dk_hash_iterator_init_def ht_entries_def)
  then have "hit_run n ht dk_hash_iterator_init = ht_entries ht"
    using assms(3) hit_run_rest[OF assms(1,2)] by simp
  moreover have "set (ht_entries ht) = {(k, d). ht_lookup ht k = Some d}"
    unfolding ht_lookup_entries[OF s] using ht_entries_distinct[OF s] by auto
  ultimately show ?thesis
    using maphash_entries[OF assms(1,2)] ht_entries_distinct[OF s] by simp
qed

theorem dk_hash_iteration_witness:
  "let ht = \<lparr>ht_elements = [HElt 4 7 [(6, 8)], HASH_EMPTY], ht_count = 2, ht_actual_size = 2,
             ht_rehash_threshold = 10\<rparr> in
   ht_ok ht \<and> ht_fits ht \<and> length (ht_entries ht) < 3 \<and>
   hit_run 3 ht dk_hash_iterator_init = maphash ht \<and> distinct (hash_list_keys ht)"
proof -
  define ht where "ht = \<lparr>ht_elements = [HElt 4 7 [(6, 8)], HASH_EMPTY], ht_count = 2, ht_actual_size = 2,
             ht_rehash_threshold = 10\<rparr>"
  have ok: "ht_ok ht" "ht_fits ht" "length (ht_entries ht) < 3"
    by (auto simp: ht_def ht_ok_def ht_struct_def ht_entries_def ht_fits_def less_2_cases_iff)
  from dk_hash_iteration[OF ok] ok show ?thesis unfolding Let_def ht_def[symmetric] by blast
qed



text \<open>The entries of a list inserted one after the other.\<close>

fun sethash_all :: "(addr \<times> addr) list \<Rightarrow> dk_hash \<Rightarrow> dk_hash option" where
  "sethash_all [] ht = Some ht"
| "sethash_all ((k, d) # kds) ht =
     (case sethash k ht d of None \<Rightarrow> None | Some ht' \<Rightarrow> sethash_all kds ht')"

lemma sethash_all_update_all: "ht_ok ht \<Longrightarrow> sethash_all kds ht = Some (ht.update_all kds ht)"
proof (induction kds ht rule: sethash_all.induct)
  case (2 k d kds ht)
  from sethash_ok[OF "2.prems"] obtain ht' where "sethash k ht d = Some ht'" "ht_ok ht'" by blast
  with 2 show ?case by simp
qed simp

text \<open>
  C9. Any sequence of insertions into a new or a cleared table succeeds, and a lookup then returns
  the datum inserted last under its key, or null when there was none.
\<close>

theorem sethash_all_correct:
  assumes "ht_ok ht" "ht_fits ht"
  shows "\<exists>ht'. sethash_all kds (clrhash ht) = Some ht' \<and> ht_ok ht' \<and>
    gethash k ht' = (case map_of (rev kds) k of None \<Rightarrow> NULL | Some d \<Rightarrow> d)"
  using sethash_all_update_all[OF ht.invar_clear[OF assms(1)]] ht.lookup_after_clear[OF assms]
    ht.invar_update_all[OF ht.invar_clear[OF assms(1)]]
  by (simp add: gethash_lookup)

theorem sethash_all_witness:
  "\<exists>ht'. sethash_all [(1, 5), (2, 6), (1, 7)] (clrhash (hash_table_allocate 1)) = Some ht' \<and>
     gethash 1 ht' = 7"
  using sethash_all_correct[OF hash_table_allocate_ok(1,3), of "[(1, 5), (2, 6), (1, 7)]" 1 1] by auto

end
