(* ===== verification/Dk_L2.thy ===== *)
theory Dk_L2
  imports Prelude
begin

text \<open>
  The doubly linked lists that the macros \<^verbatim>\<open>L2_PUSH\<close>, \<^verbatim>\<open>L2_PUSH_LAST\<close>, \<^verbatim>\<open>L2_DELETE\<close>,
  \<^verbatim>\<open>L2_INSERT\<close> and \<^verbatim>\<open>L2_INSERT_AFTER\<close> of \<^verbatim>\<open>libsrc/Dk/Dkbasket.h\<close> maintain inside the elements
  of a list (the checks compiled under \<^verbatim>\<open>L2_DEBUG\<close> are left out). The state is the pair of
  variables the macros get as \<^verbatim>\<open>first\<close> and \<^verbatim>\<open>last\<close> and the two link fields of every element.
\<close>

record l2 =
  l2_first :: addr
  l2_last :: addr
  l2_next :: "addr \<Rightarrow> addr"
  l2_prev :: "addr \<Rightarrow> addr"

subsection \<open>The macros\<close>

definition L2_PUSH :: "addr \<Rightarrow> l2 \<Rightarrow> l2" where
  "L2_PUSH elt s =
     (let s = s\<lparr>l2_next := (l2_next s)(elt := l2_first s)\<rparr>;
          s = (if l2_first s \<noteq> NULL then s\<lparr>l2_prev := (l2_prev s)(l2_first s := elt)\<rparr> else s);
          s = s\<lparr>l2_prev := (l2_prev s)(elt := NULL)\<rparr>;
          s = (if l2_last s = NULL then s\<lparr>l2_last := elt\<rparr> else s)
      in s\<lparr>l2_first := elt\<rparr>)"

definition L2_PUSH_LAST :: "addr \<Rightarrow> l2 \<Rightarrow> l2" where
  "L2_PUSH_LAST elt s =
     (let s = s\<lparr>l2_prev := (l2_prev s)(elt := l2_last s)\<rparr>;
          s = (if l2_last s \<noteq> NULL then s\<lparr>l2_next := (l2_next s)(l2_last s := elt)\<rparr> else s);
          s = s\<lparr>l2_next := (l2_next s)(elt := NULL)\<rparr>;
          s = (if l2_first s = NULL then s\<lparr>l2_first := elt\<rparr> else s)
      in s\<lparr>l2_last := elt\<rparr>)"

definition L2_DELETE :: "addr \<Rightarrow> l2 \<Rightarrow> l2" where
  "L2_DELETE elt s =
     (let s = (if l2_prev s elt \<noteq> NULL
               then s\<lparr>l2_next := (l2_next s)(l2_prev s elt := l2_next s elt)\<rparr> else s);
          s = (if l2_next s elt \<noteq> NULL
               then s\<lparr>l2_prev := (l2_prev s)(l2_next s elt := l2_prev s elt)\<rparr> else s);
          s = (if elt = l2_first s then s\<lparr>l2_first := l2_next s elt\<rparr> else s);
          s = (if elt = l2_last s then s\<lparr>l2_last := l2_prev s elt\<rparr> else s)
      in s\<lparr>l2_next := (l2_next s)(elt := NULL), l2_prev := (l2_prev s)(elt := NULL)\<rparr>)"

definition L2_INSERT :: "addr \<Rightarrow> addr \<Rightarrow> l2 \<Rightarrow> l2" where
  "L2_INSERT before it s =
     (if before = l2_first s then L2_PUSH it s
      else
        (let s = s\<lparr>l2_prev := (l2_prev s)(it := l2_prev s before)\<rparr>;
             s = s\<lparr>l2_next := (l2_next s)(it := before)\<rparr>;
             s = s\<lparr>l2_next := (l2_next s)(l2_prev s before := it)\<rparr>
         in s\<lparr>l2_prev := (l2_prev s)(before := it)\<rparr>))"

definition L2_INSERT_AFTER :: "addr \<Rightarrow> addr \<Rightarrow> l2 \<Rightarrow> l2" where
  "L2_INSERT_AFTER after it s =
     (if after = NULL then L2_PUSH it s
      else
        (let s = s\<lparr>l2_next := (l2_next s)(it := l2_next s after)\<rparr>;
             s = s\<lparr>l2_prev := (l2_prev s)(it := after)\<rparr>;
             s = s\<lparr>l2_next := (l2_next s)(after := it)\<rparr>
         in if l2_next s it \<noteq> NULL
            then s\<lparr>l2_prev := (l2_prev s)(l2_next s it := it)\<rparr>
            else s\<lparr>l2_last := it\<rparr>))"

subsection \<open>What the links represent\<close>

text \<open>\<open>l2_seg nx pv p xs q\<close>: the elements \<open>xs\<close> are linked both ways, between \<open>p\<close> and \<open>q\<close>.\<close>

fun l2_seg :: "(addr \<Rightarrow> addr) \<Rightarrow> (addr \<Rightarrow> addr) \<Rightarrow> addr \<Rightarrow> addr list \<Rightarrow> addr \<Rightarrow> bool" where
  "l2_seg nx pv p [] q = True"
| "l2_seg nx pv p (x # xs) q = (pv x = p \<and> nx x = hd (xs @ [q]) \<and> l2_seg nx pv x xs q)"

definition l2_list :: "l2 \<Rightarrow> addr list \<Rightarrow> bool" where
  "l2_list s xs \<longleftrightarrow>
     distinct xs \<and> NULL \<notin> set xs \<and> l2_first s = hd (xs @ [NULL]) \<and> l2_last s = last (NULL # xs) \<and>
     l2_seg (l2_next s) (l2_prev s) NULL xs NULL"

lemma l2_seg_append [simp]:
  "l2_seg nx pv p (xs @ ys) q \<longleftrightarrow>
     l2_seg nx pv p xs (hd (ys @ [q])) \<and> l2_seg nx pv (last (p # xs)) ys q"
  by (induction xs arbitrary: p) (auto simp: hd_append split: list.splits)

lemma l2_seg_frame [simp]:
  "u \<notin> set xs \<Longrightarrow> l2_seg (nx(u := v)) pv p xs q = l2_seg nx pv p xs q"
  "u \<notin> set xs \<Longrightarrow> l2_seg nx (pv(u := v)) p xs q = l2_seg nx pv p xs q"
  by (induction xs arbitrary: p) auto

text \<open>Redirecting the link that enters or leaves a segment.\<close>

lemma l2_seg_set_prev:
  "l2_seg nx pv p xs q \<Longrightarrow> distinct xs \<Longrightarrow> l2_seg nx (pv(hd (xs @ [q]) := p')) p' xs q"
  by (cases xs) auto

lemma l2_seg_set_next:
  "l2_seg nx pv p xs q \<Longrightarrow> distinct xs \<Longrightarrow> p \<notin> set xs \<Longrightarrow> l2_seg (nx(last (p # xs) := q')) pv p xs q'"
  by (cases xs rule: rev_cases) auto

lemma l2_list_ends:
  assumes "l2_list s xs"
  shows "l2_first s = NULL \<longleftrightarrow> xs = []" "l2_last s = NULL \<longleftrightarrow> xs = []"
proof -
  show "l2_first s = NULL \<longleftrightarrow> xs = []" using assms by (cases xs) (auto simp: l2_list_def)
  have "last xs \<in> set xs" if "xs \<noteq> []" using that by simp
  then show "l2_last s = NULL \<longleftrightarrow> xs = []" using assms unfolding l2_list_def by (metis last.simps)
qed

lemma L2_PUSH_list:
  assumes "l2_list s xs" "elt \<notin> set xs" "elt \<noteq> NULL"
  shows "l2_list (L2_PUSH elt s) (elt # xs)"
  using assms l2_list_ends[OF assms(1)]
  by (cases xs) (simp_all add: l2_list_def L2_PUSH_def Let_def)

lemma L2_PUSH_LAST_list:
  assumes "l2_list s xs" "elt \<notin> set xs" "elt \<noteq> NULL"
  shows "l2_list (L2_PUSH_LAST elt s) (xs @ [elt])"
  using assms l2_list_ends[OF assms(1)]
  by (cases xs rule: rev_cases) (auto simp: l2_list_def L2_PUSH_LAST_def Let_def hd_append)

lemma L2_DELETE_list:
  assumes "l2_list s (xs @ elt # ys)"
  shows "l2_list (L2_DELETE elt s) (xs @ ys)"
proof (cases xs rule: rev_cases)
  case Nil
  have "ys \<noteq> [] \<Longrightarrow> elt \<noteq> l2_last s"
    using assms last_in_set[of ys] by (auto simp: l2_list_def)
  with Nil assms show ?thesis
    by (cases ys) (auto simp: l2_list_def L2_DELETE_def Let_def)
next
  case (snoc xs' x)
  have ne: "elt \<noteq> l2_first s"
    using assms snoc by (cases xs') (auto simp: l2_list_def)
  show ?thesis
  proof (cases ys)
    case Nil
    with assms snoc ne show ?thesis
      by (auto simp: l2_list_def L2_DELETE_def Let_def hd_append)
  next
    case (Cons y ys')
    then have "elt \<noteq> l2_last s" using assms by (auto simp: l2_list_def)
    with assms snoc ne Cons show ?thesis
      by (auto simp: l2_list_def L2_DELETE_def Let_def hd_append)
  qed
qed

lemma L2_INSERT_list:
  assumes "l2_list s (xs @ before # ys)" "it \<notin> set (xs @ before # ys)" "it \<noteq> NULL"
  shows "l2_list (L2_INSERT before it s) (xs @ it # before # ys)"
proof (cases xs rule: rev_cases)
  case Nil
  then have "before = l2_first s" using assms(1) by (simp add: l2_list_def)
  then show ?thesis using assms Nil L2_PUSH_list[of s "before # ys" it] by (simp add: L2_INSERT_def)
next
  case (snoc xs' x)
  then have "before \<noteq> l2_first s" using assms(1) by (cases xs') (auto simp: l2_list_def)
  then show ?thesis using assms snoc by (auto simp: l2_list_def L2_INSERT_def Let_def hd_append)
qed

lemma L2_INSERT_AFTER_list:
  assumes "l2_list s (xs @ after # ys)" "it \<notin> set (xs @ after # ys)" "it \<noteq> NULL"
  shows "l2_list (L2_INSERT_AFTER after it s) (xs @ after # it # ys)"
  using assms by (cases ys) (auto simp: l2_list_def L2_INSERT_AFTER_def Let_def hd_append)



end
