(* ===== verification/Dk_Basket.thy ===== *)
theory Dk_Basket
  imports Interfaces Dk_Sets "HOL-Library.Monad_Syntax"
begin

text \<open>
  The baskets of \<^verbatim>\<open>libsrc/Dk/Dkbasket.c\<close>: first-in first-out queues of tokens, kept as circular
  doubly linked lists (the macros of \<^verbatim>\<open>libsrc/util/listmac.h\<close>) on an explicit store. A header
  cell holds the number of tokens where the other cells hold their token (the union
  \<^verbatim>\<open>bsk_data\<close>). A null pointer is the token 0. \<open>None\<close> is a crash or a loop without end; the cell
  an allocation returns, with the contents it happens to have, is an argument.
\<close>

record basket =
  bsk_next :: addr
  bsk_prev :: addr
  bsk_data :: int

type_synonym bstore = "addr \<rightharpoonup> basket"

subsection \<open>Operations\<close>

definition set_next :: "addr \<Rightarrow> addr \<Rightarrow> bstore \<Rightarrow> bstore option" where
  "set_next a v h = do { c \<leftarrow> h a; Some (h(a \<mapsto> c\<lparr>bsk_next := v\<rparr>)) }"

definition set_prev :: "addr \<Rightarrow> addr \<Rightarrow> bstore \<Rightarrow> bstore option" where
  "set_prev a v h = do { c \<leftarrow> h a; Some (h(a \<mapsto> c\<lparr>bsk_prev := v\<rparr>)) }"

definition set_data :: "addr \<Rightarrow> int \<Rightarrow> bstore \<Rightarrow> bstore option" where
  "set_data a v h = do { c \<leftarrow> h a; Some (h(a \<mapsto> c\<lparr>bsk_data := v\<rparr>)) }"

definition LISTINIT :: "addr \<Rightarrow> bstore \<Rightarrow> bstore option" where
  "LISTINIT e h = do { h \<leftarrow> set_prev e e h; set_next e e h }"

definition LISTPUTBEFORE :: "addr \<Rightarrow> addr \<Rightarrow> bstore \<Rightarrow> bstore option" where
  "LISTPUTBEFORE e n h =
     do { c \<leftarrow> h e; h \<leftarrow> set_prev n (bsk_prev c) h;
          h \<leftarrow> set_next n e h;
          c \<leftarrow> h e; h \<leftarrow> set_next (bsk_prev c) n h;
          set_prev e n h }"

definition LISTDELETE :: "addr \<Rightarrow> bstore \<Rightarrow> bstore option" where
  "LISTDELETE e h =
     do { c \<leftarrow> h e; h \<leftarrow> set_prev (bsk_next c) (bsk_prev c) h;
          c \<leftarrow> h e; h \<leftarrow> set_next (bsk_prev c) (bsk_next c) h;
          h \<leftarrow> set_next e e h;
          set_prev e e h }"

definition basket_init :: "addr \<Rightarrow> bstore \<Rightarrow> bstore option" where
  "basket_init bsk h = do { h \<leftarrow> LISTINIT bsk h; set_data bsk 0 h }"

definition basket_add :: "addr \<times> basket \<Rightarrow> addr \<Rightarrow> int \<Rightarrow> bstore \<Rightarrow> bstore option" where
  "basket_add nw bsk token h =
     do { let newn = fst nw; let h = h(newn \<mapsto> snd nw);
          c \<leftarrow> h bsk;
          h \<leftarrow> (if bsk_data c = 0 then basket_init bsk h else Some h);
          h \<leftarrow> set_data newn token h;
          h \<leftarrow> LISTPUTBEFORE bsk newn h;
          c \<leftarrow> h bsk;
          set_data bsk (bsk_data c + 1) h }"

definition mp_basket_add :: "addr \<times> basket \<Rightarrow> addr \<Rightarrow> int \<Rightarrow> bstore \<Rightarrow> bstore option" where
  "mp_basket_add nw bsk token h =
     do { let newn = fst nw; let h = h(newn \<mapsto> snd nw);
          c \<leftarrow> h bsk;
          h \<leftarrow> (if bsk_data c = 0 then basket_init bsk h else Some h);
          h \<leftarrow> set_data newn token h;
          h \<leftarrow> LISTPUTBEFORE bsk newn h;
          c \<leftarrow> h bsk;
          set_data bsk (bsk_data c + 1) h }"

definition basket_peek :: "addr \<Rightarrow> bstore \<Rightarrow> int option" where
  "basket_peek bsk h =
     do { c \<leftarrow> h bsk;
          if bsk_data c = 0 then Some 0
          else do { d \<leftarrow> h (bsk_next c); Some (bsk_data d) } }"

definition basket_get :: "addr \<Rightarrow> bstore \<Rightarrow> (bstore \<times> int) option" where
  "basket_get bsk h =
     do { c \<leftarrow> h bsk;
          if bsk_data c = 0 then Some (h, 0)
          else
            do { h \<leftarrow> set_data bsk (bsk_data c - 1) h;
                 c \<leftarrow> h bsk; let bsk = bsk_next c;
                 h \<leftarrow> LISTDELETE bsk h;
                 c \<leftarrow> h bsk; let data = bsk_data c;
                 Some (h(bsk := None), data) } }"

definition basket_first :: "addr \<Rightarrow> bstore \<Rightarrow> int option" where
  "basket_first bsk h =
     do { c \<leftarrow> h bsk;
          if bsk_data c = 0 then Some 0
          else do { d \<leftarrow> h (bsk_next c); Some (bsk_data d) } }"

definition mp_basket_get :: "addr \<Rightarrow> bstore \<Rightarrow> (bstore \<times> int) option" where
  "mp_basket_get bsk h =
     do { c \<leftarrow> h bsk;
          if bsk_data c = 0 then Some (h, 0)
          else
            do { h \<leftarrow> set_data bsk (bsk_data c - 1) h;
                 c \<leftarrow> h bsk; let bsk = bsk_next c;
                 h \<leftarrow> LISTDELETE bsk h;
                 c \<leftarrow> h bsk; let data = bsk_data c;
                 Some (h, data) } }"

definition basket_is_empty :: "addr \<Rightarrow> bstore \<Rightarrow> bool option" where
  "basket_is_empty bsk h = do { c \<leftarrow> h bsk; Some (bsk_data c = 0) }"

text \<open>
  \<^verbatim>\<open>basket_remove_if\<close>: the first loop empties the basket into the list \<open>tmp\<close> (on a store of list
  cells of its own), the second one adds what \<open>tmp\<close> holds again. \<open>tn\<close> and \<open>bn\<close> are what the
  allocations of list cells and of basket cells return.
\<close>

partial_function (option) basket_remove_if_loop ::
  "addr \<Rightarrow> (int \<Rightarrow> bool) \<Rightarrow> addr list \<Rightarrow> bstore \<Rightarrow> int store \<Rightarrow> addr \<Rightarrow> bool \<Rightarrow> int \<Rightarrow>
     (bstore \<times> int store \<times> addr \<times> int) option" where
  "basket_remove_if_loop bsk f tn h s tmp found remd =
     do { r \<leftarrow> basket_get bsk h;
          let h = fst r; let elt = snd r;
          if elt = 0 then Some (h, s, tmp, remd)
          else if \<not> found \<and> f elt then basket_remove_if_loop bsk f tn h s tmp True elt
          else (case tn of
                  [] \<Rightarrow> None
                | n # tn \<Rightarrow>
                    (case dk_set_push n s tmp elt of (s, tmp) \<Rightarrow>
                       basket_remove_if_loop bsk f tn h s tmp found remd)) }"

partial_function (option) basket_add_set ::
  "addr \<Rightarrow> (addr \<times> basket) list \<Rightarrow> int store \<Rightarrow> addr \<Rightarrow> bstore \<Rightarrow> bstore option" where
  "basket_add_set bsk bn s iter h =
     (if iter = NULL then Some h
      else
        do { nd \<leftarrow> s iter;
             (case bn of
                [] \<Rightarrow> None
              | n # bn \<Rightarrow>
                  do { h \<leftarrow> basket_add n bsk (s_data nd) h;
                       basket_add_set bsk bn s (s_next nd) h }) })"

definition basket_remove_if ::
  "addr list \<Rightarrow> (addr \<times> basket) list \<Rightarrow> addr \<Rightarrow> (int \<Rightarrow> bool) \<Rightarrow> bstore \<Rightarrow> int store \<Rightarrow>
     (bstore \<times> int store \<times> int) option" where
  "basket_remove_if tn bn bsk f h s =
     do { (h, s, tmp, remd) \<leftarrow> basket_remove_if_loop bsk f tn h s NULL False 0;
          (s, _) \<leftarrow> dk_set_nreverse s tmp;
          h \<leftarrow> basket_add_set bsk bn s tmp h;
          s \<leftarrow> dk_set_free s tmp;
          Some (h, s, remd) }"

subsection \<open>What a basket represents\<close>

definition nf :: "bstore \<Rightarrow> addr \<Rightarrow> addr" where
  "nf h a = (case h a of None \<Rightarrow> NULL | Some c \<Rightarrow> bsk_next c)"

definition pf :: "bstore \<Rightarrow> addr \<Rightarrow> addr" where
  "pf h a = (case h a of None \<Rightarrow> NULL | Some c \<Rightarrow> bsk_prev c)"

definition dt :: "bstore \<Rightarrow> addr \<Rightarrow> int" where
  "dt h a = (case h a of None \<Rightarrow> 0 | Some c \<Rightarrow> bsk_data c)"

lemma fields_upd [simp]:
  "nf (h(a \<mapsto> c)) = (nf h)(a := bsk_next c)"
  "pf (h(a \<mapsto> c)) = (pf h)(a := bsk_prev c)"
  "dt (h(a \<mapsto> c)) = (dt h)(a := bsk_data c)"
  "nf (h(a := None)) = (nf h)(a := NULL)"
  "pf (h(a := None)) = (pf h)(a := NULL)"
  "dt (h(a := None)) = (dt h)(a := 0)"
  by (auto simp: nf_def pf_def dt_def fun_eq_iff)

lemma cell_fields: "h a = Some c \<Longrightarrow> bsk_next c = nf h a \<and> bsk_prev c = pf h a \<and> bsk_data c = dt h a"
  by (simp add: nf_def pf_def dt_def)

text \<open>Consecutive cells of a path point at each other.\<close>

fun links :: "(addr \<Rightarrow> addr) \<Rightarrow> (addr \<Rightarrow> addr) \<Rightarrow> addr list \<Rightarrow> bool" where
  "links nx pv (a # b # xs) = (nx a = b \<and> pv b = a \<and> links nx pv (b # xs))"
| "links nx pv xs = True"

lemma links_append: "links nx pv (xs @ a # ys) \<longleftrightarrow> links nx pv (xs @ [a]) \<and> links nx pv (a # ys)"
  by (induction nx pv xs rule: links.induct) auto

lemma links_next: "u \<notin> set (butlast xs) \<Longrightarrow> links (nx(u := v)) pv xs = links nx pv xs"
  by (induction nx pv xs rule: links.induct) auto

lemma links_prev: "u \<notin> set (tl xs) \<Longrightarrow> links nx (pv(u := v)) xs = links nx pv xs"
  by (induction nx pv xs rule: links.induct) auto

text \<open>
  \<open>bsk_rep h b as\<close>: the header \<open>b\<close> counts the cells \<open>as\<close>, and they form a ring with it when there
  are any (an empty basket may have its links unset, \<^verbatim>\<open>basket_add\<close> sets them).
\<close>

definition bsk_rep :: "bstore \<Rightarrow> addr \<Rightarrow> addr list \<Rightarrow> bool" where
  "bsk_rep h b as \<longleftrightarrow>
     distinct (b # as) \<and> set (b # as) \<subseteq> dom h \<and> dt h b = int (length as) \<and>
     (as \<noteq> [] \<longrightarrow> links (nf h) (pf h) (b # as @ [b]))"

definition bsk_tokens :: "bstore \<Rightarrow> addr list \<Rightarrow> int list" where
  "bsk_tokens h as = map (dt h) as"

text \<open>Every primitive succeeds on a cell in use; its effect on the three fields.\<close>

lemma field_sets:
  assumes "a \<in> dom h"
  shows "\<exists>h'. set_next a v h = Some h' \<and> nf h' = (nf h)(a := v) \<and> pf h' = pf h \<and> dt h' = dt h \<and> dom h' = dom h"
    and "\<exists>h'. set_prev a v h = Some h' \<and> nf h' = nf h \<and> pf h' = (pf h)(a := v) \<and> dt h' = dt h \<and> dom h' = dom h"
    and "\<exists>h'. set_data a w h = Some h' \<and> nf h' = nf h \<and> pf h' = pf h \<and> dt h' = (dt h)(a := w) \<and> dom h' = dom h"
proof -
  obtain c where c: "h a = Some c" using assms by blast
  note f = cell_fields[of h a c, OF c]
  show "\<exists>h'. set_next a v h = Some h' \<and> nf h' = (nf h)(a := v) \<and> pf h' = pf h \<and> dt h' = dt h \<and> dom h' = dom h"
    using c f assms by (simp add: set_next_def insert_absorb)
  show "\<exists>h'. set_prev a v h = Some h' \<and> nf h' = nf h \<and> pf h' = (pf h)(a := v) \<and> dt h' = dt h \<and> dom h' = dom h"
    using c f assms by (simp add: set_prev_def insert_absorb)
  show "\<exists>h'. set_data a w h = Some h' \<and> nf h' = nf h \<and> pf h' = pf h \<and> dt h' = (dt h)(a := w) \<and> dom h' = dom h"
    using c f assms by (simp add: set_data_def insert_absorb)
qed

lemma read_cell: "a \<in> dom h \<Longrightarrow> \<exists>c. h a = Some c \<and> bsk_next c = nf h a \<and> bsk_prev c = pf h a \<and> bsk_data c = dt h a"
  using cell_fields by blast

lemma LISTPUTBEFORE_ok:
  assumes "e \<in> dom h" "n \<in> dom h" "pf h e \<in> dom h" "n \<noteq> e"
  shows "\<exists>h'. LISTPUTBEFORE e n h = Some h' \<and> nf h' = (nf h)(n := e, pf h e := n) \<and>
    pf h' = (pf h)(n := pf h e, e := n) \<and> dt h' = dt h \<and> dom h' = dom h"
proof -
  obtain c where c: "h e = Some c" "bsk_prev c = pf h e" using read_cell[OF assms(1)] by blast
  obtain h1 where h1: "set_prev n (pf h e) h = Some h1" "nf h1 = nf h" "pf h1 = (pf h)(n := pf h e)"
      "dt h1 = dt h" "dom h1 = dom h" using field_sets(2)[OF assms(2)] by blast
  obtain h2 where h2: "set_next n e h1 = Some h2" "nf h2 = (nf h1)(n := e)" "pf h2 = pf h1"
      "dt h2 = dt h1" "dom h2 = dom h1" using field_sets(1)[of n h1] assms(2) h1(5) by blast
  obtain c2 where c2: "h2 e = Some c2" "bsk_prev c2 = pf h2 e"
    using read_cell[of e h2] assms(1) h1(5) h2(5) by blast
  have p2: "pf h2 e = pf h e" using assms(4) h1(3) h2(3) by simp
  obtain h3 where h3: "set_next (pf h e) n h2 = Some h3" "nf h3 = (nf h2)(pf h e := n)" "pf h3 = pf h2"
      "dt h3 = dt h2" "dom h3 = dom h2" using field_sets(1)[of "pf h e" h2] assms(3) h1(5) h2(5) by blast
  obtain h4 where h4: "set_prev e n h3 = Some h4" "nf h4 = nf h3" "pf h4 = (pf h3)(e := n)"
      "dt h4 = dt h3" "dom h4 = dom h3" using field_sets(2)[of e h3] assms(1) h1(5) h2(5) h3(5) by blast
  show ?thesis
    using c c2 p2 h1 h2 h3 h4 by (simp add: LISTPUTBEFORE_def)
qed

lemma LISTDELETE_ok:
  assumes "e \<in> dom h" "nf h e \<in> dom h" "pf h e \<in> dom h" "e \<noteq> nf h e" "e \<noteq> pf h e"
  shows "\<exists>h'. LISTDELETE e h = Some h' \<and> nf h' = (nf h)(pf h e := nf h e, e := e) \<and>
    pf h' = (pf h)(nf h e := pf h e, e := e) \<and> dt h' = dt h \<and> dom h' = dom h"
proof -
  obtain c where c: "h e = Some c" "bsk_next c = nf h e" "bsk_prev c = pf h e"
    using read_cell[OF assms(1)] by blast
  obtain h1 where h1: "set_prev (nf h e) (pf h e) h = Some h1" "nf h1 = nf h"
      "pf h1 = (pf h)(nf h e := pf h e)" "dt h1 = dt h" "dom h1 = dom h"
    using field_sets(2)[OF assms(2)] by blast
  obtain c1 where c1: "h1 e = Some c1" "bsk_next c1 = nf h e" "bsk_prev c1 = pf h e"
    using read_cell[of e h1] assms(1,4) h1 by auto
  obtain h2 where h2: "set_next (pf h e) (nf h e) h1 = Some h2" "nf h2 = (nf h1)(pf h e := nf h e)"
      "pf h2 = pf h1" "dt h2 = dt h1" "dom h2 = dom h1"
    using field_sets(1)[of "pf h e" h1] assms(3) h1(5) by blast
  obtain h3 where h3: "set_next e e h2 = Some h3" "nf h3 = (nf h2)(e := e)" "pf h3 = pf h2"
      "dt h3 = dt h2" "dom h3 = dom h2" using field_sets(1)[of e h2] assms(1) h1(5) h2(5) by blast
  obtain h4 where h4: "set_prev e e h3 = Some h4" "nf h4 = nf h3" "pf h4 = (pf h3)(e := e)"
      "dt h4 = dt h3" "dom h4 = dom h3" using field_sets(2)[of e h3] assms(1) h1(5) h2(5) h3(5) by blast
  show ?thesis using c c1 h1 h2 h3 h4 by (simp add: LISTDELETE_def)
qed

lemma basket_init_ok:
  assumes "b \<in> dom h"
  shows "\<exists>h'. basket_init b h = Some h' \<and> nf h' = (nf h)(b := b) \<and> pf h' = (pf h)(b := b) \<and>
    dt h' = (dt h)(b := 0) \<and> dom h' = dom h"
proof -
  obtain h1 where h1: "set_prev b b h = Some h1" "nf h1 = nf h" "pf h1 = (pf h)(b := b)"
      "dt h1 = dt h" "dom h1 = dom h" using field_sets(2)[OF assms] by blast
  obtain h2 where h2: "set_next b b h1 = Some h2" "nf h2 = (nf h1)(b := b)" "pf h2 = pf h1"
      "dt h2 = dt h1" "dom h2 = dom h1" using field_sets(1)[of b h1] assms h1(5) by blast
  obtain h3 where h3: "set_data b 0 h2 = Some h3" "nf h3 = nf h2" "pf h3 = pf h2"
      "dt h3 = (dt h2)(b := 0)" "dom h3 = dom h2" using field_sets(3)[of b h2] assms h1(5) h2(5) by blast
  show ?thesis using h1 h2 h3 by (simp add: basket_init_def LISTINIT_def)
qed

lemma dom_fields: "a \<notin> dom h \<Longrightarrow> nf h a = NULL \<and> pf h a = NULL \<and> dt h a = 0"
  by (auto simp: nf_def pf_def dt_def)

text \<open>The cells of a basket when the links are set: the last one precedes the header.\<close>

lemma ring_last:
  assumes "links nx pv (b # as @ [b])"
  shows "nx (last (b # as)) = b" "pv b = last (b # as)" "links nx pv (b # as)"
proof -
  have "b # as @ [b] = butlast (b # as) @ last (b # as) # [b]"
    by (cases as rule: rev_cases) simp_all
  with assms have "links nx pv (butlast (b # as) @ last (b # as) # [b])" by simp
  then have "links nx pv (butlast (b # as) @ [last (b # as)])" "links nx pv [last (b # as), b]"
    using links_append by blast+
  then show "nx (last (b # as)) = b" "pv b = last (b # as)" "links nx pv (b # as)"
    by (simp_all only: append_butlast_last_id list.distinct links.simps simp_thms)
qed

lemma basket_put_ok:
  assumes "distinct (b # as)" "set (b # as) \<subseteq> dom h" "links (nf h) (pf h) (b # as @ [b])"
    and "n \<notin> set (b # as)" "n \<in> dom h"
  shows "\<exists>h'. LISTPUTBEFORE b n h = Some h' \<and> links (nf h') (pf h') (b # (as @ [n]) @ [b]) \<and>
    dt h' = dt h \<and> dom h' = dom h"
proof -
  define l where "l = last (b # as)"
  note r = ring_last[OF assms(3), folded l_def]
  have l: "l \<in> set (b # as)" unfolding l_def by (rule last_in_set) simp
  then have "pf h b \<in> dom h" "n \<noteq> l" using assms(2,4) r(2) by auto
  then obtain h' where h': "LISTPUTBEFORE b n h = Some h'" "nf h' = (nf h)(n := b, l := n)"
      "pf h' = (pf h)(n := l, b := n)" "dt h' = dt h" "dom h' = dom h"
    using LISTPUTBEFORE_ok[of b h n] assms(2,4,5) r(2) by auto
  have bl: "l \<notin> set (butlast (b # as))"
    using assms(1) by (cases as rule: rev_cases) (simp_all add: l_def butlast_append)
  have "links (nf h') (pf h') (b # as)"
  proof -
    have "n \<notin> set (butlast (b # as))" using assms(4) in_set_butlastD by metis
    moreover have "n \<notin> set (tl (b # as))" "b \<notin> set (tl (b # as))" using assms(1,4) by auto
    ultimately show ?thesis
      unfolding h'(2,3) using r(3) by (simp only: links_next[OF bl] links_next links_prev simp_thms)
  qed
  moreover have "links (nf h') (pf h') [l, n, b]"
    using h'(2,3) \<open>n \<noteq> l\<close> assms(4) by auto
  moreover have bk: "butlast (b # as) @ [l] = b # as" unfolding l_def by (rule append_butlast_last_id) simp
  ultimately have "links (nf h') (pf h') (butlast (b # as) @ l # [n, b])"
    using links_append[of "nf h'" "pf h'" "butlast (b # as)" l "[n, b]"] by (simp only:)
  moreover have "butlast (b # as) @ l # [n, b] = b # (as @ [n]) @ [b]"
    using bk by (simp only: append_Cons[symmetric] append_Nil[symmetric] append_assoc[symmetric]) simp
  ultimately have "links (nf h') (pf h') (b # (as @ [n]) @ [b])" by (simp only:)
  then show ?thesis using h' by blast
qed

lemma basket_add_ok:
  assumes "bsk_rep h b as" "h n = None"
  shows "\<exists>h'. basket_add (n, nc) b t h = Some h' \<and> bsk_rep h' b (as @ [n]) \<and>
    bsk_tokens h' (as @ [n]) = bsk_tokens h as @ [t] \<and> dom h' = insert n (dom h)"
proof -
  have r: "distinct (b # as)" "set (b # as) \<subseteq> dom h" "dt h b = int (length as)"
      "as \<noteq> [] \<Longrightarrow> links (nf h) (pf h) (b # as @ [b])"
    using assms(1) unfolding bsk_rep_def by blast+
  have n: "n \<notin> set (b # as)" using r(2) assms(2) by blast
  define h0 where "h0 = h(n \<mapsto> nc)"
  have h0: "nf h0 = (nf h)(n := bsk_next nc)" "pf h0 = (pf h)(n := bsk_prev nc)"
    "dt h0 = (dt h)(n := bsk_data nc)" "dom h0 = insert n (dom h)" by (simp_all add: h0_def)
  obtain c where c: "h0 b = Some c" "bsk_data c = dt h b"
    using read_cell[of b h0] r(2) h0(3,4) n by auto
  have "\<exists>h1. (if bsk_data c = 0 then basket_init b h0 else Some h0) = Some h1 \<and>
      links (nf h1) (pf h1) (b # as @ [b]) \<and> dt h1 = dt h0 \<and> dom h1 = dom h0"
  proof (cases as)
    case Nil
    then show ?thesis using basket_init_ok[of b h0] c r(2,3) h0 n by (auto simp: fun_upd_idem)
  next
    case (Cons x xs)
    then have "links (nf h0) (pf h0) (b # as @ [b])"
      using r(4) n unfolding h0(1,2)
      by (simp add: links_next links_prev butlast_append del: links.simps)
    then show ?thesis using c r(3) Cons by simp
  qed
  then obtain h1 where h1: "(if bsk_data c = 0 then basket_init b h0 else Some h0) = Some h1"
      "links (nf h1) (pf h1) (b # as @ [b])" "dt h1 = dt h0" "dom h1 = dom h0" by blast
  obtain h2 where h2: "set_data n t h1 = Some h2" "nf h2 = nf h1" "pf h2 = pf h1"
      "dt h2 = (dt h1)(n := t)" "dom h2 = dom h1" using field_sets(3)[of n h1] h1(4) h0(4) by blast
  have sub: "set (b # as) \<subseteq> dom h2" "n \<in> dom h2" using r(2) h2(5) h1(4) h0(4) by auto
  obtain h3 where h3: "LISTPUTBEFORE b n h2 = Some h3" "links (nf h3) (pf h3) (b # (as @ [n]) @ [b])"
      "dt h3 = dt h2" "dom h3 = dom h2"
    using basket_put_ok[OF r(1) sub(1) _ n sub(2)] h1(2) h2(2,3) by auto
  obtain c3 where c3: "h3 b = Some c3" "bsk_data c3 = dt h3 b"
    using read_cell[of b h3] sub(1) h3(4) by auto
  obtain h4 where h4: "set_data b (dt h3 b + 1) h3 = Some h4" "nf h4 = nf h3" "pf h4 = pf h3"
      "dt h4 = (dt h3)(b := dt h3 b + 1)" "dom h4 = dom h3"
    using field_sets(3)[of b h3 "dt h3 b + 1"] sub(1) h3(4) by (metis list.set_intros(1) subsetD)
  have "basket_add (n, nc) b t h = Some h4"
    unfolding basket_add_def Let_def fst_conv snd_conv h0_def[symmetric]
    using c h1(1) h2(1) h3(1) c3 h4(1) by simp
  moreover have d: "dt h4 = (dt h)(n := t, b := int (length as) + 1)"
    using h4(4) h3(3) h2(4) h1(3) h0(3) r(3) n by (auto simp: fun_eq_iff)
  moreover have dm: "dom h4 = insert n (dom h)" using h4(5) h3(4) h2(5) h1(4) h0(4) by simp
  moreover have "bsk_rep h4 b (as @ [n])"
    unfolding bsk_rep_def dm d using r(1,2) n h3(2) h4(2,3) by auto
  moreover have "bsk_tokens h4 (as @ [n]) = bsk_tokens h as @ [t]"
    using n r(1) unfolding bsk_tokens_def d by (auto intro!: map_cong)
  ultimately show ?thesis by blast
qed

lemma basket_get_empty:
  assumes "bsk_rep h b []"
  shows "basket_get b h = Some (h, 0)"
proof -
  have "b \<in> dom h" "dt h b = 0" using assms by (auto simp: bsk_rep_def)
  then obtain c where "h b = Some c" "bsk_data c = 0" using read_cell by fastforce
  then show ?thesis by (simp add: basket_get_def)
qed

text \<open>Unlinking the first cell.\<close>

lemma basket_unlink_ok:
  assumes "distinct (b # a # as)" "set (b # a # as) \<subseteq> dom h" "links (nf h) (pf h) (b # (a # as) @ [b])"
  shows "\<exists>h'. LISTDELETE a h = Some h' \<and> links (nf h') (pf h') (b # as @ [b]) \<and>
    dt h' = dt h \<and> dom h' = dom h"
proof -
  define x where "x = hd (as @ [b])"
  have l: "nf h b = a" "pf h a = b" "links (nf h) (pf h) (a # as @ [b])" using assms(3) by simp_all
  have x: "nf h a = x" "pf h x = a" "links (nf h) (pf h) (as @ [b])" "x \<in> set (b # as)" "a \<noteq> x"
    using l(3) assms(1) by (cases as; simp add: x_def)+
  have d: "a \<in> dom h" "b \<in> dom h" "x \<in> dom h" "a \<noteq> b" using assms(1,2) x(4) by auto
  obtain h' where h': "LISTDELETE a h = Some h'" "nf h' = (nf h)(b := x, a := a)"
      "pf h' = (pf h)(x := b, a := a)" "dt h' = dt h" "dom h' = dom h"
    using LISTDELETE_ok[of a h, unfolded l(2) x(1), OF d(1,3,2) x(5) d(4)] by blast
  have "links (nf h') (pf h') (as @ [b])"
  proof -
    have "b \<notin> set (butlast (as @ [b]))" "a \<notin> set (butlast (as @ [b]))" using assms(1) by auto
    moreover have "x \<notin> set (tl (as @ [b]))" "a \<notin> set (tl (as @ [b]))"
      using assms(1) by (cases as; simp add: x_def)+
    ultimately show ?thesis
      unfolding h'(2,3) using x(3) by (simp only: links_next links_prev simp_thms)
  qed
  moreover have "nf h' b = x" "pf h' x = b" using h'(2,3) assms(1) x(5) by auto
  ultimately have "links (nf h') (pf h') (b # as @ [b])" by (cases as) (simp_all add: x_def)
  then show ?thesis using h' by blast
qed

lemma basket_get_ok:
  assumes "bsk_rep h b (a # as)"
  shows "\<exists>h'. basket_get b h = Some (h', dt h a) \<and> bsk_rep h' b as \<and>
    bsk_tokens h' as = bsk_tokens h as \<and> dom h' = dom h - {a}"
proof -
  have r: "distinct (b # a # as)" "set (b # a # as) \<subseteq> dom h" "dt h b = int (length as) + 1"
      "links (nf h) (pf h) (b # (a # as) @ [b])"
    using assms unfolding bsk_rep_def by simp_all
  obtain c where c: "h b = Some c" "bsk_data c = dt h b" using read_cell[of b h] r(2) by auto
  obtain h1 where h1: "set_data b (dt h b - 1) h = Some h1" "nf h1 = nf h" "pf h1 = pf h"
      "dt h1 = (dt h)(b := dt h b - 1)" "dom h1 = dom h"
    using field_sets(3)[of b h "dt h b - 1"] c(1) by blast
  obtain c1 where c1: "h1 b = Some c1" "bsk_next c1 = a"
    using read_cell[of b h1] r(2,4) h1(2,5) by auto
  obtain h2 where h2: "LISTDELETE a h1 = Some h2" "links (nf h2) (pf h2) (b # as @ [b])"
      "dt h2 = dt h1" "dom h2 = dom h1"
    using basket_unlink_ok[OF r(1), of h1] r(2,4) h1(2,3,5) by auto
  obtain c2 where c2: "h2 a = Some c2" "bsk_data c2 = dt h a"
    using read_cell[of a h2] r(1,2) h1(4,5) h2(3,4) by auto
  define h3 where "h3 = h2(a := None)"
  have "basket_get b h = Some (h3, dt h a)"
    unfolding basket_get_def Let_def using c h1(1) c1 h2(1) c2 r(3) by (simp add: h3_def)
  moreover have d: "dt h3 = (dt h)(b := int (length as), a := 0)"
    using h2(3) h1(4) r(3) by (simp add: h3_def)
  moreover have dm: "dom h3 = dom h - {a}" using h2(4) h1(5) by (simp add: h3_def)
  moreover have "links (nf h3) (pf h3) (b # as @ [b])"
  proof -
    have "a \<notin> set (butlast (b # as @ [b]))" "a \<notin> set (tl (b # as @ [b]))"
      using r(1) by (auto dest: in_set_butlastD)
    then show ?thesis
      using h2(2) unfolding h3_def fields_upd by (simp only: links_next links_prev simp_thms)
  qed
  moreover have "bsk_tokens h3 as = bsk_tokens h as"
    using r(1) unfolding bsk_tokens_def d by auto
  moreover have "bsk_rep h3 b as"
    unfolding bsk_rep_def dm d using r(1,2) \<open>links (nf h3) (pf h3) (b # as @ [b])\<close> by auto
  ultimately show ?thesis by blast
qed

lemma basket_peek_ok:
  assumes "bsk_rep h b as"
  shows "basket_peek b h = Some (case as of [] \<Rightarrow> 0 | a # _ \<Rightarrow> dt h a)"
    "basket_first b h = Some (case as of [] \<Rightarrow> 0 | a # _ \<Rightarrow> dt h a)"
    "basket_is_empty b h = Some (as = [])"
proof -
  have b: "b \<in> dom h" "dt h b = int (length as)" using assms by (auto simp: bsk_rep_def)
  then obtain c where c: "h b = Some c" "bsk_data c = int (length as)" "bsk_next c = nf h b"
    using read_cell[of b h] by auto
  have "h a = Some d \<Longrightarrow> bsk_data d = dt h a" for a d by (simp add: dt_def)
  moreover have "nf h b = hd as \<and> hd as \<in> dom h" if "as \<noteq> []"
    using assms that by (cases as) (auto simp: bsk_rep_def)
  ultimately show "basket_peek b h = Some (case as of [] \<Rightarrow> 0 | a # _ \<Rightarrow> dt h a)"
    "basket_first b h = Some (case as of [] \<Rightarrow> 0 | a # _ \<Rightarrow> dt h a)"
    using c by (cases as; fastforce simp: basket_peek_def basket_first_def)+
  show "basket_is_empty b h = Some (as = [])" using c by (simp add: basket_is_empty_def)
qed

text \<open>The tokens of a basket, read off the store.\<close>

fun bsk_walk :: "bstore \<Rightarrow> addr \<Rightarrow> nat \<Rightarrow> int list" where
  "bsk_walk h a 0 = []"
| "bsk_walk h a (Suc k) = dt h a # bsk_walk h (nf h a) k"

definition bsk_contents :: "bstore \<times> addr \<Rightarrow> int list" where
  "bsk_contents q = (case q of (h, b) \<Rightarrow> bsk_walk h (nf h b) (nat (dt h b)))"

definition bsk_invar :: "bstore \<times> addr \<Rightarrow> bool" where
  "bsk_invar q \<longleftrightarrow> (case q of (h, b) \<Rightarrow> \<exists>as. bsk_rep h b as \<and> 0 \<notin> set (bsk_tokens h as))"

lemma bsk_walk_links: "links (nf h) (pf h) (p # as @ [q]) \<Longrightarrow> bsk_walk h (nf h p) (length as) = map (dt h) as"
  by (induction as arbitrary: p) auto

lemma bsk_contents_rep: "bsk_rep h b as \<Longrightarrow> bsk_contents (h, b) = bsk_tokens h as"
  using bsk_walk_links[of h b as b] by (cases "as = []") (simp_all add: bsk_contents_def bsk_rep_def bsk_tokens_def)

text \<open>A basket as a queue; a null pointer from \<^verbatim>\<open>basket_get\<close> means that there was nothing.\<close>

definition bsk_enq :: "addr \<times> basket \<Rightarrow> int \<Rightarrow> bstore \<times> addr \<Rightarrow> bstore \<times> addr" where
  "bsk_enq n x q = (case q of (h, b) \<Rightarrow> (the (basket_add n b x h), b))"

definition bsk_deq :: "bstore \<times> addr \<Rightarrow> (int \<times> bstore \<times> addr) option" where
  "bsk_deq q =
     (case q of (h, b) \<Rightarrow>
        (case basket_get b h of
           None \<Rightarrow> None
         | Some (h', t) \<Rightarrow> if t = 0 then None else Some (t, h', b)))"

lemma bsk_deq_rep:
  assumes "bsk_rep h b as" "0 \<notin> set (bsk_tokens h as)"
  shows "(as = [] \<longrightarrow> bsk_deq (h, b) = None) \<and>
    (\<forall>a as'. as = a # as' \<longrightarrow> (\<exists>h'. bsk_deq (h, b) = Some (dt h a, h', b) \<and> bsk_rep h' b as' \<and>
       bsk_tokens h' as' = bsk_tokens h as'))"
proof (cases as)
  case Nil
  then show ?thesis using basket_get_empty[of h b] assms(1) by (simp add: bsk_deq_def)
next
  case (Cons a as')
  then obtain h' where "basket_get b h = Some (h', dt h a)" "bsk_rep h' b as'"
      "bsk_tokens h' as' = bsk_tokens h as'"
    using basket_get_ok[of h b a as'] assms(1) by blast
  then show ?thesis using Cons assms(2) by (simp add: bsk_deq_def bsk_tokens_def)
qed

interpretation bq: fifo_queue bsk_enq bsk_deq bsk_contents bsk_invar
  "\<lambda>n q. fst q (fst n) = None" "\<lambda>x. x \<noteq> 0"
proof
  fix q :: "bstore \<times> addr" and n :: "addr \<times> basket" and x :: int
  assume i: "bsk_invar q" and f: "fst q (fst n) = None" and x: "x \<noteq> 0"
  obtain h b where q: "q = (h, b)" by fastforce
  obtain as where as: "bsk_rep h b as" "0 \<notin> set (bsk_tokens h as)" using i q by (auto simp: bsk_invar_def)
  obtain h' where h': "basket_add n b x h = Some h'" "bsk_rep h' b (as @ [fst n])"
      "bsk_tokens h' (as @ [fst n]) = bsk_tokens h as @ [x]"
    using basket_add_ok[OF as(1), of "fst n" "snd n" x] f q by auto
  show "bsk_contents (bsk_enq n x q) = bsk_contents q @ [x]"
    using h' bsk_contents_rep[OF as(1)] bsk_contents_rep[OF h'(2)] by (simp add: q bsk_enq_def)
  show "bsk_invar (bsk_enq n x q)"
    unfolding bsk_invar_def q using h' as(2) x
    by (auto simp: bsk_enq_def intro!: exI[of _ "as @ [fst n]"])
next
  fix q :: "bstore \<times> addr"
  assume i: "bsk_invar q"
  obtain h b as where q: "q = (h, b)" and as: "bsk_rep h b as" "0 \<notin> set (bsk_tokens h as)"
    using i by (auto simp: bsk_invar_def split: prod.splits)
  note d = bsk_deq_rep[OF as] and c = bsk_contents_rep[OF as(1)]
  show "(bsk_deq q = None) = (bsk_contents q = [])"
    using d c by (cases as) (auto simp: q bsk_tokens_def)
  fix x :: int and q'
  assume dq: "bsk_deq q = Some (x, q')"
  then obtain a as' where s: "as = a # as'" using d by (cases as) (auto simp: q)
  with d dq obtain h' where h': "x = dt h a" "q' = (h', b)" "bsk_rep h' b as'"
      "bsk_tokens h' as' = bsk_tokens h as'" by (auto simp: q)
  show "bsk_contents q = x # bsk_contents q'"
    using c bsk_contents_rep[OF h'(3)] h' s by (simp add: q bsk_tokens_def)
  show "bsk_invar q'" using h' as(2) s by (auto simp: bsk_invar_def bsk_tokens_def)
qed

lemma mp_basket_add_eq: "mp_basket_add = basket_add"
  by (simp add: fun_eq_iff mp_basket_add_def basket_add_def)

lemma mp_basket_get_eq:
  "basket_get b h = do { (h', t) \<leftarrow> mp_basket_get b h;
     Some (if dt h b = 0 then (h', t) else (h'(nf h b := None), t)) }"
proof (cases "h b")
  case (Some c)
  then have "bsk_data c = dt h b" "bsk_next c = nf h b" by (simp_all add: dt_def nf_def)
  with Some show ?thesis
    by (auto simp: basket_get_def mp_basket_get_def Let_def set_data_def bind_eq_None_conv
        intro!: Option.bind_cong)
qed (simp add: basket_get_def mp_basket_get_def)

text \<open>A run of additions, and taking tokens until the basket is empty (at most \<open>k\<close> of them).\<close>

fun basket_add_all :: "(addr \<times> basket) list \<Rightarrow> addr \<Rightarrow> int list \<Rightarrow> bstore \<Rightarrow> bstore option" where
  "basket_add_all (n # ns) b (t # ts) h = do { h \<leftarrow> basket_add n b t h; basket_add_all ns b ts h }"
| "basket_add_all ns b ts h = Some h"

fun basket_get_all :: "nat \<Rightarrow> addr \<Rightarrow> bstore \<Rightarrow> int list" where
  "basket_get_all 0 b h = []"
| "basket_get_all (Suc k) b h =
     (case basket_get b h of
        None \<Rightarrow> []
      | Some (h', t) \<Rightarrow> if t = 0 then [] else t # basket_get_all k b h')"

lemma basket_get_all_drain: "basket_get_all k b h = bq.drain k (h, b)"
  by (induction k arbitrary: h) (auto simp: bsk_deq_def split: option.splits)

lemma basket_add_all_ok:
  assumes "bsk_invar (h, b)" "distinct (map fst ns)" "\<forall>n \<in> set ns. h (fst n) = None"
    "0 \<notin> set ts" "length ns = length ts"
  shows "\<exists>h'. basket_add_all ns b ts h = Some h' \<and> bsk_invar (h', b) \<and>
    bsk_contents (h', b) = bsk_contents (h, b) @ ts"
  using assms
proof (induction ns b ts h rule: basket_add_all.induct)
  case (1 n ns b t ts h)
  obtain as where as: "bsk_rep h b as" using "1.prems"(1) by (auto simp: bsk_invar_def)
  obtain h1 where h1: "basket_add n b t h = Some h1" "dom h1 = insert (fst n) (dom h)"
    using basket_add_ok[OF as, of "fst n" "snd n" t] "1.prems"(3) by auto
  have fr: "fst (h, b) (fst n) = None" "t \<noteq> 0" using "1.prems"(3,4) by auto
  have i1: "bsk_invar (h1, b)" "bsk_contents (h1, b) = bsk_contents (h, b) @ [t]"
    using bq.invar_enq[OF "1.prems"(1) fr] bq.contents_enq[OF "1.prems"(1) fr] h1(1)
    by (simp_all add: bsk_enq_def)
  have "h1 (fst m) = None" if "m \<in> set ns" for m
  proof -
    have "fst m \<noteq> fst n" using "1.prems"(2) that by (metis distinct.simps(2) image_eqI list.set_map list.simps(9))
    moreover have "fst m \<notin> dom h" using "1.prems"(3) that by auto
    ultimately show ?thesis using h1(2) by blast
  qed
  then show ?case
    using "1.IH"[of h1] i1 h1(1) "1.prems"(2,4,5) by simp
qed auto

subsection \<open>Removing a token\<close>

text \<open>What the first loop keeps and what it removes.\<close>

fun bsk_kept :: "(int \<Rightarrow> bool) \<Rightarrow> bool \<Rightarrow> int list \<Rightarrow> int list" where
  "bsk_kept f found [] = []"
| "bsk_kept f found (t # ts) =
     (if \<not> found \<and> f t then bsk_kept f True ts else t # bsk_kept f found ts)"

fun bsk_removed :: "(int \<Rightarrow> bool) \<Rightarrow> bool \<Rightarrow> int \<Rightarrow> int list \<Rightarrow> int" where
  "bsk_removed f found remd [] = remd"
| "bsk_removed f found remd (t # ts) =
     (if \<not> found \<and> f t then bsk_removed f True t ts else bsk_removed f found remd ts)"

lemma basket_remove_if_loop_ok:
  assumes "bsk_rep h b as" "0 \<notin> set (bsk_tokens h as)" "dk_set_at s tmp cs xs"
    "distinct tn" "NULL \<notin> set tn" "\<forall>n \<in> set tn. s n = None" "length as \<le> length tn"
  shows "\<exists>h' s' tmp' cs'. basket_remove_if_loop b f tn h s tmp found remd =
      Some (h', s', tmp', bsk_removed f found remd (bsk_tokens h as)) \<and> bsk_rep h' b [] \<and>
      dk_set_at s' tmp' cs' (rev (bsk_kept f found (bsk_tokens h as)) @ xs) \<and> dom h' \<subseteq> dom h"
  using assms
proof (induction as arbitrary: h tn s tmp cs xs found remd)
  case Nil
  then show ?case using basket_get_empty[OF Nil.prems(1)]
    by (subst basket_remove_if_loop.simps) (auto simp: bsk_tokens_def)
next
  case (Cons a as)
  obtain h1 where h1: "basket_get b h = Some (h1, dt h a)" "bsk_rep h1 b as"
      "bsk_tokens h1 as = bsk_tokens h as" "dom h1 = dom h - {a}"
    using basket_get_ok[OF Cons.prems(1)] by blast
  have t: "bsk_tokens h (a # as) = dt h a # bsk_tokens h as" by (simp add: bsk_tokens_def)
  have nz: "dt h a \<noteq> 0" "0 \<notin> set (bsk_tokens h1 as)" using Cons.prems(2) h1(3) by (auto simp: t)
  obtain n tn' where tn: "tn = n # tn'" using Cons.prems(7) by (cases tn) auto
  show ?case
  proof (cases "\<not> found \<and> f (dt h a)")
    case True
    have "length as \<le> length tn" using Cons.prems(7) by simp
    from Cons.IH[OF h1(2) nz(2) Cons.prems(3-6) this, of True "dt h a", unfolded h1(3)]
    obtain h' s' tmp' cs' where r: "basket_remove_if_loop b f tn h1 s tmp True (dt h a) =
        Some (h', s', tmp', bsk_removed f True (dt h a) (bsk_tokens h as))" "bsk_rep h' b []"
        "dk_set_at s' tmp' cs' (rev (bsk_kept f True (bsk_tokens h as)) @ xs)" "dom h' \<subseteq> dom h1"
      by blast
    have "basket_remove_if_loop b f tn h s tmp found remd = basket_remove_if_loop b f tn h1 s tmp True (dt h a)"
      using True nz(1) h1(1) by (subst basket_remove_if_loop.simps) simp
    moreover have "dom h' \<subseteq> dom h" using r(4) h1(4) by blast
    ultimately show ?thesis
      unfolding t using True r(1-3)
      by (intro exI[of _ h'] exI[of _ s'] exI[of _ tmp'] exI[of _ cs']) simp
  next
    case False
    define s1 where "s1 = s(n \<mapsto> \<lparr>s_data = dt h a, s_next = tmp\<rparr>)"
    have p: "dk_set_push n s tmp (dt h a) = (s1, n)" by (simp add: dk_set_push_def s1_def)
    have "n \<noteq> NULL" "s n = None" using Cons.prems(5,6) tn by auto
    from dk_set_push_ok[OF Cons.prems(3) this, of "dt h a"]
    have at: "dk_set_at s1 n (n # cs) (dt h a # xs)" by (simp add: p)
    have fr: "distinct tn'" "NULL \<notin> set tn'" "\<forall>m \<in> set tn'. s1 m = None" "length as \<le> length tn'"
      using Cons.prems(4-7) by (auto simp: tn s1_def)
    have ln: "basket_remove_if_loop b f tn h s tmp found remd =
        basket_remove_if_loop b f tn' h1 s1 n found remd"
      using False h1(1) nz(1) p by (subst basket_remove_if_loop.simps) (auto simp: tn)
    from Cons.IH[OF h1(2) nz(2) at fr, of found remd, unfolded h1(3)]
    obtain h' s' tmp' cs' where r: "basket_remove_if_loop b f tn' h1 s1 n found remd =
        Some (h', s', tmp', bsk_removed f found remd (bsk_tokens h as))" "bsk_rep h' b []"
        "dk_set_at s' tmp' cs' (rev (bsk_kept f found (bsk_tokens h as)) @ dt h a # xs)" "dom h' \<subseteq> dom h1"
      by blast
    have "dom h' \<subseteq> dom h" using r(4) h1(4) by blast
    then show ?thesis
      unfolding t ln using False r(1-3)
      by (intro exI[of _ h'] exI[of _ s'] exI[of _ tmp'] exI[of _ cs']) auto
  qed
qed

lemma basket_remove_if_ok:
  fixes b :: addr and f :: "int \<Rightarrow> bool" and h :: bstore
  assumes "bsk_rep h b as" "0 \<notin> set (bsk_tokens h as)"
    "distinct tn" "NULL \<notin> set tn" "\<forall>n \<in> set tn. s n = None" "length as \<le> length tn"
    "h (fst n) = None"
  defines "K \<equiv> bsk_kept f False (bsk_tokens h as)"
  shows "\<exists>h' s'. basket_remove_if tn (n # bn) b f h s =
      Some (h', s', bsk_removed f False 0 (bsk_tokens h as)) \<and>
      bsk_contents (h', b) = (if K = [] then [] else [last K])"
proof -
  obtain h1 s1 tmp cs where l: "basket_remove_if_loop b f tn h s NULL False 0 =
      Some (h1, s1, tmp, bsk_removed f False 0 (bsk_tokens h as))" "bsk_rep h1 b []"
      "dk_set_at s1 tmp cs (rev K)" "dom h1 \<subseteq> dom h"
    using basket_remove_if_loop_ok[of h b as s NULL "[]" "[]" tn f False 0] assms by auto
  obtain s2 p where r: "dk_set_nreverse s1 tmp = Some (s2, p)"
    using dk_set_nreverse_spec[OF l(3)] by blast
  show ?thesis
  proof (cases "K = []")
    case True
    then have "tmp = NULL" "cs = []" using l(3) dk_set_at_length[OF l(3)] by auto
    then have "basket_remove_if tn (n # bn) b f h s =
        Some (h1, s2, bsk_removed f False 0 (bsk_tokens h as))"
      using l(1) r by (simp add: basket_remove_if_def basket_add_set.simps dk_set_free.simps)
    then show ?thesis using True bsk_contents_rep[OF l(2)] by (simp add: bsk_tokens_def)
  next
    case False
    then have rv: "rev K = last K # tl (rev K)" by (metis hd_rev list.collapse rev_is_Nil_conv)
    obtain a cs' where cs: "cs = a # cs'" using False dk_set_at_length[OF l(3)] by (cases cs) auto
    have l3: "dk_set_at s1 tmp (a # cs') (last K # tl (rev K))" using l(3) cs rv by metis
    have one: "dk_set_at s2 tmp [a] [last K]"
      using dk_set_nreverse_old_pointer[OF l3 r] .
    then obtain nd where nd: "tmp = a" "a \<noteq> NULL" "s2 a = Some nd" "s_data nd = last K" "s_next nd = NULL"
      by (auto simp: dk_set_at_Cons)
    have "h1 (fst n) = None" using l(4) assms(7) by blast
    then obtain h2 where h2: "basket_add n b (last K) h1 = Some h2" "bsk_rep h2 b [fst n]"
        "bsk_tokens h2 [fst n] = [last K]"
      using basket_add_ok[OF l(2), of "fst n" "snd n" "last K"] by (auto simp: bsk_tokens_def)
    have "basket_add_set b (n # bn) s2 tmp h1 = Some h2"
      using nd h2(1) by (simp add: basket_add_set.simps)
    then have "basket_remove_if tn (n # bn) b f h s =
        Some (h2, s2 |` (- {a}), bsk_removed f False 0 (bsk_tokens h as))"
      using l(1) r dk_set_free_ok[OF one] by (simp add: basket_remove_if_def)
    then show ?thesis using False bsk_contents_rep[OF h2(2)] h2(3) by simp
  qed
qed

subsection \<open>Properties\<close>

text \<open>
  C11. A basket is a first-in first-out queue: whatever it holds, adding tokens to it never fails,
  keeps the ring of cells and the counter right, and taking everything out returns the tokens
  that were there followed by the ones added, in the order they were added.
\<close>

theorem basket_fifo:
  assumes "bsk_invar (h, b)" "distinct (map fst ns)" "\<forall>n \<in> set ns. h (fst n) = None"
    "0 \<notin> set ts" "length ns = length ts" "length (bsk_contents (h, b)) + length ts \<le> k"
  shows "\<exists>h'. basket_add_all ns b ts h = Some h' \<and> bsk_invar (h', b) \<and>
    basket_get_all k b h' = bsk_contents (h, b) @ ts"
  using basket_add_all_ok[OF assms(1-5)] assms(6) bq.drain_contents
  by (fastforce simp: basket_get_all_drain)

theorem basket_fifo_witness:
  "let h = [10 \<mapsto> \<lparr>bsk_next = 0, bsk_prev = 0, bsk_data = 0\<rparr>];
       c = \<lparr>bsk_next = 0, bsk_prev = 0, bsk_data = 0\<rparr> in
   bsk_invar (h, 10) \<and>
   (\<exists>h'. basket_add_all [(11, c), (12, c)] 10 [7, 8] h = Some h' \<and> basket_get_all 5 10 h' = [7, 8])"
proof -
  define c :: basket where "c = \<lparr>bsk_next = 0, bsk_prev = 0, bsk_data = 0\<rparr>"
  define h :: bstore where "h = [10 \<mapsto> c]"
  have r: "bsk_rep h 10 []" by (simp add: bsk_rep_def h_def dt_def c_def)
  have i: "bsk_invar (h, 10)" unfolding bsk_invar_def using r by (auto simp: bsk_tokens_def intro!: exI[of _ "[]"])
  have e: "bsk_contents (h, 10) = []" using bsk_contents_rep[OF r] by (simp add: bsk_tokens_def)
  have "\<exists>h'. basket_add_all [(11, c), (12, c)] 10 [7, 8] h = Some h' \<and> bsk_invar (h', 10) \<and>
      basket_get_all 5 10 h' = bsk_contents (h, 10) @ [7, 8]"
    by (rule basket_fifo[OF i]) (auto simp: h_def e[unfolded h_def])
  then show ?thesis using i e by (auto simp: h_def c_def)
qed

text \<open>
  C12. What \<^verbatim>\<open>basket_remove_if\<close> does to a basket: it returns the first token that passes the test,
  but of the tokens it should have kept only the last one is put back, because the list it
  collected them in is reversed in place and the pointer to its new head is dropped.
\<close>

theorem basket_remove_if_keeps_last:
  fixes b :: addr and f :: "int \<Rightarrow> bool" and h :: bstore
  assumes "bsk_rep h b as" "0 \<notin> set (bsk_tokens h as)"
    "distinct tn" "NULL \<notin> set tn" "\<forall>n \<in> set tn. s n = None" "length as \<le> length tn"
    "h (fst n) = None"
  shows "\<exists>h' s'. basket_remove_if tn (n # bn) b f h s =
      Some (h', s', bsk_removed f False 0 (bsk_tokens h as)) \<and>
      bsk_contents (h', b) =
        (if bsk_kept f False (bsk_tokens h as) = [] then [] else [last (bsk_kept f False (bsk_tokens h as))])"
  by (rule basket_remove_if_ok[OF assms])

theorem basket_remove_if_witness:
  "let h = [10 \<mapsto> \<lparr>bsk_next = 11, bsk_prev = 12, bsk_data = 2\<rparr>,
            11 \<mapsto> \<lparr>bsk_next = 12, bsk_prev = 10, bsk_data = 7\<rparr>,
            12 \<mapsto> \<lparr>bsk_next = 10, bsk_prev = 11, bsk_data = 8\<rparr>];
       c = \<lparr>bsk_next = 0, bsk_prev = 0, bsk_data = 0\<rparr> in
   bsk_contents (h, 10) = [7, 8] \<and>
   (\<exists>h' s'. basket_remove_if [1, 2] [(20, c)] 10 (\<lambda>t. t = 9) h Map.empty = Some (h', s', 0) \<and>
      bsk_contents (h', 10) = [8])"
proof -
  define c :: basket where "c = \<lparr>bsk_next = 0, bsk_prev = 0, bsk_data = 0\<rparr>"
  define h :: bstore where "h = [10 \<mapsto> \<lparr>bsk_next = 11, bsk_prev = 12, bsk_data = 2\<rparr>,
            11 \<mapsto> \<lparr>bsk_next = 12, bsk_prev = 10, bsk_data = 7\<rparr>,
            12 \<mapsto> \<lparr>bsk_next = 10, bsk_prev = 11, bsk_data = 8\<rparr>]"
  have r: "bsk_rep h 10 [11, 12]" by (simp add: bsk_rep_def h_def dt_def)
  have t: "bsk_tokens h [11, 12] = [7, 8]" by (simp add: bsk_tokens_def h_def dt_def)
  have "\<exists>h' s'. basket_remove_if [1, 2] [(20, c)] 10 (\<lambda>t. t = 9) h Map.empty =
      Some (h', s', bsk_removed (\<lambda>t. t = 9) False 0 (bsk_tokens h [11, 12])) \<and>
      bsk_contents (h', 10) =
        (if bsk_kept (\<lambda>t. t = 9) False (bsk_tokens h [11, 12]) = [] then []
         else [last (bsk_kept (\<lambda>t. t = 9) False (bsk_tokens h [11, 12]))])"
    by (rule basket_remove_if_keeps_last[OF r]) (simp_all add: t, simp add: h_def)
  then show ?thesis using bsk_contents_rep[OF r] t by (simp add: h_def c_def)
qed

end
