(* ===== verification/Dk_Rbuf.thy ===== *)
theory Dk_Rbuf
  imports Interfaces
begin

text \<open>
  The segmented ring buffers of \<^verbatim>\<open>libsrc/Dk/Dkbasket.c\<close>: a queue kept as a list of ring buffers of
  128 slots each, with deletion from the middle during an iteration. The list of segments that
  \<^verbatim>\<open>rb_first\<close>, \<^verbatim>\<open>rb_last\<close>, \<^verbatim>\<open>rbe_next\<close> and \<^verbatim>\<open>rbe_prev\<close> link is an Isabelle list, a pointer to a segment
  is its position; the callback \<^verbatim>\<open>rb_add_cb\<close> is taken as unset. The null pointer, 0, marks an
  unused slot.
\<close>

subsection \<open>Segments\<close>

definition RBE_LEN :: nat where "RBE_LEN = 128"

definition RBE_NEXT :: "nat \<Rightarrow> nat" where
  "RBE_NEXT r = and (r + 1) (RBE_LEN - 1)"

record rbuf_elt =
  rbe_write :: nat
  rbe_read :: nat
  rbe_count :: int
  rbe_data :: "addr list"

record rbuf =
  rb_elts :: "rbuf_elt list"
  rb_count :: int

definition rbe_zero :: rbuf_elt where
  "rbe_zero = \<lparr>rbe_write = 0, rbe_read = 0, rbe_count = 0, rbe_data = replicate RBE_LEN NULL\<rparr>"

lemma RBE_NEXT_mod: "RBE_NEXT r = (r + 1) mod 128"
proof -
  have "(RBE_LEN - 1 :: nat) = mask 7" by (simp add: RBE_LEN_def mask_eq_exp_minus_1)
  then show ?thesis by (simp add: RBE_NEXT_def take_bit_eq_mod flip: take_bit_eq_mask)
qed

lemma RBE_NEXT_if: "r < 128 \<Longrightarrow> RBE_NEXT r = (if r = 127 then 0 else r + 1)"
  by (simp add: RBE_NEXT_mod)

lemma ring_dist:
  fixes r w :: nat
  assumes "r < 128" "w < 128"
  shows "(w + 128 - r) mod 128 = (if r \<le> w then w - r else w + 128 - r)"
proof (cases "r \<le> w")
  case True
  then have e: "w + 128 - r = (w - r) + 128" by simp
  show ?thesis unfolding e mod_add_self2 using assms True by simp
qed (use assms in simp)

lemma RBE_NEXT_less [simp]: "RBE_NEXT r < 128"
  by (simp add: RBE_NEXT_mod)

lemma ring_step:
  assumes "r < 128" "w < 128" "r \<noteq> w"
  shows "(w + 128 - r) mod 128 = Suc ((w + 128 - RBE_NEXT r) mod 128)"
proof -
  have n: "(w + 128 - RBE_NEXT r) mod 128 = (if RBE_NEXT r \<le> w then w - RBE_NEXT r else w + 128 - RBE_NEXT r)"
    by (rule ring_dist[OF RBE_NEXT_less assms(2)])
  show ?thesis unfolding n ring_dist[OF assms(1,2)] using assms by (auto simp: RBE_NEXT_if)
qed

text \<open>
  The slots that a loop \<^verbatim>\<open>for (r = read; r != write; r = RBE_NEXT (rbe, r))\<close> visits. Positions are
  below 128 in every buffer the code builds; for another \<^verbatim>\<open>write\<close> the loop would not end.
\<close>

function rbe_slots :: "nat \<Rightarrow> nat \<Rightarrow> nat list" where
  "rbe_slots r w = (if r = w \<or> 128 \<le> w then [] else r # rbe_slots (RBE_NEXT r) w)"
  by pat_completeness auto
termination
proof (relation "measure (\<lambda>(r, w). if 128 \<le> r then 200 else (w + 128 - r) mod 128)")
  fix r w :: nat
  assume a: "\<not> (r = w \<or> 128 \<le> w)"
  show "((RBE_NEXT r, w), r, w) \<in> measure (\<lambda>(r, w). if 128 \<le> r then 200 else (w + 128 - r) mod 128)"
  proof (cases "128 \<le> r")
    case True
    then show ?thesis using mod_less_divisor[of 128 "w + 128 - RBE_NEXT r"] by (simp add: not_le)
  next
    case False
    moreover have "\<not> 128 \<le> RBE_NEXT r" using RBE_NEXT_less[of r] by (simp only: not_le)
    ultimately show ?thesis using a ring_step[of r w] by simp
  qed
qed simp

declare rbe_slots.simps [simp del]

subsection \<open>Operations\<close>

definition rbuf_add :: "addr \<Rightarrow> rbuf \<Rightarrow> rbuf" where
  "rbuf_add elt rb =
     (let put = (\<lambda>rbe nxt. rbe\<lparr>rbe_data := (rbe_data rbe)[rbe_write rbe := elt], rbe_write := nxt,
                               rbe_count := rbe_count rbe + 1\<rparr>);
          elts =
            (if rb_elts rb = [] then [put rbe_zero 1]
             else
               let rbe = last (rb_elts rb); nxt = RBE_NEXT (rbe_write rbe) in
               if nxt = rbe_read rbe then
                 if rbe_data rbe ! rbe_read rbe = NULL
                 then butlast (rb_elts rb) @ [put (rbe\<lparr>rbe_read := RBE_NEXT (rbe_read rbe)\<rparr>) nxt]
                 else rb_elts rb @ [put rbe_zero 1]
               else butlast (rb_elts rb) @ [put rbe nxt])
      in rb\<lparr>rb_elts := elts, rb_count := rb_count rb + 1\<rparr>)"

definition rbuf_get :: "rbuf \<Rightarrow> rbuf \<times> addr" where
  "rbuf_get rb =
     (case rb_elts rb of
        [] \<Rightarrow> (rb, NULL)
      | rbe # rest \<Rightarrow>
          (case find (\<lambda>r. rbe_data rbe ! r \<noteq> NULL) (rbe_slots (rbe_read rbe) (rbe_write rbe)) of
             None \<Rightarrow> (rb, NULL)
           | Some r \<Rightarrow>
               let elt = rbe_data rbe ! r;
                   rbe = rbe\<lparr>rbe_data := (rbe_data rbe)[r := NULL], rbe_read := RBE_NEXT r,
                             rbe_count := rbe_count rbe - 1\<rparr>
               in (rb\<lparr>rb_count := rb_count rb - 1,
                      rb_elts := (if rbe_count rbe = 0 \<and> rest \<noteq> [] then rest else rbe # rest)\<rparr>, elt)))"

definition rbuf_first :: "rbuf \<Rightarrow> rbuf \<times> addr" where
  "rbuf_first rb =
     (case rb_elts rb of
        [] \<Rightarrow> (rb, NULL)
      | rbe # rest \<Rightarrow>
          (case find (\<lambda>r. rbe_data rbe ! r \<noteq> NULL) (rbe_slots (rbe_read rbe) (rbe_write rbe)) of
             None \<Rightarrow> (rb, NULL)
           | Some r \<Rightarrow> (rb\<lparr>rb_elts := rbe\<lparr>rbe_read := r\<rparr> # rest\<rparr>, rbe_data rbe ! r)))"

text \<open>
  \<^verbatim>\<open>rbe_merge_next\<close>: the first loop of the source, with \<^verbatim>\<open>tmp\<close>, \<^verbatim>\<open>skip\<close> and \<^verbatim>\<open>before\<close> as its state
  (\<^verbatim>\<open>fill\<close> is the length of \<^verbatim>\<open>tmp\<close>), then the second one. \<open>None\<close> is the call of \<^verbatim>\<open>GPF_T1\<close>.
\<close>

fun merge_first :: "addr list \<Rightarrow> int \<Rightarrow> nat list \<Rightarrow> addr list \<times> nat \<times> bool \<Rightarrow> addr list \<times> nat \<times> bool" where
  "merge_first data delete_inx [] st = st"
| "merge_first data delete_inx (inx # slots) (tmp, skip, before) =
     (let before = (if before \<and> int inx = delete_inx then False else before) in
      merge_first data delete_inx slots
        (if data ! inx \<noteq> NULL then (tmp @ [data ! inx], if before then skip + 1 else skip, before)
         else (tmp, skip, before)))"

fun merge_second :: "addr list \<Rightarrow> nat list \<Rightarrow> addr list \<Rightarrow> addr list" where
  "merge_second data [] tmp = tmp"
| "merge_second data (inx # slots) tmp =
     merge_second data slots (if data ! inx \<noteq> NULL then tmp @ [data ! inx] else tmp)"

definition rbe_merge_next :: "rbuf_elt \<Rightarrow> rbuf_elt \<Rightarrow> int \<Rightarrow> (rbuf_elt \<times> rbuf_elt \<times> nat) option" where
  "rbe_merge_next rbe nxt delete_inx =
     (case merge_first (rbe_data rbe) delete_inx (rbe_slots (rbe_read rbe) (rbe_write rbe)) ([], 0, True) of
        (tmp, skip, before) \<Rightarrow>
          let tmp = merge_second (rbe_data nxt) (rbe_slots (rbe_read nxt) (rbe_write nxt)) tmp;
              fill = length tmp in
          if int fill \<noteq> rbe_count rbe + rbe_count nxt then None
          else
            Some (rbe\<lparr>rbe_data := take fill (rbe_data rbe) @ replicate (RBE_LEN - fill) NULL, rbe_count := 0\<rparr>,
                  nxt\<lparr>rbe_data := tmp @ drop fill (rbe_data nxt),
                      rbe_count := rbe_count nxt + rbe_count rbe, rbe_read := 0, rbe_write := fill\<rparr>,
                  skip))"

text \<open>\<^verbatim>\<open>rbuf_delete\<close>: \<open>k\<close> is the position of the segment \<^verbatim>\<open>rbe\<close>, \<open>inx\<close> the slot.\<close>

definition rbuf_delete :: "rbuf \<Rightarrow> nat \<Rightarrow> nat \<Rightarrow> (rbuf \<times> int) option" where
  "rbuf_delete rb k inx =
     (let elts = rb_elts rb;
          rbe = elts ! k;
          rbe = rbe\<lparr>rbe_data := (rbe_data rbe)[inx := NULL], rbe_count := rbe_count rbe - 1\<rparr>;
          rb = rb\<lparr>rb_count := rb_count rb - 1\<rparr>;
          bump = (\<lambda>rbe. if inx = rbe_read rbe then rbe\<lparr>rbe_read := RBE_NEXT (rbe_read rbe)\<rparr> else rbe) in
      if length elts > 1 then
        if k + 1 < length elts \<and> rbe_count rbe < int (RBE_LEN div 3 * 2) \<and>
           rbe_count rbe + rbe_count (elts ! (k + 1)) < int RBE_LEN
        then
          (case rbe_merge_next rbe (elts ! (k + 1)) (int inx) of
             None \<Rightarrow> None
           | Some (rbe, nxt, skip) \<Rightarrow>
               Some (rb\<lparr>rb_elts := take k elts @ nxt # drop (k + 2) elts\<rparr>, - int skip - 2))
        else if rbe_count rbe = 0 then
          Some (rb\<lparr>rb_elts := take k elts @ drop (k + 1) elts\<rparr>, - 1)
        else Some (rb\<lparr>rb_elts := elts[k := bump rbe]\<rparr>, int inx)
      else Some (rb\<lparr>rb_elts := elts[k := bump rbe]\<rparr>, int inx))"

definition rbuf_delete_all :: "rbuf \<Rightarrow> rbuf" where
  "rbuf_delete_all rb =
     (case rb_elts rb of
        [] \<Rightarrow> rb\<lparr>rb_count := 0\<rparr>
      | rbe # rest \<Rightarrow>
          if rbe_read rbe = rbe_write rbe \<and> rest = [] then rb
          else rb\<lparr>rb_elts := [rbe\<lparr>rbe_count := 0, rbe_read := 0, rbe_write := 0,
                                  rbe_data := replicate RBE_LEN NULL\<rparr>], rb_count := 0\<rparr>)"

definition rbuf_destroy :: "rbuf \<Rightarrow> rbuf" where
  "rbuf_destroy rb = (rbuf_delete_all rb)\<lparr>rb_elts := []\<rparr>"

text \<open>The loop of \<^verbatim>\<open>rbuf_append\<close> that moves a few elements one by one; \<open>None\<close> would be a loop without end.\<close>

partial_function (option) rbuf_append_loop :: "rbuf \<Rightarrow> rbuf \<Rightarrow> (rbuf \<times> rbuf) option" where
  "rbuf_append_loop dest src =
     (case rbuf_get src of (src', x) \<Rightarrow>
        if x = NULL then Some (dest, src') else rbuf_append_loop (rbuf_add x dest) src')"

definition rbuf_append :: "rbuf \<Rightarrow> rbuf \<Rightarrow> (rbuf \<times> rbuf) option" where
  "rbuf_append dest src =
     (if rb_count src = 0 then Some (dest, src)
      else if rb_count src < 10 then rbuf_append_loop dest src
      else
        (let elts = (if rb_count dest = 0 \<and> rb_elts dest \<noteq> [] then rb_elts src
                     else if rb_elts dest \<noteq> [] then rb_elts dest @ rb_elts src
                     else rb_elts src)
         in Some (dest\<lparr>rb_elts := elts, rb_count := rb_count dest + rb_count src\<rparr>,
                  src\<lparr>rb_count := 0, rb_elts := []\<rparr>)))"

text \<open>
  Rewriting a buffer in place: the position \<open>(k, r)\<close> stands for \<^verbatim>\<open>rb_rewrite_last\<close> and \<^verbatim>\<open>rb_rewrite\<close>;
  \<open>None\<close> is a null pointer followed.
\<close>

definition rbuf_rewrite :: "rbuf \<Rightarrow> (nat \<times> nat) option" where
  "rbuf_rewrite rb = (case rb_elts rb of [] \<Rightarrow> None | rbe # _ \<Rightarrow> Some (0, rbe_read rbe))"

definition rbuf_keep :: "rbuf \<Rightarrow> nat \<times> nat \<Rightarrow> addr \<Rightarrow> (rbuf \<times> nat \<times> nat) option" where
  "rbuf_keep rb pos elt =
     (case pos of (k, r) \<Rightarrow>
        let elts = rb_elts rb; nxt = RBE_NEXT r in
        if nxt = rbe_write (elts ! k) then
          if k + 1 < length elts then
            let elts = elts[k := (elts ! k)\<lparr>rbe_count := int RBE_LEN - 1\<rparr>];
                r = rbe_read (elts ! (k + 1));
                elts = elts[k + 1 := (elts ! (k + 1))\<lparr>rbe_data := (rbe_data (elts ! (k + 1)))[r := elt]\<rparr>]
            in Some (rb\<lparr>rb_elts := elts\<rparr>, k + 1, nxt)
          else None
        else
          Some (rb\<lparr>rb_elts := elts[k := (elts ! k)\<lparr>rbe_data := (rbe_data (elts ! k))[r := elt]\<rparr>]\<rparr>, k, nxt))"

text \<open>\<^verbatim>\<open>rb_ck_cnt\<close>: the checks a debugging build runs after every operation; \<open>False\<close> is a call of \<^verbatim>\<open>GPF_T1\<close>.\<close>

fun rb_ck_elts :: "nat \<Rightarrow> rbuf_elt list \<Rightarrow> int \<Rightarrow> int \<Rightarrow> bool" where
  "rb_ck_elts pos [] ctr cnt = (ctr = cnt)"
| "rb_ck_elts pos (elt # rest) ctr cnt =
     (\<not> (rbe_count elt = 0 \<and> (pos \<noteq> 0 \<or> rest \<noteq> [])) \<and>
      rb_ck_elts (pos + 1) rest (ctr + rbe_count elt) cnt)"

definition rb_ck_cnt :: "rbuf \<Rightarrow> bool" where
  "rb_ck_cnt rb \<longleftrightarrow>
     (rb_count rb = 0 \<longrightarrow>
        length (rb_elts rb) \<le> 1 \<and> (\<forall>elt \<in> set (rb_elts rb). rbe_count elt = 0)) \<and>
     rb_ck_elts 0 (rb_elts rb) 0 (rb_count rb)"

text \<open>
  A loop \<^verbatim>\<open>DO_RBUF (..., item, rbe, inx, rb)\<close> whose body calls \<^verbatim>\<open>rbuf_delete (rb, rbe, &inx)\<close> for the items
  \<open>del\<close> holds of; \<open>vis\<close> collects the items the body has seen. The segment after a removed one
  moves to its position.
\<close>

definition do_rbuf_start :: "rbuf \<Rightarrow> nat \<Rightarrow> int \<Rightarrow> int" where
  "do_rbuf_start rb k inx = (if inx < - 1 then - inx - 2 else int (rbe_read (rb_elts rb ! k)))"

partial_function (option) do_rbuf ::
  "(addr \<Rightarrow> bool) \<Rightarrow> rbuf \<Rightarrow> nat \<Rightarrow> int \<Rightarrow> addr list \<Rightarrow> (rbuf \<times> addr list) option" where
  "do_rbuf del rb k inx vis =
     (if length (rb_elts rb) \<le> k then Some (rb, vis)
      else
        (let rbe = rb_elts rb ! k in
         if 0 \<le> inx \<and> inx \<noteq> int (rbe_write rbe) then
           (let item = rbe_data rbe ! nat inx in
            if item = NULL then do_rbuf del rb k (int (RBE_NEXT (nat inx))) vis
            else if del item then
              (case rbuf_delete rb k (nat inx) of
                 None \<Rightarrow> None
               | Some (rb, inx) \<Rightarrow>
                   if 0 \<le> inx then do_rbuf del rb k (int (RBE_NEXT (nat inx))) (vis @ [item])
                   else do_rbuf del rb k (do_rbuf_start rb k inx) (vis @ [item]))
            else do_rbuf del rb k (int (RBE_NEXT (nat inx))) (vis @ [item]))
         else do_rbuf del rb (k + 1) (do_rbuf_start rb (k + 1) inx) vis))"

definition DO_RBUF :: "(addr \<Rightarrow> bool) \<Rightarrow> rbuf \<Rightarrow> (rbuf \<times> addr list) option" where
  "DO_RBUF del rb = do_rbuf del rb 0 (do_rbuf_start rb 0 0) []"

subsection \<open>Slots\<close>

lemma rbe_slots_eq [simp]: "rbe_slots r r = []"
  by (simp add: rbe_slots.simps)

lemma rbe_slots_ne: "r \<noteq> w \<Longrightarrow> w < 128 \<Longrightarrow> rbe_slots r w = r # rbe_slots (RBE_NEXT r) w"
  by (simp add: rbe_slots.simps[of r w])

lemma rbe_slots_bounded:
  "r < 128 \<Longrightarrow> w < 128 \<Longrightarrow> x \<in> set (rbe_slots r w) \<Longrightarrow>
     x < 128 \<and> x \<noteq> w \<and> (w + 128 - x) mod 128 \<le> (w + 128 - r) mod 128"
proof (induction r w rule: rbe_slots.induct)
  case (1 r w)
  have ne: "r \<noteq> w" using "1.prems"(3) by auto
  show ?case
  proof (cases "x = r")
    case True
    with ne "1.prems" show ?thesis by simp
  next
    case False
    then have "x \<in> set (rbe_slots (RBE_NEXT r) w)" using "1.prems" ne by (simp add: rbe_slots_ne[of r w])
    then have "x < 128 \<and> x \<noteq> w \<and> (w + 128 - x) mod 128 \<le> (w + 128 - RBE_NEXT r) mod 128"
      using "1.IH" "1.prems"(2) ne by simp
    then show ?thesis using ring_step[OF "1.prems"(1,2) ne] by linarith
  qed
qed

lemma rbe_slots_distinct: "r < 128 \<Longrightarrow> w < 128 \<Longrightarrow> distinct (rbe_slots r w)"
proof (induction r w rule: rbe_slots.induct)
  case (1 r w)
  show ?case
  proof (cases "r = w")
    case True
    then show ?thesis by simp
  next
    case False
    have "r \<notin> set (rbe_slots (RBE_NEXT r) w)"
      using rbe_slots_bounded[OF RBE_NEXT_less "1.prems"(2), of r r] ring_step[OF "1.prems" False] by linarith
    then show ?thesis using 1 False by (simp add: rbe_slots_ne[of r w])
  qed
qed

lemma rbe_slots_snoc:
  "r < 128 \<Longrightarrow> w < 128 \<Longrightarrow> RBE_NEXT w \<noteq> r \<Longrightarrow> rbe_slots r (RBE_NEXT w) = rbe_slots r w @ [w]"
proof (induction r w rule: rbe_slots.induct)
  case (1 r w)
  show ?case
  proof (cases "r = w")
    case True
    with "1.prems" show ?thesis by (simp add: rbe_slots_ne[of w "RBE_NEXT w"])
  next
    case False
    then have "RBE_NEXT w \<noteq> RBE_NEXT r" using "1.prems" by (auto simp: RBE_NEXT_if)
    then show ?thesis using 1 False by (simp add: rbe_slots_ne[of r "RBE_NEXT w"] rbe_slots_ne[of r w])
  qed
qed

lemma rbe_slots_split:
  "x \<in> set (rbe_slots r w) \<Longrightarrow> r < 128 \<Longrightarrow> w < 128 \<Longrightarrow> rbe_slots r w = rbe_slots r x @ rbe_slots x w"
proof (induction r w rule: rbe_slots.induct)
  case (1 r w)
  then have ne: "r \<noteq> w" by auto
  show ?case
  proof (cases "x = r")
    case True
    then show ?thesis by simp
  next
    case False
    then have "x \<in> set (rbe_slots (RBE_NEXT r) w)" using "1.prems" ne by (simp add: rbe_slots_ne[of r w])
    moreover have "x < 128" using rbe_slots_bounded[OF "1.prems"(2,3,1)] by simp
    ultimately show ?thesis
      using 1 ne False by (simp add: rbe_slots_ne[of r w] rbe_slots_ne[of r x])
  qed
qed

subsection \<open>The invariant and the queue operations\<close>

definition live :: "addr list \<Rightarrow> nat \<Rightarrow> nat \<Rightarrow> addr list" where
  "live d r w = filter (\<lambda>x. x \<noteq> NULL) (map ((!) d) (rbe_slots r w))"

definition rbe_live :: "rbuf_elt \<Rightarrow> addr list" where
  "rbe_live e = live (rbe_data e) (rbe_read e) (rbe_write e)"

definition rbe_ok :: "rbuf_elt \<Rightarrow> bool" where
  "rbe_ok e \<longleftrightarrow> length (rbe_data e) = 128 \<and> rbe_read e < 128 \<and> rbe_write e < 128 \<and>
     rbe_count e = int (length (rbe_live e))"

definition rbuf_ok :: "rbuf \<Rightarrow> bool" where
  "rbuf_ok rb \<longleftrightarrow> (\<forall>e \<in> set (rb_elts rb). rbe_ok e) \<and>
     (1 < length (rb_elts rb) \<longrightarrow> (\<forall>e \<in> set (rb_elts rb). rbe_live e \<noteq> [])) \<and>
     rb_count rb = int (length (concat (map rbe_live (rb_elts rb))))"

definition rbuf_contents :: "rbuf \<Rightarrow> addr list" where
  "rbuf_contents rb = concat (map rbe_live (rb_elts rb))"

lemma live_same [simp]: "live d r r = []"
  by (simp add: live_def)

lemma live_next:
  "r \<noteq> w \<Longrightarrow> w < 128 \<Longrightarrow>
     live d r w = (if d ! r \<noteq> NULL then d ! r # live d (RBE_NEXT r) w else live d (RBE_NEXT r) w)"
  by (simp add: live_def rbe_slots_ne[of r w])

lemma live_snoc:
  "r < 128 \<Longrightarrow> w < 128 \<Longrightarrow> RBE_NEXT w \<noteq> r \<Longrightarrow>
     live d r (RBE_NEXT w) = live d r w @ (if d ! w \<noteq> NULL then [d ! w] else [])"
  by (simp add: live_def rbe_slots_snoc)

lemma live_split:
  "x \<in> set (rbe_slots r w) \<Longrightarrow> r < 128 \<Longrightarrow> w < 128 \<Longrightarrow> live d r w = live d r x @ live d x w"
  unfolding live_def by (metis filter_append map_append rbe_slots_split)

lemma live_update: "i \<notin> set (rbe_slots r w) \<Longrightarrow> live (d[i := v]) r w = live d r w"
  unfolding live_def by (rule arg_cong[where f = "filter _"]) (auto intro!: map_cong, metis nth_list_update_neq)

lemma live_nonnull: "NULL \<notin> set (live d r w)"
  by (simp add: live_def)

lemma rbe_zero_ok: "rbe_ok rbe_zero" "rbe_live rbe_zero = []"
  by (simp_all add: rbe_ok_def rbe_live_def rbe_zero_def RBE_LEN_def)

definition rbe_put :: "addr \<Rightarrow> rbuf_elt \<Rightarrow> rbuf_elt" where
  "rbe_put elt e = e\<lparr>rbe_data := (rbe_data e)[rbe_write e := elt], rbe_write := RBE_NEXT (rbe_write e),
                     rbe_count := rbe_count e + 1\<rparr>"

lemma rbe_put_ok:
  assumes "rbe_ok e" "RBE_NEXT (rbe_write e) \<noteq> rbe_read e" "elt \<noteq> NULL"
  shows "rbe_ok (rbe_put elt e)" "rbe_live (rbe_put elt e) = rbe_live e @ [elt]"
proof -
  have e: "length (rbe_data e) = 128" "rbe_read e < 128" "rbe_write e < 128"
    "rbe_count e = int (length (rbe_live e))" using assms(1) by (auto simp: rbe_ok_def)
  have "rbe_write e \<notin> set (rbe_slots (rbe_read e) (rbe_write e))" using rbe_slots_bounded e by blast
  then show l: "rbe_live (rbe_put elt e) = rbe_live e @ [elt]"
    using e assms(2,3) by (simp add: rbe_live_def rbe_put_def live_snoc live_update)
  show "rbe_ok (rbe_put elt e)" using e l by (simp add: rbe_ok_def rbe_put_def)
qed

text \<open>A full segment whose first slot is unused gives that slot up.\<close>

lemma rbe_bump_ok:
  assumes "rbe_ok e" "rbe_read e \<noteq> rbe_write e" "rbe_data e ! rbe_read e = NULL"
  shows "rbe_ok (e\<lparr>rbe_read := RBE_NEXT (rbe_read e)\<rparr>)"
    "rbe_live (e\<lparr>rbe_read := RBE_NEXT (rbe_read e)\<rparr>) = rbe_live e"
  using assms by (simp_all add: rbe_ok_def rbe_live_def live_next[of "rbe_read e" "rbe_write e"])

lemma RBE_NEXT_neq [simp]: "RBE_NEXT r \<noteq> r" "r \<noteq> RBE_NEXT r"
proof -
  show "RBE_NEXT r \<noteq> r"
    using RBE_NEXT_less[of r] by (cases "r < 128") (simp_all add: RBE_NEXT_if del: RBE_NEXT_less)
  then show "r \<noteq> RBE_NEXT r" by metis
qed

lemma rbuf_add_elts:
  assumes "rbuf_ok rb"
  shows "\<exists>front e. rbe_ok e \<and> RBE_NEXT (rbe_write e) \<noteq> rbe_read e \<and> (\<forall>x \<in> set front. rbe_ok x) \<and>
    concat (map rbe_live (front @ [e])) = rbuf_contents rb \<and> (\<forall>x \<in> set front. rbe_live x \<noteq> []) \<and>
    rbuf_add elt rb = rb\<lparr>rb_elts := front @ [rbe_put elt e], rb_count := rb_count rb + 1\<rparr>"
proof (cases "rb_elts rb" rule: rev_cases)
  case Nil
  have "RBE_NEXT 0 = 1" by (simp add: RBE_NEXT_mod)
  then show ?thesis
    using rbe_zero_ok Nil
    by (intro exI[of _ "[]"] exI[of _ rbe_zero])
       (simp add: rbuf_add_def Let_def rbe_put_def rbuf_contents_def rbe_zero_def)
next
  case (snoc front e)
  have ok: "\<forall>x \<in> set (front @ [e]). rbe_ok x" "front \<noteq> [] \<Longrightarrow> \<forall>x \<in> set (front @ [e]). rbe_live x \<noteq> []"
    using assms snoc by (auto simp: rbuf_ok_def)
  then have fr: "\<forall>x \<in> set front. rbe_live x \<noteq> []" by (cases front) auto
  consider (room) "RBE_NEXT (rbe_write e) \<noteq> rbe_read e"
    | (bump) "RBE_NEXT (rbe_write e) = rbe_read e" "rbe_data e ! rbe_read e = NULL"
    | (full) "RBE_NEXT (rbe_write e) = rbe_read e" "rbe_data e ! rbe_read e \<noteq> NULL" by blast
  then show ?thesis
  proof cases
    case room
    then show ?thesis using snoc ok fr
      by (intro exI[of _ front] exI[of _ e]) (simp add: rbuf_add_def Let_def rbe_put_def rbuf_contents_def)
  next
    case bump
    have "rbe_read e \<noteq> rbe_write e" using bump(1) by (metis RBE_NEXT_neq(1))
    then show ?thesis using snoc ok fr bump rbe_bump_ok[of e] RBE_NEXT_neq(2)[of "rbe_read e"]
      by (intro exI[of _ front] exI[of _ "e\<lparr>rbe_read := RBE_NEXT (rbe_read e)\<rparr>"])
         (simp add: rbuf_add_def Let_def rbe_put_def rbuf_contents_def)
  next
    case full
    have ne: "rbe_read e \<noteq> rbe_write e" using full(1) by (metis RBE_NEXT_neq(1))
    have "rbe_write e < 128" using ok by (simp add: rbe_ok_def)
    then have "rbe_live e \<noteq> []" using full(2) ne by (simp add: rbe_live_def live_next[of "rbe_read e" "rbe_write e"])
    moreover have "RBE_NEXT 0 = 1" by (simp add: RBE_NEXT_mod)
    ultimately show ?thesis using snoc ok fr full rbe_zero_ok
      by (intro exI[of _ "front @ [e]"] exI[of _ rbe_zero])
         (auto simp: rbuf_add_def Let_def rbe_put_def rbuf_contents_def rbe_zero_def)
  qed
qed

lemma rbuf_add_ok:
  assumes "rbuf_ok rb" "elt \<noteq> NULL"
  shows "rbuf_ok (rbuf_add elt rb)" "rbuf_contents (rbuf_add elt rb) = rbuf_contents rb @ [elt]"
proof -
  obtain front e where f: "rbe_ok e" "RBE_NEXT (rbe_write e) \<noteq> rbe_read e" "\<forall>x \<in> set front. rbe_ok x"
      "concat (map rbe_live (front @ [e])) = rbuf_contents rb" "\<forall>x \<in> set front. rbe_live x \<noteq> []"
      "rbuf_add elt rb = rb\<lparr>rb_elts := front @ [rbe_put elt e], rb_count := rb_count rb + 1\<rparr>"
    using rbuf_add_elts[OF assms(1)] by blast
  note p = rbe_put_ok[OF f(1,2) assms(2)]
  have c: "rb_count rb = int (length (rbuf_contents rb))"
    using assms(1) by (simp add: rbuf_ok_def rbuf_contents_def)
  show "rbuf_contents (rbuf_add elt rb) = rbuf_contents rb @ [elt]"
    using f(4) p(2) by (simp add: f(6) rbuf_contents_def)
  then have "int (length (concat (map rbe_live (front @ [rbe_put elt e])))) = rb_count rb + 1"
    using c by (simp add: f(6) rbuf_contents_def)
  then show "rbuf_ok (rbuf_add elt rb)" using f(3,5) p unfolding f(6) rbuf_ok_def by auto
qed

lemma live_find:
  "r < 128 \<Longrightarrow> w < 128 \<Longrightarrow> live d r w = x # xs \<Longrightarrow>
     \<exists>i. find (\<lambda>r. d ! r \<noteq> NULL) (rbe_slots r w) = Some i \<and> i \<in> set (rbe_slots r w) \<and> d ! i = x \<and>
       live d (RBE_NEXT i) w = xs"
proof (induction r w rule: rbe_slots.induct)
  case (1 r w)
  have ne: "r \<noteq> w" using "1.prems"(3) by auto
  then show ?case
    using 1 by (cases "d ! r = NULL") (auto simp: rbe_slots_ne[of r w] live_next[of r w])
qed

lemma live_Nil_find: "live d r w = [] \<Longrightarrow> find (\<lambda>r. d ! r \<noteq> NULL) (rbe_slots r w) = None"
  by (simp add: live_def find_None_iff filter_empty_conv)

text \<open>Clearing a used slot removes its element.\<close>

lemma live_delete:
  assumes "i \<in> set (rbe_slots r w)" "r < 128" "w < 128" "length d = 128"
  shows "live (d[i := NULL]) r w = live d r i @ live d (RBE_NEXT i) w"
    "live (d[i := NULL]) r i = live d r i" "live (d[i := NULL]) (RBE_NEXT i) w = live d (RBE_NEXT i) w"
    "d ! i \<noteq> NULL \<Longrightarrow> live d r w = live d r i @ d ! i # live d (RBE_NEXT i) w"
proof -
  have i: "i < 128" "i \<noteq> w" using rbe_slots_bounded[OF assms(2,3,1)] by auto
  have iw: "rbe_slots i w = i # rbe_slots (RBE_NEXT i) w" using rbe_slots_ne[OF i(2) assms(3)] .
  have "i \<notin> set (rbe_slots (RBE_NEXT i) w)" using rbe_slots_distinct[OF i(1) assms(3)] iw by simp
  then show b: "live (d[i := NULL]) (RBE_NEXT i) w = live d (RBE_NEXT i) w" by (rule live_update)
  have "i \<notin> set (rbe_slots r i)" using rbe_slots_bounded[OF assms(2) i(1)] by blast
  then show a: "live (d[i := NULL]) r i = live d r i" by (rule live_update)
  show "live (d[i := NULL]) r w = live d r i @ live d (RBE_NEXT i) w"
    using live_split[OF assms(1-3), of "d[i := NULL]"] a b i assms(3,4)
    by (simp add: live_next[of i w])
  show "d ! i \<noteq> NULL \<Longrightarrow> live d r w = live d r i @ d ! i # live d (RBE_NEXT i) w"
    using live_split[OF assms(1-3), of d] i assms(3) by (simp add: live_next[of i w])
qed

lemma rbuf_ok_contents: "rbuf_ok rb \<Longrightarrow> rb_count rb = int (length (rbuf_contents rb))"
  by (simp add: rbuf_ok_def rbuf_contents_def)

lemma rbuf_first_live:
  assumes "rbuf_ok rb" "rb_elts rb = e # rest" "rbuf_contents rb = x # xs"
  shows "rbe_live e \<noteq> []"
proof (cases rest)
  case Nil
  then show ?thesis using assms(2,3) by (simp add: rbuf_contents_def)
qed (use assms(1,2) in \<open>simp add: rbuf_ok_def\<close>)

lemma rbuf_get_ok:
  assumes "rbuf_ok rb" "rbuf_contents rb = x # xs"
  shows "\<exists>rb'. rbuf_get rb = (rb', x) \<and> rbuf_ok rb' \<and> rbuf_contents rb' = xs"
proof -
  obtain e rest where el: "rb_elts rb = e # rest"
    using assms(2) by (cases "rb_elts rb") (auto simp: rbuf_contents_def)
  have e: "length (rbe_data e) = 128" "rbe_read e < 128" "rbe_write e < 128"
    "rbe_count e = int (length (rbe_live e))" "\<forall>a \<in> set rest. rbe_ok a"
    using assms(1) el by (auto simp: rbuf_ok_def rbe_ok_def)
  obtain ys where lv: "rbe_live e = x # ys" "xs = ys @ concat (map rbe_live rest)"
    using rbuf_first_live[OF assms(1) el assms(2)] assms(2) el
    by (cases "rbe_live e") (auto simp: rbuf_contents_def)
  then obtain i where i: "find (\<lambda>r. rbe_data e ! r \<noteq> NULL) (rbe_slots (rbe_read e) (rbe_write e)) = Some i"
      "i \<in> set (rbe_slots (rbe_read e) (rbe_write e))" "rbe_data e ! i = x"
      "live (rbe_data e) (RBE_NEXT i) (rbe_write e) = ys"
    using live_find[OF e(2,3), of "rbe_data e" x ys] unfolding rbe_live_def by blast
  define e' where "e' = e\<lparr>rbe_data := (rbe_data e)[i := NULL], rbe_read := RBE_NEXT i,
      rbe_count := rbe_count e - 1\<rparr>"
  have l': "rbe_live e' = ys" using live_delete(3)[OF i(2) e(2,3,1)] i(4) by (simp add: e'_def rbe_live_def)
  have ok': "rbe_ok e'" using e l' lv(1) by (simp add: rbe_ok_def) (simp add: e'_def)
  define rb' where "rb' = rb\<lparr>rb_count := rb_count rb - 1,
      rb_elts := (if rbe_count e' = 0 \<and> rest \<noteq> [] then rest else e' # rest)\<rparr>"
  have g: "rbuf_get rb = (rb', x)"
    using el i(1,3) by (simp add: rbuf_get_def Let_def rb'_def e'_def)
  have c': "rbe_count e' = int (length ys)" using ok' l' by (simp add: rbe_ok_def)
  then have cont: "rbuf_contents rb' = xs" using l' lv(2) by (simp add: rb'_def rbuf_contents_def)
  have "rb_count rb' = int (length xs)" using rbuf_ok_contents[OF assms(1)] assms(2) by (simp add: rb'_def)
  moreover have "\<forall>a \<in> set rest. rest \<noteq> [] \<longrightarrow> rbe_live a \<noteq> []" using assms(1) el by (cases rest) (auto simp: rbuf_ok_def)
  ultimately have "rbuf_ok rb'"
    using cont e(5) ok' l' c' by (auto simp: rbuf_ok_def rbuf_contents_def rb'_def)
  with g cont show ?thesis by blast
qed

lemma rbuf_get_empty:
  assumes "rbuf_contents rb = []"
  shows "rbuf_get rb = (rb, NULL)"
  using assms
  by (cases "rb_elts rb") (auto simp: rbuf_get_def rbuf_contents_def rbe_live_def live_Nil_find[simplified])

lemma rbuf_first_ok:
  assumes "rbuf_ok rb"
  shows "snd (rbuf_first rb) = (case rbuf_contents rb of [] \<Rightarrow> NULL | x # _ \<Rightarrow> x)"
    "rbuf_ok (fst (rbuf_first rb))" "rbuf_contents (fst (rbuf_first rb)) = rbuf_contents rb"
proof -
  have "snd (rbuf_first rb) = (case rbuf_contents rb of [] \<Rightarrow> NULL | x # _ \<Rightarrow> x) \<and>
    rbuf_ok (fst (rbuf_first rb)) \<and> rbuf_contents (fst (rbuf_first rb)) = rbuf_contents rb"
  proof (cases "rbuf_contents rb")
    case Nil
    then have "rbuf_first rb = (rb, NULL)"
      by (cases "rb_elts rb") (auto simp: rbuf_first_def rbuf_contents_def rbe_live_def live_Nil_find[simplified])
    then show ?thesis using assms Nil by simp
  next
    case (Cons x xs)
    obtain e rest where el: "rb_elts rb = e # rest"
      using Cons by (cases "rb_elts rb") (auto simp: rbuf_contents_def)
    have e: "rbe_read e < 128" "rbe_write e < 128" using assms el by (auto simp: rbuf_ok_def rbe_ok_def)
    obtain ys where lv: "rbe_live e = x # ys"
      using rbuf_first_live[OF assms el Cons] Cons el by (cases "rbe_live e") (auto simp: rbuf_contents_def)
    then obtain i where i: "find (\<lambda>r. rbe_data e ! r \<noteq> NULL) (rbe_slots (rbe_read e) (rbe_write e)) = Some i"
        "i \<in> set (rbe_slots (rbe_read e) (rbe_write e))" "rbe_data e ! i = x"
        "live (rbe_data e) (RBE_NEXT i) (rbe_write e) = ys"
      using live_find[OF e, of "rbe_data e" x ys] unfolding rbe_live_def by blast
    have b: "i < 128" "i \<noteq> rbe_write e" using rbe_slots_bounded[OF e i(2)] by auto
    have "x \<noteq> NULL" using lv live_nonnull by (metis list.set_intros(1) rbe_live_def)
    then have l: "rbe_live (e\<lparr>rbe_read := i\<rparr>) = rbe_live e"
      using lv i(3,4) b e(2) by (simp add: rbe_live_def live_next[of i "rbe_write e"])
    have "fst (rbuf_first rb) = rb\<lparr>rb_elts := e\<lparr>rbe_read := i\<rparr> # rest\<rparr>" "snd (rbuf_first rb) = x"
      using el i(1,3) by (simp_all add: rbuf_first_def)
    then show ?thesis
      using Cons assms el l b(1) by (auto simp: rbuf_ok_def rbuf_contents_def rbe_ok_def)
  qed
  then show "snd (rbuf_first rb) = (case rbuf_contents rb of [] \<Rightarrow> NULL | x # _ \<Rightarrow> x)"
    "rbuf_ok (fst (rbuf_first rb))" "rbuf_contents (fst (rbuf_first rb)) = rbuf_contents rb" by blast+
qed

text \<open>Deleting everything, and the checks of a debugging build.\<close>

lemma rbuf_delete_all_ok:
  assumes "rbuf_ok rb"
  shows "rbuf_ok (rbuf_delete_all rb)" "rbuf_contents (rbuf_delete_all rb) = []"
    "rb_count (rbuf_delete_all rb) = 0"
  using assms
  by (cases "rb_elts rb"; auto simp: rbuf_delete_all_def rbuf_ok_def rbuf_contents_def rbe_ok_def
      rbe_live_def RBE_LEN_def)+

lemma rb_ck_elts_ok:
  "(\<forall>e \<in> set es. rbe_count e > 0) \<Longrightarrow> rb_ck_elts pos es ctr (ctr + sum_list (map rbe_count es))"
proof (induction es arbitrary: pos ctr)
  case (Cons e es)
  from Cons.IH[of "pos + 1" "ctr + rbe_count e"] Cons.prems show ?case by (auto simp: add.assoc)
qed simp

lemma sum_rbe_count:
  "(\<And>e. e \<in> set es \<Longrightarrow> rbe_count e = int (length (rbe_live e))) \<Longrightarrow>
     sum_list (map rbe_count es) = int (length (concat (map rbe_live es)))"
  by (induction es) auto

lemma rbuf_ok_ck_cnt:
  assumes "rbuf_ok rb"
  shows "rb_ck_cnt rb"
proof -
  have c: "rbe_count e = int (length (rbe_live e))" if "e \<in> set (rb_elts rb)" for e
    using assms that by (simp add: rbuf_ok_def rbe_ok_def)
  have n: "rb_count rb = int (length (concat (map rbe_live (rb_elts rb))))" using assms by (simp add: rbuf_ok_def)
  consider "rb_elts rb = []" | e where "rb_elts rb = [e]"
    | "1 < length (rb_elts rb)" by (cases "rb_elts rb" rule: list.exhaust; cases "tl (rb_elts rb)") auto
  then show ?thesis
  proof cases
    case 1
    then show ?thesis using n by (simp add: rb_ck_cnt_def)
  next
    case (2 e)
    then show ?thesis using n c[of e] by (simp add: rb_ck_cnt_def)
  next
    case 3
    then have l: "\<forall>e \<in> set (rb_elts rb). rbe_live e \<noteq> []" using assms by (simp add: rbuf_ok_def)
    then have p: "\<forall>e \<in> set (rb_elts rb). rbe_count e > 0" using c by simp
    have "sum_list (map rbe_count (rb_elts rb)) = rb_count rb"
      unfolding n by (rule sum_rbe_count) (rule c)
    moreover have "concat (map rbe_live (rb_elts rb)) \<noteq> []" using l 3 by (cases "rb_elts rb") auto
    then have "rb_count rb \<noteq> 0" unfolding n by simp
    ultimately show ?thesis using rb_ck_elts_ok[OF p, of 0 0] by (simp add: rb_ck_cnt_def)
  qed
qed

text \<open>A buffer as a queue.\<close>

definition rbuf_deq :: "rbuf \<Rightarrow> (addr \<times> rbuf) option" where
  "rbuf_deq rb = (case rbuf_get rb of (rb', x) \<Rightarrow> if x = NULL then None else Some (x, rb'))"

lemma rbuf_contents_nonnull: "NULL \<notin> set (rbuf_contents rb)"
  by (auto simp: rbuf_contents_def rbe_live_def live_nonnull)

interpretation rq: fifo_queue "\<lambda>_. rbuf_add" rbuf_deq rbuf_contents rbuf_ok "\<lambda>_ _. True" "\<lambda>x. x \<noteq> NULL"
proof
  fix q :: rbuf and x :: addr
  assume q: "rbuf_ok q"
  show "rbuf_contents (rbuf_add x q) = rbuf_contents q @ [x]" "rbuf_ok (rbuf_add x q)" if "x \<noteq> NULL"
    using rbuf_add_ok[OF q that] by simp_all
  have nn: "y \<noteq> NULL" if "rbuf_contents q = y # ys" for y ys
    using rbuf_contents_nonnull[of q] that by auto
  show "(rbuf_deq q = None) = (rbuf_contents q = [])"
    using rbuf_get_empty[of q] rbuf_get_ok[OF q] nn
    by (cases "rbuf_contents q") (force simp: rbuf_deq_def)+
  fix q'
  assume "rbuf_deq q = Some (x, q')"
  then show "rbuf_contents q = x # rbuf_contents q'" "rbuf_ok q'"
    using rbuf_get_empty[of q] rbuf_get_ok[OF q] nn
    by (cases "rbuf_contents q"; force simp: rbuf_deq_def split: if_splits)+
qed

subsection \<open>Deleting during an iteration\<close>

lemma merge_first_eq:
  "fst (merge_first d di sl (tmp, skip, before)) = tmp @ filter (\<lambda>x. x \<noteq> NULL) (map ((!) d) sl) \<and>
   fst (snd (merge_first d di sl (tmp, skip, before))) =
     skip + (if before then length (filter (\<lambda>x. x \<noteq> NULL) (map ((!) d) (takeWhile (\<lambda>i. int i \<noteq> di) sl))) else 0)"
  by (induction sl arbitrary: tmp skip before) (auto simp: Let_def)

lemma merge_second_eq: "merge_second d sl tmp = tmp @ filter (\<lambda>x. x \<noteq> NULL) (map ((!) d) sl)"
  by (induction d sl tmp rule: merge_second.induct) auto

lemma takeWhile_slots:
  assumes "i \<in> set (rbe_slots r w)" "r < 128" "w < 128"
  shows "takeWhile (\<lambda>j. int j \<noteq> int i) (rbe_slots r w) = rbe_slots r i"
proof -
  have b: "i < 128" "i \<noteq> w" using rbe_slots_bounded[OF assms(2,3,1)] by auto
  have "\<And>x. x \<in> set (rbe_slots r i) \<Longrightarrow> int x \<noteq> int i" using rbe_slots_bounded[OF assms(2) b(1)] by auto
  then show ?thesis
    unfolding rbe_slots_split[OF assms] rbe_slots_ne[OF b(2) assms(3)] by (subst takeWhile_append2) auto
qed

lemma rbe_slots_upt: "b < 128 \<Longrightarrow> a \<le> b \<Longrightarrow> rbe_slots a b = [a..<b]"
proof (induction a b rule: rbe_slots.induct)
  case (1 a b)
  then show ?case
    by (cases "a = b") (simp_all add: rbe_slots_ne[of a b] RBE_NEXT_if upt_conv_Cons)
qed

lemma live_prefix:
  assumes "NULL \<notin> set xs" "length xs < 128" "a \<le> b" "b \<le> length xs"
  shows "live (xs @ ys) a b = take (b - a) (drop a xs)"
proof -
  have "map ((!) (xs @ ys)) [a..<b] = take (b - a) (drop a xs)"
    using assms(3,4) by (intro nth_equalityI) (auto simp: nth_append)
  moreover have "filter (\<lambda>x. x \<noteq> NULL) (take (b - a) (drop a xs)) = take (b - a) (drop a xs)"
    using assms(1) by (intro filter_True) (metis in_set_dropD in_set_takeD)
  ultimately show ?thesis
    using assms by (simp add: live_def rbe_slots_upt)
qed

text \<open>Merging a segment into the next one, after the slot \<open>i\<close> has been cleared.\<close>

lemma rbe_merge_next_ok:
  assumes "rbe_ok e" "rbe_ok n" "i \<in> set (rbe_slots (rbe_read e) (rbe_write e))"
    "length (rbe_live e) + length (rbe_live n) < 128"
  defines "L \<equiv> live (rbe_data e) (rbe_read e) i"
  shows "\<exists>e' n'. rbe_merge_next e n (int i) = Some (e', n', length L) \<and> rbe_ok n' \<and>
    rbe_live n' = rbe_live e @ rbe_live n \<and> rbe_read n' = 0 \<and> rbe_write n' = length (rbe_live n') \<and>
    live (rbe_data n') 0 (length L) = L \<and>
    live (rbe_data n') (length L) (rbe_write n') = drop (length L) (rbe_live e) @ rbe_live n"
proof -
  define X where "X = rbe_live e @ rbe_live n"
  have e: "rbe_read e < 128" "rbe_write e < 128" "rbe_count e = int (length (rbe_live e))"
    and n: "length (rbe_data n) = 128" "rbe_count n = int (length (rbe_live n))"
    using assms(1,2) by (simp_all add: rbe_ok_def)
  have pre: "rbe_live e = L @ live (rbe_data e) i (rbe_write e)"
    using live_split[OF assms(3) e(1,2)] by (simp add: L_def rbe_live_def)
  obtain bf where f: "merge_first (rbe_data e) (int i) (rbe_slots (rbe_read e) (rbe_write e)) ([], 0, True) =
      (rbe_live e, length L, bf)"
    using merge_first_eq[of "rbe_data e" "int i" "rbe_slots (rbe_read e) (rbe_write e)" "[]" 0 True]
    unfolding takeWhile_slots[OF assms(3) e(1,2)]
    by (simp add: rbe_live_def live_def L_def) (metis prod.collapse)
  have s: "merge_second (rbe_data n) (rbe_slots (rbe_read n) (rbe_write n)) (rbe_live e) = X"
    by (simp add: merge_second_eq rbe_live_def live_def X_def)
  define n' where "n' = n\<lparr>rbe_data := X @ drop (length X) (rbe_data n),
      rbe_count := rbe_count n + rbe_count e, rbe_read := 0, rbe_write := length X\<rparr>"
  have nn: "NULL \<notin> set X" using live_nonnull by (auto simp: X_def rbe_live_def)
  have lx: "length X < 128" using assms(4) by (simp add: X_def)
  have lv: "live (rbe_data n') a b = take (b - a) (drop a X)" if "a \<le> b" "b \<le> length X" for a b
    using live_prefix[OF nn lx that] by (simp add: n'_def)
  have l': "rbe_live n' = X" using lv[of 0 "length X"] by (simp add: rbe_live_def n'_def)
  have "\<exists>e'. rbe_merge_next e n (int i) = Some (e', n', length L)"
    unfolding rbe_merge_next_def f prod.case Let_def s using e(3) n(2) by (simp add: n'_def X_def)
  moreover have "rbe_ok n'"
    using lx n e(3) l' by (simp add: rbe_ok_def) (simp add: n'_def X_def)
  moreover have "length L \<le> length X" by (simp add: X_def pre)
  then have "live (rbe_data n') 0 (length L) = L"
    "live (rbe_data n') (length L) (length X) = drop (length L) (rbe_live e) @ rbe_live n"
    using lv[of 0 "length L"] lv[of "length L" "length X"] by (simp_all add: X_def pre)
  ultimately show ?thesis using l' by (auto simp: n'_def X_def)
qed

lemma rbe_slots_length: "r < 128 \<Longrightarrow> w < 128 \<Longrightarrow> length (rbe_slots r w) = (w + 128 - r) mod 128"
proof (induction r w rule: rbe_slots.induct)
  case (1 r w)
  then show ?case by (cases "r = w") (simp_all add: rbe_slots_ne[of r w] ring_step[of r w])
qed

lemma live_length: "length (live d r w) \<le> length (rbe_slots r w)"
  unfolding live_def by (metis length_filter_le length_map)

lemma rbe_slots_step:
  assumes "i \<in> set (rbe_slots r w)" "r < 128" "w < 128"
  shows "RBE_NEXT i \<in> set (rbe_slots r w) \<or> RBE_NEXT i = w" "RBE_NEXT i \<noteq> r"
proof -
  have b: "i < 128" "i \<noteq> w" "(w + 128 - i) mod 128 \<le> (w + 128 - r) mod 128"
    using rbe_slots_bounded[OF assms(2,3,1)] by auto
  show "RBE_NEXT i \<in> set (rbe_slots r w) \<or> RBE_NEXT i = w"
    using rbe_slots_split[OF assms] rbe_slots_ne[OF b(2) assms(3)] rbe_slots_ne[of "RBE_NEXT i" w] assms(3)
    by (cases "RBE_NEXT i = w") simp_all
  show "RBE_NEXT i \<noteq> r" using ring_step[OF b(1) assms(3) b(2)] b(3) by auto
qed

text \<open>Where an iteration stands: what it has passed, what is ahead of it, and a bound on its steps.\<close>

definition itr_passed :: "rbuf_elt list \<Rightarrow> rbuf_elt \<Rightarrow> nat \<Rightarrow> addr list" where
  "itr_passed pre e i = concat (map rbe_live pre) @ live (rbe_data e) (rbe_read e) i"

definition itr_ahead :: "rbuf_elt \<Rightarrow> nat \<Rightarrow> rbuf_elt list \<Rightarrow> addr list" where
  "itr_ahead e i post = live (rbe_data e) i (rbe_write e) @ concat (map rbe_live post)"

definition itr_steps :: "rbuf_elt \<Rightarrow> nat \<Rightarrow> rbuf_elt list \<Rightarrow> nat" where
  "itr_steps e i post = length (rbe_slots i (rbe_write e)) +
     sum_list (map (\<lambda>e. length (rbe_slots (rbe_read e) (rbe_write e)) + 1) post)"

definition itr :: "rbuf \<Rightarrow> nat \<Rightarrow> int \<Rightarrow> addr list \<Rightarrow> addr list \<Rightarrow> nat \<Rightarrow> bool" where
  "itr rb k s K R m \<longleftrightarrow>
     (length (rb_elts rb) \<le> k \<and> K = rbuf_contents rb \<and> R = []) \<or>
     (\<exists>pre e post i. rb_elts rb = pre @ e # post \<and> k = length pre \<and> s = int i \<and>
        (i \<in> set (rbe_slots (rbe_read e) (rbe_write e)) \<or> i = rbe_write e) \<and>
        K = itr_passed pre e i \<and> R = itr_ahead e i post \<and> itr_steps e i post \<le> m)"

lemma itr_segment:
  assumes "rb_elts rb = pre @ e # post" "rbe_ok e"
  shows "itr rb (length pre) (int (rbe_read e)) (concat (map rbe_live pre))
    (concat (map rbe_live (e # post))) (itr_steps e (rbe_read e) post)"
proof -
  have "rbe_write e < 128" using assms(2) by (simp add: rbe_ok_def)
  then have r: "rbe_read e \<in> set (rbe_slots (rbe_read e) (rbe_write e)) \<or> rbe_read e = rbe_write e"
    using rbe_slots_ne[of "rbe_read e" "rbe_write e"] by auto
  show ?thesis
    unfolding itr_def using assms(1) r
    by (intro disjI2 exI[of _ pre] exI[of _ e] exI[of _ post] exI[of _ "rbe_read e"])
       (simp add: itr_passed_def itr_ahead_def rbe_live_def)
qed

text \<open>Clearing a slot, without removing the segment.\<close>

definition rbe_clear :: "nat \<Rightarrow> rbuf_elt \<Rightarrow> rbuf_elt" where
  "rbe_clear i e = e\<lparr>rbe_data := (rbe_data e)[i := NULL], rbe_count := rbe_count e - 1\<rparr>"

definition rbe_bump :: "nat \<Rightarrow> rbuf_elt \<Rightarrow> rbuf_elt" where
  "rbe_bump i e = (if i = rbe_read e then e\<lparr>rbe_read := RBE_NEXT (rbe_read e)\<rparr> else e)"

lemma rbe_clear_ok:
  assumes "rbe_ok e" "i \<in> set (rbe_slots (rbe_read e) (rbe_write e))" "rbe_data e ! i \<noteq> NULL"
  shows "rbe_ok (rbe_clear i e)"
    "rbe_live (rbe_clear i e) =
       live (rbe_data e) (rbe_read e) i @ live (rbe_data e) (RBE_NEXT i) (rbe_write e)"
    "live (rbe_data (rbe_clear i e)) (rbe_read e) i = live (rbe_data e) (rbe_read e) i"
proof -
  have e: "length (rbe_data e) = 128" "rbe_read e < 128" "rbe_write e < 128"
    "rbe_count e = int (length (rbe_live e))" using assms(1) by (auto simp: rbe_ok_def)
  note d = live_delete[OF assms(2) e(2,3,1)]
  show l: "rbe_live (rbe_clear i e) =
       live (rbe_data e) (rbe_read e) i @ live (rbe_data e) (RBE_NEXT i) (rbe_write e)"
    using d(1) by (simp add: rbe_live_def rbe_clear_def)
  show "live (rbe_data (rbe_clear i e)) (rbe_read e) i = live (rbe_data e) (rbe_read e) i"
    using d(2) by (simp add: rbe_clear_def)
  have "rbe_count (rbe_clear i e) = int (length (rbe_live (rbe_clear i e)))"
    using e(4) d(4)[OF assms(3)] unfolding l by (simp add: rbe_live_def rbe_clear_def)
  then show "rbe_ok (rbe_clear i e)" using e by (simp add: rbe_ok_def) (simp add: rbe_clear_def)
qed

lemma rbe_clear_bump_ok:
  assumes "rbe_ok e" "i \<in> set (rbe_slots (rbe_read e) (rbe_write e))" "rbe_data e ! i \<noteq> NULL"
  defines "e2 \<equiv> rbe_bump i (rbe_clear i e)"
  shows "rbe_ok e2" "rbe_live e2 = rbe_live (rbe_clear i e)" "rbe_write e2 = rbe_write e"
    "RBE_NEXT i \<in> set (rbe_slots (rbe_read e2) (rbe_write e2)) \<or> RBE_NEXT i = rbe_write e2"
    "live (rbe_data e2) (rbe_read e2) (RBE_NEXT i) = live (rbe_data e) (rbe_read e) i"
    "live (rbe_data e2) (RBE_NEXT i) (rbe_write e2) = live (rbe_data e) (RBE_NEXT i) (rbe_write e)"
proof -
  have e: "length (rbe_data e) = 128" "rbe_read e < 128" "rbe_write e < 128" using assms(1) by (auto simp: rbe_ok_def)
  have b: "i < 128" "i \<noteq> rbe_write e" using rbe_slots_bounded[OF e(2,3) assms(2)] by auto
  note c = rbe_clear_ok[OF assms(1-3)] and st = rbe_slots_step[OF assms(2) e(2,3)]
  have z: "rbe_data (rbe_clear i e) ! i = NULL" using b e by (simp add: rbe_clear_def)
  have same: "rbe_read (rbe_clear i e) = rbe_read e" "rbe_write (rbe_clear i e) = rbe_write e"
    by (simp_all add: rbe_clear_def)
  show w: "rbe_write e2 = rbe_write e" by (simp add: e2_def rbe_bump_def rbe_clear_def)
  show "rbe_ok e2" "rbe_live e2 = rbe_live (rbe_clear i e)"
    using rbe_bump_ok[OF c(1)] c(1) z b same by (auto simp: e2_def rbe_bump_def)
  show "RBE_NEXT i \<in> set (rbe_slots (rbe_read e2) (rbe_write e2)) \<or> RBE_NEXT i = rbe_write e2"
    using st(1) rbe_slots_ne[of "RBE_NEXT i" "rbe_write e"] e(3) same unfolding w
    by (cases "RBE_NEXT i = rbe_write e") (auto simp: e2_def rbe_bump_def)
  show "live (rbe_data e2) (rbe_read e2) (RBE_NEXT i) = live (rbe_data e) (rbe_read e) i"
    using c(3) z same live_snoc[OF e(2) b(1) st(2), of "rbe_data (rbe_clear i e)"]
    by (cases "i = rbe_read e") (auto simp: e2_def rbe_bump_def)
  show "live (rbe_data e2) (RBE_NEXT i) (rbe_write e2) = live (rbe_data e) (RBE_NEXT i) (rbe_write e)"
    using live_delete(3)[OF assms(2) e(2,3,1)]
    by (cases "i = rbe_read e") (auto simp: e2_def rbe_bump_def rbe_clear_def)
qed

lemma rbuf_delete_eq:
  "rbuf_delete rb k i =
     (let elts = rb_elts rb; c = rbe_clear i (elts ! k); n = elts ! (k + 1);
          rb = rb\<lparr>rb_count := rb_count rb - 1\<rparr> in
      if length elts > 1 \<and> k + 1 < length elts \<and> rbe_count c < 84 \<and> rbe_count c + rbe_count n < 128 then
        (case rbe_merge_next c n (int i) of
           None \<Rightarrow> None
         | Some (rbe, nxt, skip) \<Rightarrow>
             Some (rb\<lparr>rb_elts := take k elts @ nxt # drop (k + 2) elts\<rparr>, - int skip - 2))
      else if length elts > 1 \<and> rbe_count c = 0 then
        Some (rb\<lparr>rb_elts := take k elts @ drop (k + 1) elts\<rparr>, - 1)
      else Some (rb\<lparr>rb_elts := elts[k := rbe_bump i c]\<rparr>, int i))"
  by (simp add: rbuf_delete_def rbe_clear_def rbe_bump_def Let_def RBE_LEN_def)

text \<open>The facts about a used slot \<open>i\<close> of a segment \<open>e\<close> that the cases of a deletion share.\<close>

lemma rbuf_slot:
  assumes "rbuf_ok rb" "rb_elts rb = pre @ e # post" "i \<in> set (rbe_slots (rbe_read e) (rbe_write e))"
    "rbe_data e ! i \<noteq> NULL"
  defines "L \<equiv> live (rbe_data e) (rbe_read e) i"
    and "R \<equiv> live (rbe_data e) (RBE_NEXT i) (rbe_write e)"
  shows "\<forall>x \<in> set pre. rbe_ok x" "rbe_ok e" "\<forall>x \<in> set post. rbe_ok x"
    "pre \<noteq> [] \<or> post \<noteq> [] \<Longrightarrow> \<forall>x \<in> set (pre @ post). rbe_live x \<noteq> []"
    "rbe_live (rbe_clear i e) = L @ R"
    "rb_count rb - 1 = int (length (concat (map rbe_live pre) @ L @ R @ concat (map rbe_live post)))"
    "length (rbe_slots i (rbe_write e)) = Suc (length (rbe_slots (RBE_NEXT i) (rbe_write e)))"
proof -
  show ok: "\<forall>x \<in> set pre. rbe_ok x" "rbe_ok e" "\<forall>x \<in> set post. rbe_ok x"
    using assms(1,2) by (auto simp: rbuf_ok_def)
  show "pre \<noteq> [] \<or> post \<noteq> [] \<Longrightarrow> \<forall>x \<in> set (pre @ post). rbe_live x \<noteq> []"
    using assms(1,2) by (auto simp: rbuf_ok_def)
  have e: "length (rbe_data e) = 128" "rbe_read e < 128" "rbe_write e < 128" using ok(2) by (auto simp: rbe_ok_def)
  have "length (rbe_live e) = Suc (length (L @ R))"
    using live_delete(4)[OF assms(3) e(2,3,1) assms(4)] by (simp add: rbe_live_def L_def R_def)
  then show "rb_count rb - 1 = int (length (concat (map rbe_live pre) @ L @ R @ concat (map rbe_live post)))"
    using assms(1,2) by (simp add: rbuf_ok_def)
  show "rbe_live (rbe_clear i e) = L @ R"
    using rbe_clear_ok(2)[OF ok(2) assms(3,4)] by (simp add: L_def R_def)
  have "i \<noteq> rbe_write e" using rbe_slots_bounded[OF e(2,3) assms(3)] by auto
  then show "length (rbe_slots i (rbe_write e)) = Suc (length (rbe_slots (RBE_NEXT i) (rbe_write e)))"
    using rbe_slots_ne e(3) by simp
qed

lemma rbuf_delete_keep:
  assumes s: "rbuf_ok rb" "rb_elts rb = pre @ e # post" "i \<in> set (rbe_slots (rbe_read e) (rbe_write e))"
    "rbe_data e ! i \<noteq> NULL"
    and live: "pre \<noteq> [] \<or> post \<noteq> [] \<Longrightarrow> rbe_live (rbe_clear i e) \<noteq> []"
  defines "e2 \<equiv> rbe_bump i (rbe_clear i e)"
  defines "rb' \<equiv> rb\<lparr>rb_count := rb_count rb - 1, rb_elts := pre @ e2 # post\<rparr>"
  shows "rbuf_ok rb'" "itr_steps e2 (RBE_NEXT i) post < itr_steps e i post"
    "itr rb' (length pre) (int (RBE_NEXT i)) (itr_passed pre e i) (itr_ahead e (RBE_NEXT i) post)
       (itr_steps e2 (RBE_NEXT i) post)"
proof -
  note f = rbuf_slot[OF s] and bp = rbe_clear_bump_ok[OF rbuf_slot(2)[OF s] s(3,4), folded e2_def]
  show "rbuf_ok rb'"
    using f(1,3-6) bp(1,2) live by (auto simp: rbuf_ok_def rb'_def)
  show "itr_steps e2 (RBE_NEXT i) post < itr_steps e i post" using f(7) bp(3) by (simp add: itr_steps_def)
  show "itr rb' (length pre) (int (RBE_NEXT i)) (itr_passed pre e i) (itr_ahead e (RBE_NEXT i) post)
       (itr_steps e2 (RBE_NEXT i) post)"
    unfolding itr_def using bp(3-6)
    by (intro disjI2 exI[of _ pre] exI[of _ e2] exI[of _ post] exI[of _ "RBE_NEXT i"])
       (simp add: rb'_def itr_passed_def itr_ahead_def)
qed

lemma rbuf_delete_gone:
  assumes s: "rbuf_ok rb" "rb_elts rb = pre @ [e]" "i \<in> set (rbe_slots (rbe_read e) (rbe_write e))"
    "rbe_data e ! i \<noteq> NULL"
    and empty: "rbe_live (rbe_clear i e) = []"
  defines "rb' \<equiv> rb\<lparr>rb_count := rb_count rb - 1, rb_elts := pre\<rparr>"
  shows "rbuf_ok rb'" "0 < itr_steps e i []"
    "itr rb' (length pre) (do_rbuf_start rb' (length pre) (- 1)) (itr_passed pre e i)
       (itr_ahead e (RBE_NEXT i) []) 0"
proof -
  note f = rbuf_slot[OF s]
  show "rbuf_ok rb'" using f(1,4-6) empty by (cases "pre = []") (auto simp: rbuf_ok_def rb'_def)
  show "0 < itr_steps e i []" using f(7) by (simp add: itr_steps_def)
  show "itr rb' (length pre) (do_rbuf_start rb' (length pre) (- 1)) (itr_passed pre e i)
       (itr_ahead e (RBE_NEXT i) []) 0"
    using f(5) empty by (simp add: itr_def rb'_def rbuf_contents_def itr_passed_def itr_ahead_def)
qed

lemma rbuf_delete_merged:
  assumes s: "rbuf_ok rb" "rb_elts rb = pre @ e # n # post" "i \<in> set (rbe_slots (rbe_read e) (rbe_write e))"
    "rbe_data e ! i \<noteq> NULL"
    and small: "length (rbe_live (rbe_clear i e)) + length (rbe_live n) < 128"
  shows "\<exists>c' n' skip. rbe_merge_next (rbe_clear i e) n (int i) = Some (c', n', skip) \<and>
    (let rb' = rb\<lparr>rb_count := rb_count rb - 1, rb_elts := pre @ n' # post\<rparr> in
     rbuf_ok rb' \<and> itr_steps n' skip post < itr_steps e i (n # post) \<and>
     itr rb' (length pre) (do_rbuf_start rb' (length pre) (- int skip - 2)) (itr_passed pre e i)
       (itr_ahead e (RBE_NEXT i) (n # post)) (itr_steps n' skip post))"
proof -
  define c where "c = rbe_clear i e"
  define L where "L = live (rbe_data e) (rbe_read e) i"
  define R where "R = live (rbe_data e) (RBE_NEXT i) (rbe_write e)"
  note f = rbuf_slot[OF s, folded c_def L_def R_def]
  note cl = rbe_clear_ok[OF f(2) s(3,4), folded c_def L_def R_def]
  have okn: "rbe_ok n" using f(3) by simp
  have ic: "i \<in> set (rbe_slots (rbe_read c) (rbe_write c))" "rbe_read c = rbe_read e"
    using s(3) by (simp_all add: c_def rbe_clear_def)
  obtain c' n' where n': "rbe_merge_next c n (int i) = Some (c', n', length L)" "rbe_ok n'"
      "rbe_live n' = (L @ R) @ rbe_live n" "rbe_read n' = 0" "rbe_write n' = length (rbe_live n')"
      "live (rbe_data n') 0 (length L) = L"
      "live (rbe_data n') (length L) (rbe_write n') = R @ rbe_live n"
    using rbe_merge_next_ok[OF cl(1) okn ic(1) small[folded c_def]] unfolding ic(2) cl(3) f(5) by auto
  define rb' where "rb' = rb\<lparr>rb_count := rb_count rb - 1, rb_elts := pre @ n' # post\<rparr>"
  have w: "rbe_write n' < 128" using n'(2) by (simp add: rbe_ok_def)
  have "rbuf_ok rb'" using f(1,3,4,6) n'(2,3) by (auto simp: rbuf_ok_def rb'_def)
  moreover have "length L \<in> set (rbe_slots 0 (rbe_write n')) \<or> length L = rbe_write n'"
    using w n'(3,5) by (auto simp: rbe_slots_upt)
  then have "itr rb' (length pre) (do_rbuf_start rb' (length pre) (- int (length L) - 2)) (itr_passed pre e i)
      (itr_ahead e (RBE_NEXT i) (n # post)) (itr_steps n' (length L) post)"
    unfolding itr_def using n'(4,6,7)
    by (intro disjI2 exI[of _ pre] exI[of _ n'] exI[of _ post] exI[of _ "length L"])
       (simp add: rb'_def itr_passed_def itr_ahead_def do_rbuf_start_def L_def R_def)
  moreover have "length (rbe_slots (length L) (rbe_write n')) = length R + length (rbe_live n)"
    using w n'(3,5) by (simp add: rbe_slots_upt)
  then have "itr_steps n' (length L) post < itr_steps e i (n # post)"
    using f(7) live_length[of "rbe_data e" "RBE_NEXT i" "rbe_write e"]
      live_length[of "rbe_data n" "rbe_read n" "rbe_write n"]
    unfolding itr_steps_def R_def rbe_live_def by simp
  ultimately show ?thesis using n'(1) by (auto simp: c_def rb'_def Let_def)
qed

lemma rbe_live_less: "rbe_ok n \<Longrightarrow> length (rbe_live n) < 128"
  using live_length[of "rbe_data n" "rbe_read n" "rbe_write n"]
    rbe_slots_length[of "rbe_read n" "rbe_write n"]
    mod_less_divisor[of 128 "rbe_write n + 128 - rbe_read n"]
  by (simp add: rbe_ok_def rbe_live_def)

text \<open>
  Deleting the element in slot \<open>i\<close> of a segment leaves a well-formed buffer, and the index it
  returns makes the iteration go on right after that element.
\<close>

lemma rbuf_delete_itr:
  assumes s: "rbuf_ok rb" "rb_elts rb = pre @ e # post" "i \<in> set (rbe_slots (rbe_read e) (rbe_write e))"
    "rbe_data e ! i \<noteq> NULL"
  shows "\<exists>rb' j m. rbuf_delete rb (length pre) i = Some (rb', j) \<and> rbuf_ok rb' \<and>
    m < itr_steps e i post \<and>
    itr rb' (length pre) (if 0 \<le> j then int (RBE_NEXT (nat j)) else do_rbuf_start rb' (length pre) j)
      (itr_passed pre e i) (itr_ahead e (RBE_NEXT i) post) m"
proof -
  define c where "c = rbe_clear i e"
  have cc: "rbe_count c = int (length (rbe_live c))"
    using rbe_clear_ok(1)[OF rbuf_slot(2)[OF s] s(3,4)] by (simp add: rbe_ok_def c_def)
  have keep: ?thesis if "\<not> (pre @ post \<noteq> [] \<and> rbe_live c = [])"
      "rbuf_delete rb (length pre) i =
         Some (rb\<lparr>rb_count := rb_count rb - 1, rb_elts := pre @ rbe_bump i c # post\<rparr>, int i)"
    using rbuf_delete_keep[OF s] that by (auto simp: c_def)
  have gone: ?thesis if "post = []" "rbe_live c = []"
      "rbuf_delete rb (length pre) i = Some (rb\<lparr>rb_count := rb_count rb - 1, rb_elts := pre\<rparr>, - 1)"
    using rbuf_delete_gone[of rb pre e i] s that by (auto simp: c_def)
  show ?thesis
  proof (cases post)
    case Nil
    then have "rbuf_delete rb (length pre) i =
        (if pre \<noteq> [] \<and> rbe_live c = [] then Some (rb\<lparr>rb_count := rb_count rb - 1, rb_elts := pre\<rparr>, - 1)
         else Some (rb\<lparr>rb_count := rb_count rb - 1, rb_elts := pre @ rbe_bump i c # post\<rparr>, int i))"
      using s(2) cc by (simp add: rbuf_delete_eq Let_def c_def nth_append)
    then show ?thesis using keep gone Nil by (cases "pre \<noteq> [] \<and> rbe_live c = []") simp_all
  next
    case (Cons n post')
    have okn: "rbe_ok n" using rbuf_slot(3)[OF s] Cons by simp
    then have cn: "rbe_count n = int (length (rbe_live n))" "length (rbe_live n) < 128"
      using rbe_live_less by (auto simp: rbe_ok_def)
    have d: "rbuf_delete rb (length pre) i =
        (if rbe_count c < 84 \<and> rbe_count c + rbe_count n < 128 then
           (case rbe_merge_next c n (int i) of None \<Rightarrow> None
            | Some (rbe, nxt, skip) \<Rightarrow>
                Some (rb\<lparr>rb_count := rb_count rb - 1, rb_elts := pre @ nxt # post'\<rparr>, - int skip - 2))
         else Some (rb\<lparr>rb_count := rb_count rb - 1, rb_elts := pre @ rbe_bump i c # post\<rparr>, int i))"
      using s(2) cc cn Cons by (auto simp: rbuf_delete_eq Let_def c_def nth_append split: option.splits)
    show ?thesis
    proof (cases "rbe_count c < 84 \<and> rbe_count c + rbe_count n < 128")
      case True
      then obtain c' n' skip where "rbe_merge_next c n (int i) = Some (c', n', skip)"
          "let rb' = rb\<lparr>rb_count := rb_count rb - 1, rb_elts := pre @ n' # post'\<rparr> in
           rbuf_ok rb' \<and> itr_steps n' skip post' < itr_steps e i post \<and>
           itr rb' (length pre) (do_rbuf_start rb' (length pre) (- int skip - 2)) (itr_passed pre e i)
             (itr_ahead e (RBE_NEXT i) post) (itr_steps n' skip post')"
        using rbuf_delete_merged[of rb pre e n post' i] s cc cn Cons by (auto simp: c_def)
      then show ?thesis using d True by (auto simp: Let_def)
    next
      case False
      then have "rbe_live c \<noteq> []" using cc cn by auto
      then show ?thesis using keep d False by auto
    qed
  qed
qed

lemma rbe_passed_next:
  assumes "rbe_ok e" "i \<in> set (rbe_slots (rbe_read e) (rbe_write e))"
  shows "itr_passed pre e (RBE_NEXT i) =
      itr_passed pre e i @ (if rbe_data e ! i \<noteq> NULL then [rbe_data e ! i] else [])"
    "itr_ahead e i post = (if rbe_data e ! i \<noteq> NULL then [rbe_data e ! i] else []) @ itr_ahead e (RBE_NEXT i) post"
    "itr_steps e i post = Suc (itr_steps e (RBE_NEXT i) post)"
proof -
  have e: "rbe_read e < 128" "rbe_write e < 128" using assms(1) by (auto simp: rbe_ok_def)
  have b: "i < 128" "i \<noteq> rbe_write e" using rbe_slots_bounded[OF e assms(2)] by auto
  show "itr_passed pre e (RBE_NEXT i) =
      itr_passed pre e i @ (if rbe_data e ! i \<noteq> NULL then [rbe_data e ! i] else [])"
    using live_snoc[OF e(1) b(1) rbe_slots_step(2)[OF assms(2) e]] by (simp add: itr_passed_def)
  show "itr_ahead e i post = (if rbe_data e ! i \<noteq> NULL then [rbe_data e ! i] else []) @ itr_ahead e (RBE_NEXT i) post"
    using live_next[OF b(2) e(2)] by (simp add: itr_ahead_def)
  show "itr_steps e i post = Suc (itr_steps e (RBE_NEXT i) post)"
    using rbe_slots_ne[OF b(2) e(2)] by (simp add: itr_steps_def)
qed

text \<open>
  One step of the loop: it ends, or it goes on from a position that is closer to the end after it
  has seen the next element (or none, at an unused slot or at the end of a segment).
\<close>

lemma do_rbuf_step:
  assumes "rbuf_ok rb" "itr rb k s K R m"
  obtains (fin) "R = []" "K = rbuf_contents rb" "\<And>vis. do_rbuf del rb k s vis = Some (rb, vis)"
  | (skip) k' s' m' where "itr rb k' s' K R m'" "m' < m"
      "\<And>vis. do_rbuf del rb k s vis = do_rbuf del rb k' s' vis"
  | (item) x rb' k' s' m' R' where "R = x # R'" "rbuf_ok rb'" "m' < m"
      "itr rb' k' s' (if del x then K else K @ [x]) R' m'"
      "\<And>vis. do_rbuf del rb k s vis = do_rbuf del rb' k' s' (vis @ [x])"
proof (cases "length (rb_elts rb) \<le> k")
  case True
  then have "R = []" "K = rbuf_contents rb" using assms(2) by (auto simp: itr_def)
  then show ?thesis using True by (intro fin) (simp_all add: do_rbuf.simps)
next
  case False
  then obtain pre e post i where p: "rb_elts rb = pre @ e # post" "k = length pre" "s = int i"
      "i \<in> set (rbe_slots (rbe_read e) (rbe_write e)) \<or> i = rbe_write e"
      "K = itr_passed pre e i" "R = itr_ahead e i post" "itr_steps e i post \<le> m"
    using assms(2) by (auto simp: itr_def)
  have ok: "rbe_ok e" "\<forall>x \<in> set post. rbe_ok x" using assms(1) p(1) by (auto simp: rbuf_ok_def)
  have ek: "rb_elts rb ! k = e" "\<not> length (rb_elts rb) \<le> k" using p(1,2) by simp_all
  show ?thesis
  proof (cases "i = rbe_write e")
    case True
    have st: "do_rbuf del rb k s vis = do_rbuf del rb (k + 1) (do_rbuf_start rb (k + 1) (int i)) vis" for vis
      using ek p(3) True by (subst do_rbuf.simps) (simp add: Let_def)
    have K: "K = concat (map rbe_live (pre @ [e]))" "R = concat (map rbe_live post)"
      using p(5,6) True by (simp_all add: itr_passed_def itr_ahead_def rbe_live_def)
    show ?thesis
    proof (cases post)
      case Nil
      then show ?thesis
        using st p(1,2) K by (intro fin) (simp_all add: rbuf_contents_def do_rbuf.simps)
    next
      case (Cons e' post')
      have "do_rbuf_start rb (k + 1) (int i) = int (rbe_read e')"
        using p(1,2) Cons by (simp add: do_rbuf_start_def nth_append)
      moreover have "itr rb (length (pre @ [e])) (int (rbe_read e')) K R (itr_steps e' (rbe_read e') post')"
        unfolding K Cons by (rule itr_segment) (use p(1) ok(2) Cons in simp_all)
      moreover have "itr_steps e' (rbe_read e') post' < m"
        using p(7) Cons by (simp add: itr_steps_def)
      ultimately show ?thesis using st p(2) by (intro skip[of "k + 1"]) simp_all
    qed
  next
    case False
    then have i: "i \<in> set (rbe_slots (rbe_read e) (rbe_write e))" using p(4) by blast
    note nx = rbe_passed_next[OF ok(1) i]
    have "rbe_read e < 128" "rbe_write e < 128" using ok(1) by (auto simp: rbe_ok_def)
    then have at: "itr rb k (int (RBE_NEXT i)) (itr_passed pre e (RBE_NEXT i)) (itr_ahead e (RBE_NEXT i) post)
        (itr_steps e (RBE_NEXT i) post)"
      unfolding itr_def using p(1,2) rbe_slots_step(1)[OF i] by blast
    have lt: "itr_steps e (RBE_NEXT i) post < m" using p(7) nx(3) by simp
    show ?thesis
    proof (cases "rbe_data e ! i = NULL")
      case True
      have "do_rbuf del rb k s vis = do_rbuf del rb k (int (RBE_NEXT i)) vis" for vis
        using ek p(3) False True by (subst do_rbuf.simps) (simp add: Let_def)
      then show ?thesis using at lt nx(1,2) True p(5,6) by (intro skip[of k]) simp_all
    next
      case used: False
      define x where "x = rbe_data e ! i"
      have R: "R = x # itr_ahead e (RBE_NEXT i) post" using nx(2) used p(6) by (simp add: x_def)
      show ?thesis
      proof (cases "del x")
        case True
        obtain rb' j m' where d: "rbuf_delete rb k i = Some (rb', j)" "rbuf_ok rb'" "m' < itr_steps e i post"
            "itr rb' k (if 0 \<le> j then int (RBE_NEXT (nat j)) else do_rbuf_start rb' k j)
              (itr_passed pre e i) (itr_ahead e (RBE_NEXT i) post) m'"
          using rbuf_delete_itr[OF assms(1) p(1) i used] p(2) by blast
        have "do_rbuf del rb k s vis = do_rbuf del rb' k
            (if 0 \<le> j then int (RBE_NEXT (nat j)) else do_rbuf_start rb' k j) (vis @ [x])" for vis
          using ek p(3) False True used d(1) by (subst do_rbuf.simps) (simp add: Let_def x_def)
        then show ?thesis using R d(2-4) p(5,7) True by (intro item[of x _ rb' m' k]) simp_all
      next
        case kept: False
        have "do_rbuf del rb k s vis = do_rbuf del rb k (int (RBE_NEXT i)) (vis @ [x])" for vis
          using ek p(3) False kept used by (subst do_rbuf.simps) (simp add: Let_def x_def)
        then show ?thesis
          using R assms(1) lt at nx(1) used p(5) kept
          by (intro item[of x _ rb "itr_steps e (RBE_NEXT i) post" k "int (RBE_NEXT i)"])
             (simp_all add: x_def)
      qed
    qed
  qed
qed

lemma do_rbuf_ok:
  assumes "rbuf_ok rb" "itr rb k s K R m"
  shows "\<exists>rb'. do_rbuf del rb k s vis = Some (rb', vis @ R) \<and> rbuf_ok rb' \<and>
    rbuf_contents rb' = K @ filter (\<lambda>x. \<not> del x) R"
  using assms
proof (induction m arbitrary: rb k s K R vis rule: less_induct)
  case (less m)
  show ?case
  proof (cases rule: do_rbuf_step[OF less.prems, of del, case_names fin skip item])
    case fin
    then show ?thesis using less.prems(1) by simp
  next
    case (skip k' s' m')
    then show ?thesis using less.IH[OF skip(2) less.prems(1) skip(1)] by simp
  next
    case (item x rb' k' s' m' R')
    then show ?thesis
      using less.IH[OF item(3,2,4), of "vis @ [x]"] by (cases "del x") auto
  qed
qed

lemma DO_RBUF_ok:
  assumes "rbuf_ok rb"
  shows "\<exists>rb'. DO_RBUF del rb = Some (rb', rbuf_contents rb) \<and> rbuf_ok rb' \<and>
    rbuf_contents rb' = filter (\<lambda>x. \<not> del x) (rbuf_contents rb)"
proof (cases "rb_elts rb")
  case Nil
  then show ?thesis using assms by (simp add: DO_RBUF_def do_rbuf.simps rbuf_contents_def)
next
  case (Cons e rest)
  then have "itr rb 0 (do_rbuf_start rb 0 0) [] (rbuf_contents rb) (itr_steps e (rbe_read e) rest)"
    using itr_segment[of rb "[]" e rest] assms by (simp add: rbuf_ok_def do_rbuf_start_def rbuf_contents_def)
  from do_rbuf_ok[OF assms this, of del "[]"] show ?thesis by (simp add: DO_RBUF_def)
qed

subsection \<open>Appending one buffer to another\<close>

lemma rbuf_append_loop_ok:
  assumes "rbuf_ok dest" "rbuf_ok src"
  shows "\<exists>d s. rbuf_append_loop dest src = Some (d, s) \<and> rbuf_ok d \<and> rbuf_ok s \<and>
    rbuf_contents d = rbuf_contents dest @ rbuf_contents src \<and> rbuf_contents s = []"
  using assms
proof (induction "rbuf_contents src" arbitrary: dest src)
  case Nil
  then show ?case using rbuf_get_empty[of src] by (simp add: rbuf_append_loop.simps)
next
  case (Cons x xs)
  then obtain src' where g: "rbuf_get src = (src', x)" "rbuf_ok src'" "xs = rbuf_contents src'"
    using rbuf_get_ok[OF Cons.prems(2) Cons.hyps(2)[symmetric]] by auto
  have x: "x \<noteq> NULL" using rbuf_contents_nonnull[of src] Cons.hyps(2) by (metis list.set_intros(1))
  have l: "rbuf_append_loop dest src = rbuf_append_loop (rbuf_add x dest) src'"
    using g(1) x by (subst rbuf_append_loop.simps) simp
  note ad = rbuf_add_ok[OF Cons.prems(1) x]
  from Cons.hyps(1)[OF g(3) ad(1) g(2)] show ?case
    unfolding l ad(2) g(3)[symmetric] Cons.hyps(2)[symmetric] by simp
qed

text \<open>A buffer that holds something has no empty segment.\<close>

lemma rbuf_nonempty_segments:
  assumes "rbuf_ok rb" "rbuf_contents rb \<noteq> []"
  shows "\<forall>e \<in> set (rb_elts rb). rbe_live e \<noteq> []"
proof (cases "1 < length (rb_elts rb)")
  case True
  then show ?thesis using assms(1) by (simp add: rbuf_ok_def)
next
  case False
  then show ?thesis using assms(2)
    by (cases "rb_elts rb" rule: list.exhaust; cases "tl (rb_elts rb)") (auto simp: rbuf_contents_def)
qed

lemma rbuf_append_ok:
  assumes "rbuf_ok dest" "rbuf_ok src"
  shows "\<exists>d s. rbuf_append dest src = Some (d, s) \<and> rbuf_ok d \<and> rbuf_ok s \<and>
    rbuf_contents d = rbuf_contents dest @ rbuf_contents src \<and> rbuf_contents s = []"
proof -
  note cd = rbuf_ok_contents[OF assms(1)] and cs = rbuf_ok_contents[OF assms(2)]
  consider "rb_count src = 0" | "rb_count src \<noteq> 0" "rb_count src < 10" | "10 \<le> rb_count src" by linarith
  then show ?thesis
  proof cases
    case 1
    then show ?thesis using assms cs by (auto simp: rbuf_append_def)
  next
    case 2
    then show ?thesis using rbuf_append_loop_ok[OF assms] by (simp add: rbuf_append_def)
  next
    case 3
    then have ne: "rbuf_contents src \<noteq> []" using cs by auto
    define elts where "elts = (if rb_count dest = 0 then rb_elts src else rb_elts dest @ rb_elts src)"
    define d where "d = dest\<lparr>rb_elts := elts, rb_count := rb_count dest + rb_count src\<rparr>"
    have "rb_elts dest = [] \<Longrightarrow> rb_count dest = 0" using cd by (simp add: rbuf_contents_def)
    then have ap: "rbuf_append dest src = Some (d, src\<lparr>rb_count := 0, rb_elts := []\<rparr>)"
      using 3 by (auto simp: rbuf_append_def d_def elts_def)
    have c: "rbuf_contents d = rbuf_contents dest @ rbuf_contents src"
      using cd by (auto simp: d_def elts_def rbuf_contents_def)
    have "\<forall>e \<in> set elts. rbe_ok e" using assms by (auto simp: elts_def rbuf_ok_def)
    moreover have "\<forall>e \<in> set elts. rbe_live e \<noteq> []"
      using rbuf_nonempty_segments[OF assms(2) ne] rbuf_nonempty_segments[OF assms(1)] cd
      by (auto simp: elts_def)
    moreover have "rb_count d = int (length (rbuf_contents d))" unfolding c using cd cs by (simp add: d_def)
    ultimately have "rbuf_ok d" by (simp add: rbuf_ok_def rbuf_contents_def) (simp add: d_def)
    then show ?thesis using ap c by (simp add: rbuf_ok_def rbuf_contents_def)
  qed
qed

subsection \<open>Properties\<close>

text \<open>An empty buffer, as \<^verbatim>\<open>rbuf_allocate\<close> returns it.\<close>

definition rbuf_allocate :: rbuf where
  "rbuf_allocate = \<lparr>rb_elts = [], rb_count = 0\<rparr>"

lemma rbuf_allocate_ok: "rbuf_ok rbuf_allocate" "rbuf_contents rbuf_allocate = []"
  by (simp_all add: rbuf_allocate_def rbuf_ok_def rbuf_contents_def)



text \<open>
  C14. An iteration over a ring buffer whose body deletes some of the elements it is given returns,
  is given every element exactly once, in order, although deletions merge and free segments
  under it, and leaves a well-formed buffer with exactly the elements that were not deleted.
\<close>

theorem DO_RBUF_delete_correct:
  assumes "rbuf_ok rb"
  shows "\<exists>rb'. DO_RBUF del rb = Some (rb', rbuf_contents rb) \<and> rbuf_ok rb' \<and>
    rbuf_contents rb' = filter (\<lambda>x. \<not> del x) (rbuf_contents rb)"
  by (rule DO_RBUF_ok[OF assms])

theorem DO_RBUF_delete_witness:
  "\<exists>rb'. DO_RBUF (\<lambda>x. x = 5) (rbuf_add 7 (rbuf_add 5 rbuf_allocate)) = Some (rb', [5, 7]) \<and>
     rbuf_contents rb' = [7]"
proof -
  have a: "rbuf_ok (rbuf_add 5 rbuf_allocate)" "rbuf_contents (rbuf_add 5 rbuf_allocate) = [5]"
    using rbuf_add_ok[OF rbuf_allocate_ok(1), of 5] rbuf_allocate_ok(2) by simp_all
  have b: "rbuf_ok (rbuf_add 7 (rbuf_add 5 rbuf_allocate))"
    "rbuf_contents (rbuf_add 7 (rbuf_add 5 rbuf_allocate)) = [5, 7]"
    using rbuf_add_ok[OF a(1), of 7] a(2) by simp_all
  from DO_RBUF_delete_correct[OF b(1), of "\<lambda>x. x = 5"] b(2) show ?thesis by auto
qed



end
