(* ===== verification/Num_Core.thy ===== *)
theory Num_Core
  imports Prelude Complex_Main
begin

text \<open>
  The arbitrary precision decimals of \<^verbatim>\<open>libsrc/Wi/numeric.c\<close>: representation, comparison,
  addition and subtraction.

  A number is a record with the fields of \<^verbatim>\<open>struct numeric_s\<close>; the digit array \<^verbatim>\<open>n_value\<close>, which
  lies at the end of a larger allocation, is a function from offsets to digits, so that a
  pointer into it is an integer and what lies beyond the digits in use is visible as the value
  of the function there. An operation gets the old contents of its result (and, where it
  allocates, of the memory it is given) as arguments: whatever they are, the digits in use must
  come out right. The flag \<open>alias\<close> says that the result is one of the operands, in which case
  the source computes into a new number and copies it.
\<close>

record numeric =
  n_len :: int
  n_scale :: int
  n_invalid :: int
  n_neg :: int
  n_value :: "int \<Rightarrow> int"

subsection \<open>Memory\<close>

definition mem_set :: "(int \<Rightarrow> int) \<Rightarrow> int \<Rightarrow> int \<Rightarrow> int \<Rightarrow> int \<Rightarrow> int" where
  "mem_set d dp x n = (\<lambda>i. if dp \<le> i \<and> i < dp + n then x else d i)"

definition mem_copy :: "(int \<Rightarrow> int) \<Rightarrow> int \<Rightarrow> (int \<Rightarrow> int) \<Rightarrow> int \<Rightarrow> int \<Rightarrow> int \<Rightarrow> int" where
  "mem_copy d dp s sp n = (\<lambda>i. if dp \<le> i \<and> i < dp + n then s (sp + (i - dp)) else d i)"

subsection \<open>Constants and small operations\<close>

definition NDF_INF :: int where "NDF_INF = 16"
definition NDF_NAN :: int where "NDF_NAN = 8"

definition NUMERIC_MAX_PRECISION :: int where "NUMERIC_MAX_PRECISION = 40"
definition NUMERIC_MAX_SCALE :: int where "NUMERIC_MAX_SCALE = 15"
definition NUMERIC_EXTRA_SCALE :: int where "NUMERIC_EXTRA_SCALE = 5"

definition NUMERIC_MAX_PRECISION_INT :: int where
  "NUMERIC_MAX_PRECISION_INT = NUMERIC_MAX_PRECISION + NUMERIC_EXTRA_SCALE"

definition NUMERIC_MAX_SCALE_INT :: int where
  "NUMERIC_MAX_SCALE_INT = NUMERIC_MAX_SCALE + NUMERIC_EXTRA_SCALE"

definition NUMERIC_MAX_DATA_BYTES :: int where
  "NUMERIC_MAX_DATA_BYTES = 2 * NUMERIC_MAX_PRECISION_INT + 4"

definition NUMERIC_STACK_BYTES :: int where "NUMERIC_STACK_BYTES = 104"

lemmas numeric_consts = NDF_INF_def NDF_NAN_def NUMERIC_MAX_PRECISION_def NUMERIC_MAX_SCALE_def
  NUMERIC_EXTRA_SCALE_def NUMERIC_MAX_PRECISION_INT_def NUMERIC_MAX_SCALE_INT_def
  NUMERIC_MAX_DATA_BYTES_def NUMERIC_STACK_BYTES_def

definition num_is_zero :: "numeric \<Rightarrow> bool" where
  "num_is_zero n \<longleftrightarrow> n_len n + n_scale n = 0"

definition num_is_invalid :: "numeric \<Rightarrow> bool" where
  "num_is_invalid n \<longleftrightarrow> n_invalid n \<noteq> 0"

definition num_is_nan :: "numeric \<Rightarrow> bool" where
  "num_is_nan n \<longleftrightarrow> and (n_invalid n) NDF_NAN \<noteq> 0"

definition num_is_inf :: "numeric \<Rightarrow> bool" where
  "num_is_inf n \<longleftrightarrow> and (n_invalid n) NDF_INF \<noteq> 0"

definition num_is_plus_inf :: "numeric \<Rightarrow> bool" where
  "num_is_plus_inf n \<longleftrightarrow> num_is_inf n \<and> n_neg n = 0"

definition num_is_minus_inf :: "numeric \<Rightarrow> bool" where
  "num_is_minus_inf n \<longleftrightarrow> num_is_inf n \<and> n_neg n = 1"

text \<open>
  \<^verbatim>\<open>NUM_SET_0\<close> clears the first eight bytes: the header and four digits. \<^verbatim>\<open>NUM_SET_0_REST\<close> clears the
  next forty bytes.
\<close>

definition NUM_SET_0 :: "numeric \<Rightarrow> numeric" where
  "NUM_SET_0 n = n\<lparr>n_len := 0, n_scale := 0, n_invalid := 0, n_neg := 0, n_value := mem_set (n_value n) 0 0 4\<rparr>"

definition NUM_SET_0_REST :: "numeric \<Rightarrow> numeric" where
  "NUM_SET_0_REST n = n\<lparr>n_value := mem_set (n_value n) 4 0 40\<rparr>"

definition NUM_SET_1 :: "numeric \<Rightarrow> numeric" where
  "NUM_SET_1 n = n\<lparr>n_len := 1, n_scale := 0, n_invalid := 0, n_neg := 0,
                   n_value := (mem_set (n_value n) 0 0 4)(0 := 1)\<rparr>"

definition NUM_SET_10 :: "numeric \<Rightarrow> numeric" where
  "NUM_SET_10 n = n\<lparr>n_len := 2, n_scale := 0, n_invalid := 0, n_neg := 0,
                    n_value := (mem_set (n_value n) 0 0 4)(0 := 1)\<rparr>"

definition num_0 :: numeric where
  "num_0 = \<lparr>n_len = 0, n_scale = 0, n_invalid = 0, n_neg = 0, n_value = (\<lambda>_. 0)\<rparr>"

definition num_1 :: numeric where
  "num_1 = \<lparr>n_len = 1, n_scale = 0, n_invalid = 0, n_neg = 0, n_value = (\<lambda>_. 0)(0 := 1)\<rparr>"

definition num_2 :: numeric where
  "num_2 = \<lparr>n_len = 1, n_scale = 0, n_invalid = 0, n_neg = 0, n_value = (\<lambda>_. 0)(0 := 2)\<rparr>"

definition num_pt5 :: numeric where
  "num_pt5 = \<lparr>n_len = 1, n_scale = 1, n_invalid = 0, n_neg = 0, n_value = (\<lambda>_. 0)(1 := 5)\<rparr>"

text \<open>\<^verbatim>\<open>numeric_allocate\<close> returns a block with unknown contents after \<^verbatim>\<open>NUM_SET_0\<close>.\<close>

definition numeric_allocate :: "numeric \<Rightarrow> numeric" where
  "numeric_allocate block = NUM_SET_0 block"

text \<open>
  \<^verbatim>\<open>numeric_copy\<close> of one number to another one: the header with four digits, then as many groups of
  eight bytes as the digits in use need. The check compiled without \<^verbatim>\<open>NDEBUG\<close> is included.
\<close>

definition NUMERIC_STS_SUCCESS :: int where "NUMERIC_STS_SUCCESS = 0"
definition NUMERIC_STS_OVERFLOW :: int where "NUMERIC_STS_OVERFLOW = 1"
definition NUMERIC_STS_UNDERFLOW :: int where "NUMERIC_STS_UNDERFLOW = 2"
definition NUMERIC_STS_INVALID_NUM :: int where "NUMERIC_STS_INVALID_NUM = 3"
definition NUMERIC_STS_INVALID_STR :: int where "NUMERIC_STS_INVALID_STR = 4"
definition NUMERIC_STS_DIVIDE_ZERO :: int where "NUMERIC_STS_DIVIDE_ZERO = 5"
definition NUMERIC_STS_MARSHALLING :: int where "NUMERIC_STS_MARSHALLING = 6"

lemmas numeric_sts = NUMERIC_STS_SUCCESS_def NUMERIC_STS_OVERFLOW_def NUMERIC_STS_UNDERFLOW_def
  NUMERIC_STS_INVALID_NUM_def NUMERIC_STS_INVALID_STR_def NUMERIC_STS_DIVIDE_ZERO_def
  NUMERIC_STS_MARSHALLING_def

definition numeric_copy :: "numeric \<Rightarrow> numeric \<Rightarrow> numeric \<times> int" where
  "numeric_copy result n =
     (let value_bytes = n_len n + n_scale n;
          result = n\<lparr>n_value := mem_copy (n_value result) 0 (n_value n) 0 4\<rparr> in
      if value_bytes > NUMERIC_STACK_BYTES then (result, NUMERIC_STS_MARSHALLING)
      else
        let copy = (\<lambda>r p bytes. r\<lparr>n_value := mem_copy (n_value r) p (n_value n) p bytes\<rparr>);
            result =
              (if value_bytes > 4 then
                 let result = copy result 4 8 in
                 if value_bytes > 12 then
                   let result = copy result 12 8 in
                   if value_bytes > 20 then
                     let result = copy (copy (copy result 20 8) 28 8) 36 8 in
                     if value_bytes > 44 then copy result 44 (value_bytes - 44) else result
                   else result
                 else result
               else result)
        in (result, NUMERIC_STS_SUCCESS))"

definition num_assign :: "numeric \<Rightarrow> numeric \<Rightarrow> numeric" where
  "num_assign result n = fst (numeric_copy result n)"

subsection \<open>Comparison\<close>

fun cmp_equal :: "nat \<Rightarrow> (int \<Rightarrow> int) \<Rightarrow> int \<Rightarrow> (int \<Rightarrow> int) \<Rightarrow> int \<Rightarrow> nat \<times> int \<times> int" where
  "cmp_equal 0 v1 p1 v2 p2 = (0, p1, p2)"
| "cmp_equal (Suc count) v1 p1 v2 p2 =
     (if v1 p1 = v2 p2 then cmp_equal count v1 (p1 + 1) v2 (p2 + 1) else (Suc count, p1, p2))"

fun cmp_nonzero :: "nat \<Rightarrow> (int \<Rightarrow> int) \<Rightarrow> int \<Rightarrow> bool" where
  "cmp_nonzero 0 v p = False"
| "cmp_nonzero (Suc count) v p = (if v p \<noteq> 0 then True else cmp_nonzero count v (p + 1))"

definition num_compare_int :: "numeric \<Rightarrow> numeric \<Rightarrow> bool \<Rightarrow> int" where
  "num_compare_int n1 n2 use_sign =
     (if use_sign \<and> n_neg n1 \<noteq> n_neg n2 then (if n_neg n1 \<noteq> 0 then - 1 else 1)
      else
        (let greater = (if \<not> use_sign \<or> n_neg n1 = 0 then 1 else - 1);
             less = (if \<not> use_sign \<or> n_neg n1 = 0 then - 1 else 1) in
         if n_len n1 \<noteq> n_len n2 then (if n_len n1 > n_len n2 then greater else less)
         else
           (case cmp_equal (nat (n_len n1 + min (n_scale n1) (n_scale n2))) (n_value n1) 0 (n_value n2) 0 of
              (count, p1, p2) \<Rightarrow>
                if count \<noteq> 0 then (if n_value n1 p1 > n_value n2 p2 then greater else less)
                else if n_scale n1 > n_scale n2 then
                  (if cmp_nonzero (nat (n_scale n1 - n_scale n2)) (n_value n1) p1 then greater else 0)
                else if n_scale n1 < n_scale n2 then
                  (if cmp_nonzero (nat (n_scale n2 - n_scale n1)) (n_value n2) p2 then less else 0)
                else 0)))"

subsection \<open>Removing leading zeros\<close>

fun skip_zeros :: "nat \<Rightarrow> (int \<Rightarrow> int) \<Rightarrow> int \<Rightarrow> nat \<times> int" where
  "skip_zeros 0 v src = (0, src)"
| "skip_zeros (Suc bytes) v src =
     (if v src = 0 then skip_zeros bytes v (src + 1) else (Suc bytes, src))"

definition num_normalize :: "numeric \<Rightarrow> numeric" where
  "num_normalize num =
     (if n_value num 0 = 0 then
        (case skip_zeros (nat (n_len num)) (n_value num) 0 of
           (bytes, src) \<Rightarrow>
             num\<lparr>n_len := int bytes,
                 n_value := mem_copy (n_value num) 0 (n_value num) src (int bytes + n_scale num)\<rparr>)
      else num)"

subsection \<open>Addition of magnitudes\<close>

fun copy_down :: "nat \<Rightarrow> (int \<Rightarrow> int) \<Rightarrow> int \<Rightarrow> (int \<Rightarrow> int) \<Rightarrow> int \<Rightarrow> (int \<Rightarrow> int)" where
  "copy_down 0 s sp d dp = d"
| "copy_down (Suc n) s sp d dp = copy_down n s (sp - 1) (d(dp := s sp)) (dp - 1)"

fun add_loop ::
  "nat \<Rightarrow> (int \<Rightarrow> int) \<Rightarrow> int \<Rightarrow> (int \<Rightarrow> int) \<Rightarrow> int \<Rightarrow> (int \<Rightarrow> int) \<Rightarrow> int \<Rightarrow> int \<Rightarrow> (int \<Rightarrow> int) \<times> int" where
  "add_loop 0 s1 p1 s2 p2 d dp carry = (d, carry)"
| "add_loop (Suc n) s1 p1 s2 p2 d dp carry =
     (let x = s1 p1 + s2 p2 + carry in
      if x > 9 then add_loop n s1 (p1 - 1) s2 (p2 - 1) (d(dp := x - 10)) (dp - 1) 1
      else add_loop n s1 (p1 - 1) s2 (p2 - 1) (d(dp := x)) (dp - 1) 0)"

fun carry_loop ::
  "nat \<Rightarrow> (int \<Rightarrow> int) \<Rightarrow> int \<Rightarrow> (int \<Rightarrow> int) \<Rightarrow> int \<Rightarrow> int \<Rightarrow> (int \<Rightarrow> int) \<times> int" where
  "carry_loop 0 s p d dp carry = (d, carry)"
| "carry_loop (Suc n) s p d dp carry =
     (let x = s p + carry in
      if x > 9 then carry_loop n s (p - 1) (d(dp := x - 10)) (dp - 1) 1
      else carry_loop n s (p - 1) (d(dp := x)) (dp - 1) 0)"

definition num_add_digits :: "numeric \<Rightarrow> numeric \<Rightarrow> numeric \<Rightarrow> int \<Rightarrow> numeric" where
  "num_add_digits sm n1 n2 scale_min =
     (let sum_scale = max (n_scale n1) (n_scale n2);
          sum_digits = max (n_len n1) (n_len n2) + 1;
          sm = sm\<lparr>n_len := sum_digits, n_scale := max sum_scale scale_min\<rparr>;
          sm = (if scale_min > sum_scale then NUM_SET_0_REST sm else sm);
          n1bytes = n_scale n1; n2bytes = n_scale n2;
          n1ptr = n_len n1 + n1bytes - 1; n2ptr = n_len n2 + n2bytes - 1;
          sumptr = sum_scale + sum_digits - 1;
          v = (n_value sm)(0 := 0);
          k1 = nat (n1bytes - n2bytes); k2 = nat (n2bytes - n1bytes);
          v = copy_down k1 (n_value n1) n1ptr v sumptr;
          v = copy_down k2 (n_value n2) n2ptr v sumptr;
          n1ptr = n1ptr - int k1; n2ptr = n2ptr - int k2; sumptr = sumptr - int k1 - int k2;
          n1bytes = n1bytes - int k1 + n_len n1; n2bytes = n2bytes - int k2 + n_len n2;
          k = nat (min n1bytes n2bytes) in
      case add_loop k (n_value n1) n1ptr (n_value n2) n2ptr v sumptr 0 of
        (v, carry) \<Rightarrow>
          let n1ptr = n1ptr - int k; n2ptr = n2ptr - int k; sumptr = sumptr - int k;
              n1bytes = n1bytes - int k; n2bytes = n2bytes - int k in
          case (if n1bytes = 0 then carry_loop (nat n2bytes) (n_value n2) n2ptr v sumptr carry
                else carry_loop (nat n1bytes) (n_value n1) n1ptr v sumptr carry) of
            (v, carry) \<Rightarrow>
              let sumptr = sumptr - (if n1bytes = 0 then n2bytes else n1bytes);
                  v = (if carry = 1 then v(sumptr := v sumptr + 1) else v)
              in num_normalize (sm\<lparr>n_value := v\<rparr>))"

definition num_add_int :: "bool \<Rightarrow> numeric \<Rightarrow> numeric \<Rightarrow> numeric \<Rightarrow> numeric \<Rightarrow> int \<Rightarrow> numeric" where
  "num_add_int alias block result n1 n2 scale_min =
     (if alias then num_assign result (num_add_digits (numeric_allocate block) n1 n2 scale_min)
      else num_add_digits (NUM_SET_0 result) n1 n2 scale_min)"

subsection \<open>Subtraction of magnitudes\<close>

fun neg_loop ::
  "nat \<Rightarrow> (int \<Rightarrow> int) \<Rightarrow> int \<Rightarrow> (int \<Rightarrow> int) \<Rightarrow> int \<Rightarrow> int \<Rightarrow> (int \<Rightarrow> int) \<times> int" where
  "neg_loop 0 s p d dp borrow = (d, borrow)"
| "neg_loop (Suc n) s p d dp borrow =
     (let val = - s p - borrow in
      if val < 0 then neg_loop n s (p - 1) (d(dp := val + 10)) (dp - 1) 1
      else neg_loop n s (p - 1) (d(dp := val)) (dp - 1) 0)"

fun sub_loop ::
  "nat \<Rightarrow> (int \<Rightarrow> int) \<Rightarrow> int \<Rightarrow> (int \<Rightarrow> int) \<Rightarrow> int \<Rightarrow> (int \<Rightarrow> int) \<Rightarrow> int \<Rightarrow> int \<Rightarrow> (int \<Rightarrow> int) \<times> int" where
  "sub_loop 0 s1 p1 s2 p2 d dp borrow = (d, borrow)"
| "sub_loop (Suc n) s1 p1 s2 p2 d dp borrow =
     (let val = s1 p1 - s2 p2 - borrow in
      if val < 0 then sub_loop n s1 (p1 - 1) s2 (p2 - 1) (d(dp := val + 10)) (dp - 1) 1
      else sub_loop n s1 (p1 - 1) s2 (p2 - 1) (d(dp := val)) (dp - 1) 0)"

fun borrow_loop ::
  "nat \<Rightarrow> (int \<Rightarrow> int) \<Rightarrow> int \<Rightarrow> (int \<Rightarrow> int) \<Rightarrow> int \<Rightarrow> int \<Rightarrow> (int \<Rightarrow> int) \<times> int" where
  "borrow_loop 0 s p d dp borrow = (d, borrow)"
| "borrow_loop (Suc n) s p d dp borrow =
     (let val = s p - borrow in
      if val < 0 then borrow_loop n s (p - 1) (d(dp := val + 10)) (dp - 1) 1
      else borrow_loop n s (p - 1) (d(dp := val)) (dp - 1) 0)"

definition num_subtract_digits :: "numeric \<Rightarrow> numeric \<Rightarrow> numeric \<Rightarrow> int \<Rightarrow> numeric" where
  "num_subtract_digits diff n1 n2 scale_min =
     (let diff_len = max (n_len n1) (n_len n2);
          diff_scale = max (n_scale n1) (n_scale n2);
          min_len = min (n_len n1) (n_len n2);
          min_scale = min (n_scale n1) (n_scale n2);
          diff = diff\<lparr>n_len := diff_len, n_scale := max diff_scale scale_min\<rparr>;
          v = (if scale_min > diff_scale
               then mem_set (n_value diff) (diff_len + diff_scale) 0 (scale_min - diff_scale)
               else n_value diff);
          n1ptr = n_len n1 + n_scale n1 - 1; n2ptr = n_len n2 + n_scale n2 - 1;
          diffptr = diff_len + diff_scale - 1;
          v = v(0 := 0);
          k1 = nat (n_scale n1 - min_scale); k2 = nat (n_scale n2 - min_scale) in
      case (if n_scale n1 \<noteq> min_scale then (copy_down k1 (n_value n1) n1ptr v diffptr, 0)
            else neg_loop k2 (n_value n2) n2ptr v diffptr 0) of
        (v, borrow) \<Rightarrow>
          let n1ptr = n1ptr - int k1; n2ptr = n2ptr - int k2; diffptr = diffptr - int k1 - int k2;
              k = nat (min_len + min_scale) in
          case sub_loop k (n_value n1) n1ptr (n_value n2) n2ptr v diffptr borrow of
            (v, borrow) \<Rightarrow>
              let n1ptr = n1ptr - int k; diffptr = diffptr - int k;
                  v = (if diff_len \<noteq> min_len
                       then fst (borrow_loop (nat (diff_len - min_len)) (n_value n1) n1ptr v diffptr borrow)
                       else v)
              in num_normalize (diff\<lparr>n_value := v\<rparr>))"

definition num_subtract_int :: "bool \<Rightarrow> numeric \<Rightarrow> numeric \<Rightarrow> numeric \<Rightarrow> numeric \<Rightarrow> int \<Rightarrow> numeric" where
  "num_subtract_int alias block result n1 n2 scale_min =
     (if alias then num_assign result (num_subtract_digits (numeric_allocate block) n1 n2 scale_min)
      else num_subtract_digits (NUM_SET_0 result) n1 n2 scale_min)"

subsection \<open>Signed addition and subtraction\<close>

definition num_add :: "bool \<Rightarrow> numeric \<Rightarrow> numeric \<Rightarrow> numeric \<Rightarrow> numeric \<Rightarrow> int \<Rightarrow> numeric" where
  "num_add alias block sm n1 n2 scale_min =
     (if n_neg n1 = n_neg n2 then (num_add_int alias block sm n1 n2 scale_min)\<lparr>n_neg := n_neg n1\<rparr>
      else
        (let cmp_res = num_compare_int n1 n2 False in
         if cmp_res = - 1 then (num_subtract_int alias block sm n2 n1 scale_min)\<lparr>n_neg := n_neg n2\<rparr>
         else if cmp_res = 0 then NUM_SET_0 sm
         else (num_subtract_int alias block sm n1 n2 scale_min)\<lparr>n_neg := n_neg n1\<rparr>))"

definition num_subtract :: "bool \<Rightarrow> numeric \<Rightarrow> numeric \<Rightarrow> numeric \<Rightarrow> numeric \<Rightarrow> int \<Rightarrow> numeric" where
  "num_subtract alias block diff n1 n2 scale_min =
     (if n_neg n1 \<noteq> n_neg n2 then (num_add_int alias block diff n1 n2 scale_min)\<lparr>n_neg := n_neg n1\<rparr>
      else
        (let cmp_res = num_compare_int n1 n2 False in
         if cmp_res = - 1 then (num_subtract_int alias block diff n2 n1 scale_min)\<lparr>n_neg := 1 - n_neg n2\<rparr>
         else if cmp_res = 0 then NUM_SET_0 diff
         else (num_subtract_int alias block diff n1 n2 scale_min)\<lparr>n_neg := n_neg n1\<rparr>))"

subsection \<open>The number a digit sequence stands for\<close>

fun dval :: "(int \<Rightarrow> int) \<Rightarrow> int \<Rightarrow> nat \<Rightarrow> int" where
  "dval v a 0 = 0"
| "dval v a (Suc n) = 10 * dval v a n + v (a + int n)"

definition digits :: "(int \<Rightarrow> int) \<Rightarrow> int \<Rightarrow> nat \<Rightarrow> bool" where
  "digits v a n \<longleftrightarrow> (\<forall>i\<in>{a..<a + int n}. 0 \<le> v i \<and> v i \<le> 9)"

lemma digitsD: "digits v a n \<Longrightarrow> a \<le> i \<Longrightarrow> i < a + int n \<Longrightarrow> 0 \<le> v i \<and> v i \<le> 9"
  by (auto simp: digits_def)

lemma digits_Suc: "digits v a (Suc n) \<longleftrightarrow> digits v a n \<and> 0 \<le> v (a + int n) \<and> v (a + int n) \<le> 9"
proof -
  have "{a..<a + int (Suc n)} = insert (a + int n) {a..<a + int n}" by auto
  thus ?thesis unfolding digits_def by auto
qed

lemma digits_sub: "digits v a n \<Longrightarrow> a \<le> b \<Longrightarrow> b + int m \<le> a + int n \<Longrightarrow> digits v b m"
  by (auto simp: digits_def)

lemma digits_cong: "(\<And>i. a \<le> i \<Longrightarrow> i < a + int n \<Longrightarrow> v i = w (i + k)) \<Longrightarrow> digits w (a + k) n \<Longrightarrow> digits v a n"
  by (auto simp: digits_def)

lemma digits_append: "digits v a m \<Longrightarrow> digits v (a + int m) n \<Longrightarrow> digits v a (m + n)"
  unfolding digits_def by (smt (verit) atLeastLessThan_iff of_nat_add)

lemma dval_cong:
  "(\<And>i. a \<le> i \<Longrightarrow> i < a + int n \<Longrightarrow> v i = w (i + k)) \<Longrightarrow> dval v a n = dval w (a + k) n"
proof (induction n)
  case (Suc n)
  have "dval v a n = dval w (a + k) n" by (rule Suc.IH) (simp add: Suc.prems)
  moreover have "v (a + int n) = w (a + k + int n)" using Suc.prems[of "a + int n"] by (simp add: algebra_simps)
  ultimately show ?case by simp
qed simp

lemma dval_same: "(\<And>i. a \<le> i \<Longrightarrow> i < a + int n \<Longrightarrow> v i = w i) \<Longrightarrow> dval v a n = dval w a n"
  using dval_cong[of a n v w 0] by simp

lemma dval_append: "dval v a (m + n) = dval v a m * 10 ^ n + dval v (a + int m) n"
  by (induction n) (simp_all add: algebra_simps)

lemma dval_Cons: "dval v a (Suc n) = v a * 10 ^ n + dval v (a + 1) n"
  using dval_append[of v a 1 n] by simp

lemma dval_bounds: "digits v a n \<Longrightarrow> 0 \<le> dval v a n \<and> dval v a n < 10 ^ n"
  by (induction n) (auto simp: digits_Suc)

lemma dval_zero: "digits v a n \<Longrightarrow> dval v a n = 0 \<longleftrightarrow> (\<forall>i\<in>{a..<a + int n}. v i = 0)"
proof (induction n)
  case (Suc n)
  have eq: "{a..<a + int (Suc n)} = insert (a + int n) {a..<a + int n}" by auto
  have "0 \<le> dval v a n" "0 \<le> v (a + int n)" "digits v a n"
    using Suc.prems dval_bounds[of v a n] by (auto simp: digits_Suc)
  hence "dval v a (Suc n) = 0 \<longleftrightarrow> dval v a n = 0 \<and> v (a + int n) = 0" by auto
  thus ?case using Suc.IH \<open>digits v a n\<close> by (simp only: eq) auto
qed simp

lemma dval_zeros: "(\<And>i. a \<le> i \<Longrightarrow> i < a + int n \<Longrightarrow> v i = 0) \<Longrightarrow> dval v a n = 0"
  by (induction n) auto

lemma dval_lead_less:
  assumes "digits v a (Suc n)" "digits w b (Suc n)" "v a < w b"
  shows "dval v a (Suc n) < dval w b (Suc n)"
proof -
  have "dval v (a + 1) n < 10 ^ n" "0 \<le> dval w (b + 1) n"
    using assms dval_bounds digits_sub[of v a "Suc n" "a + 1" n] digits_sub[of w b "Suc n" "b + 1" n] by auto
  moreover have "(v a + 1) * 10 ^ n \<le> w b * (10 :: int) ^ n" using assms(3) by (intro mult_right_mono) auto
  ultimately show ?thesis unfolding dval_Cons by (simp add: algebra_simps)
qed

definition dlen :: "numeric \<Rightarrow> nat" where "dlen n = nat (n_len n)"
definition dscale :: "numeric \<Rightarrow> nat" where "dscale n = nat (n_scale n)"

definition num_int :: "numeric \<Rightarrow> int" where
  "num_int n = dval (n_value n) 0 (dlen n + dscale n)"

definition num_mag :: "numeric \<Rightarrow> real" where
  "num_mag n = of_int (num_int n) / 10 ^ dscale n"

definition num_val :: "numeric \<Rightarrow> real" where
  "num_val n = (if n_neg n \<noteq> 0 then - num_mag n else num_mag n)"

text \<open>A finite number: the fields are in range and the digits in use are decimal digits.\<close>

definition num_ok :: "numeric \<Rightarrow> bool" where
  "num_ok n \<longleftrightarrow> 0 \<le> n_len n \<and> 0 \<le> n_scale n \<and> n_invalid n = 0 \<and> (n_neg n = 0 \<or> n_neg n = 1)
     \<and> digits (n_value n) 0 (dlen n + dscale n)"

text \<open>A finite number with no leading zero.\<close>

definition num_norm :: "numeric \<Rightarrow> bool" where
  "num_norm n \<longleftrightarrow> num_ok n \<and> (n_len n > 0 \<longrightarrow> n_value n 0 \<noteq> 0)"

lemma num_okD:
  assumes "num_ok n"
  shows "n_len n = int (dlen n)" "n_scale n = int (dscale n)" "n_invalid n = 0" "n_neg n = 0 \<or> n_neg n = 1"
    "digits (n_value n) 0 (dlen n + dscale n)"
  using assms by (auto simp: num_ok_def dlen_def dscale_def)

lemma num_norm_ok: "num_norm n \<Longrightarrow> num_ok n"
  by (simp add: num_norm_def)

lemma num_int_bounds: "num_ok n \<Longrightarrow> 0 \<le> num_int n \<and> num_int n < 10 ^ (dlen n + dscale n)"
  by (simp add: num_int_def dval_bounds num_okD)

lemma num_mag_nonneg: "num_ok n \<Longrightarrow> 0 \<le> num_mag n"
  using num_int_bounds[of n] by (simp add: num_mag_def)

subsection \<open>Comparison is the order of the values\<close>

lemma cmp_equal_spec:
  assumes "cmp_equal c v1 p1 v2 p2 = (c', q1, q2)"
  shows "c' \<le> c \<and> q1 = p1 + int (c - c') \<and> q2 = p2 + int (c - c')
    \<and> (\<forall>i\<in>{p1..<q1}. v1 i = v2 (i + (p2 - p1))) \<and> (c' \<noteq> 0 \<longrightarrow> v1 q1 \<noteq> v2 q2)"
  using assms
proof (induction c arbitrary: p1 p2)
  case (Suc c)
  show ?case
  proof (cases "v1 p1 = v2 p2")
    case True
    hence IH: "c' \<le> c" "q1 = p1 + 1 + int (c - c')" "q2 = p2 + 1 + int (c - c')"
        "\<forall>i\<in>{p1 + 1..<q1}. v1 i = v2 (i + (p2 - p1))" "c' \<noteq> 0 \<longrightarrow> v1 q1 \<noteq> v2 q2"
      using Suc.IH[of "p1 + 1" "p2 + 1"] Suc.prems by auto
    have "{p1..<q1} \<subseteq> insert p1 {p1 + 1..<q1}" by auto
    thus ?thesis using IH True by (auto simp: Suc_diff_le)
  next
    case False
    thus ?thesis using Suc.prems by auto
  qed
qed simp

lemma cmp_nonzero_iff: "cmp_nonzero c v p \<longleftrightarrow> (\<exists>i\<in>{p..<p + int c}. v i \<noteq> 0)"
proof (induction c arbitrary: p)
  case (Suc c)
  have "{p..<p + int (Suc c)} = insert p {p + 1..<p + 1 + int c}" by auto
  thus ?case using Suc.IH[of "p + 1"] by auto
qed simp

lemma num_mag_split:
  assumes ok: "num_ok n" and k: "k \<le> dscale n"
  defines "f \<equiv> real_of_int (dval (n_value n) (int (dlen n + k)) (dscale n - k)) / 10 ^ (dscale n - k)"
  shows "num_mag n * 10 ^ k = of_int (dval (n_value n) 0 (dlen n + k)) + f" "0 \<le> f" "f < 1"
    "f = 0 \<longleftrightarrow> (\<forall>i\<in>{int (dlen n + k)..<int (dlen n + k) + int (dscale n - k)}. n_value n i = 0)"
proof -
  let ?v = "n_value n" and ?r = "dscale n - k"
  have d: "digits ?v (int (dlen n + k)) ?r"
    by (rule digits_sub[OF num_okD(5)[OF ok]]) (use k in auto)
  have "num_int n = dval ?v 0 (dlen n + k) * 10 ^ ?r + dval ?v (int (dlen n + k)) ?r"
    using dval_append[of ?v 0 "dlen n + k" ?r] k by (simp add: num_int_def)
  moreover have "(10 :: real) ^ dscale n = 10 ^ k * 10 ^ ?r" using k by (simp flip: power_add)
  ultimately show "num_mag n * 10 ^ k = of_int (dval ?v 0 (dlen n + k)) + f"
    by (simp add: num_mag_def f_def field_simps)
  have b: "0 \<le> dval ?v (int (dlen n + k)) ?r" "dval ?v (int (dlen n + k)) ?r < 10 ^ ?r"
    using dval_bounds[OF d] by auto
  hence "real_of_int (dval ?v (int (dlen n + k)) ?r) < real_of_int (10 ^ ?r)" by (simp only: of_int_less_iff)
  thus "0 \<le> f" "f < 1" using b by (simp_all add: f_def)
  show "f = 0 \<longleftrightarrow> (\<forall>i\<in>{int (dlen n + k)..<int (dlen n + k) + int ?r}. ?v i = 0)"
    using dval_zero[OF d] by (simp add: f_def)
qed

lemma pow10_le_of_int: "10 ^ k \<le> x \<Longrightarrow> (10 :: real) ^ k \<le> of_int x"
  by (metis of_int_le_iff of_int_numeral of_int_power)

lemma num_mag_len:
  assumes n: "num_norm n"
  shows "num_mag n < 10 ^ dlen n" "0 < dlen n \<Longrightarrow> 10 ^ (dlen n - 1) \<le> num_mag n"
proof -
  have ok: "num_ok n" using n by (rule num_norm_ok)
  have f: "num_mag n - of_int (dval (n_value n) 0 (dlen n)) < 1" "0 \<le> num_mag n - of_int (dval (n_value n) 0 (dlen n))"
    using num_mag_split[OF ok, of 0] by auto
  have "dval (n_value n) 0 (dlen n) < 10 ^ dlen n"
    by (rule dval_bounds[THEN conjunct2], rule digits_sub[OF num_okD(5)[OF ok]]) auto
  hence "dval (n_value n) 0 (dlen n) + 1 \<le> 10 ^ dlen n" by simp
  hence "real_of_int (dval (n_value n) 0 (dlen n) + 1) \<le> real_of_int (10 ^ dlen n)" by (simp only: of_int_le_iff)
  thus "num_mag n < 10 ^ dlen n" using f by simp
  assume p: "0 < dlen n"
  have "n_value n 0 \<ge> 1" using n p digitsD[OF num_okD(5)[OF ok], of 0] by (auto simp: num_norm_def dlen_def)
  moreover have "0 \<le> dval (n_value n) 1 (dlen n - 1)"
    by (rule dval_bounds[THEN conjunct1], rule digits_sub[OF num_okD(5)[OF ok]]) (use p in auto)
  moreover have "dval (n_value n) 0 (dlen n) = n_value n 0 * 10 ^ (dlen n - 1) + dval (n_value n) 1 (dlen n - 1)"
    using dval_Cons[of "n_value n" 0 "dlen n - 1"] p by simp
  moreover have "1 * 10 ^ (dlen n - 1) \<le> n_value n 0 * 10 ^ (dlen n - 1)"
    using calculation(1) by (intro mult_right_mono) auto
  ultimately have "10 ^ (dlen n - 1) \<le> dval (n_value n) 0 (dlen n)" by linarith
  hence "(10 :: real) ^ (dlen n - 1) \<le> of_int (dval (n_value n) 0 (dlen n))" by (rule pow10_le_of_int)
  thus "10 ^ (dlen n - 1) \<le> num_mag n" using f by linarith
qed

lemma num_mag_less_len:
  assumes "num_norm n1" "num_norm n2" "dlen n1 < dlen n2"
  shows "num_mag n1 < num_mag n2"
proof -
  have "num_mag n1 < 10 ^ dlen n1" "10 ^ (dlen n2 - 1) \<le> num_mag n2" using num_mag_len assms by auto
  moreover have "(10 :: real) ^ dlen n1 \<le> 10 ^ (dlen n2 - 1)" using assms(3) by (intro power_increasing) auto
  ultimately show ?thesis by linarith
qed

lemma dval_first_diff:
  assumes eq: "\<forall>i\<in>{0..<int k}. v i = w i" and k: "k < c" and d: "digits v 0 c" "digits w 0 c"
    and lt: "v (int k) < w (int k)"
  shows "dval v 0 c < dval w 0 c"
proof -
  obtain r where c: "c = k + Suc r" using k less_imp_Suc_add by auto
  have "dval v 0 k = dval w 0 k" by (rule dval_same) (use eq in auto)
  moreover have "dval v (int k) (Suc r) < dval w (int k) (Suc r)"
    by (rule dval_lead_less) (use d lt c in \<open>auto intro: digits_sub\<close>)
  ultimately show ?thesis by (simp only: c dval_append) simp
qed

definition cmp_sign :: "real \<Rightarrow> int" where
  "cmp_sign x = (if x > 0 then 1 else if x < 0 then - 1 else 0)"

lemma cmp_sign_mult: "0 < k \<Longrightarrow> cmp_sign (x * k) = cmp_sign x"
  by (simp add: cmp_sign_def zero_less_mult_iff mult_less_0_iff)

lemma num_compare_mag:
  assumes n: "num_norm n1" "num_norm n2"
  shows "num_compare_int n1 n2 False = cmp_sign (num_mag n1 - num_mag n2)"
proof -
  note ok = num_norm_ok[OF n(1)] num_norm_ok[OF n(2)]
  note f1 = num_okD[OF ok(1)] and f2 = num_okD[OF ok(2)]
  consider "dlen n1 < dlen n2" | "dlen n2 < dlen n1" | "dlen n1 = dlen n2" by linarith
  thus ?thesis
  proof cases
    case 3
    define m where "m = min (dscale n1) (dscale n2)"
    have m: "m \<le> dscale n1" "m \<le> dscale n2" by (simp_all add: m_def)
    let ?v = "n_value n1" and ?w = "n_value n2"
    let ?c = "dlen n1 + m"
    have c: "nat (n_len n1 + min (n_scale n1) (n_scale n2)) = ?c" unfolding f1(1,2) f2(2) m_def by linarith
    obtain c' q1 q2 where eq: "cmp_equal ?c ?v 0 ?w 0 = (c', q1, q2)" by (cases "cmp_equal ?c ?v 0 ?w 0")
    note sp = cmp_equal_spec[OF eq]
    have q: "q1 = int (?c - c')" "q2 = int (?c - c')" "\<forall>i\<in>{0..<int (?c - c')}. ?v i = ?w i" using sp by auto
    have d: "digits ?v 0 ?c" "digits ?w 0 ?c" using f1(5) f2(5) 3 m by (auto intro: digits_sub)
    define g1 g2 where "g1 = num_mag n1 * 10 ^ m - of_int (dval ?v 0 ?c)"
      and "g2 = num_mag n2 * 10 ^ m - of_int (dval ?w 0 ?c)"
    have g1: "0 \<le> g1" "g1 < 1" "g1 = 0 \<longleftrightarrow> (\<forall>i\<in>{int ?c..<int ?c + int (dscale n1 - m)}. ?v i = 0)"
      using num_mag_split[OF ok(1) m(1)] unfolding g1_def by (simp_all only: add_diff_cancel_left')
    have g2: "0 \<le> g2" "g2 < 1" "g2 = 0 \<longleftrightarrow> (\<forall>i\<in>{int ?c..<int ?c + int (dscale n2 - m)}. ?w i = 0)"
      using num_mag_split[OF ok(2) m(2)] unfolding g2_def 3 by (simp_all only: add_diff_cancel_left')
    have "(num_mag n1 - num_mag n2) * 10 ^ m = of_int (dval ?v 0 ?c - dval ?w 0 ?c) + (g1 - g2)"
      by (simp add: g1_def g2_def algebra_simps)
    hence cs: "cmp_sign (num_mag n1 - num_mag n2) = cmp_sign (of_int (dval ?v 0 ?c - dval ?w 0 ?c) + (g1 - g2))"
      using cmp_sign_mult[of "10 ^ m" "num_mag n1 - num_mag n2"] by simp
    show ?thesis
    proof (cases "c' = 0")
      case True
      have "dval ?v 0 ?c = dval ?w 0 ?c" by (rule dval_same) (use q True in auto)
      hence cs': "cmp_sign (num_mag n1 - num_mag n2) = cmp_sign (g1 - g2)" using cs by simp
      have z1: "cmp_nonzero (dscale n1 - m) ?v (int ?c) \<longleftrightarrow> g1 \<noteq> 0" using g1(3) by (simp add: cmp_nonzero_iff)
      have z2: "cmp_nonzero (dscale n2 - m) ?w (int ?c) \<longleftrightarrow> g2 \<noteq> 0" using g2(3) by (simp add: cmp_nonzero_iff)
      have e: "num_compare_int n1 n2 False =
        (if dscale n1 > dscale n2 then if cmp_nonzero (dscale n1 - dscale n2) ?v (int ?c) then 1 else 0
         else if dscale n1 < dscale n2 then if cmp_nonzero (dscale n2 - dscale n1) ?w (int ?c) then - 1 else 0 else 0)"
        unfolding num_compare_int_def c eq using q True 3 by (simp add: f1(1,2) f2(1,2) flip: of_nat_diff)
      consider "dscale n1 > dscale n2" | "dscale n1 < dscale n2" | "dscale n1 = dscale n2" by linarith
      thus ?thesis using z1 z2 g1 g2 unfolding e cs' m_def by cases (auto simp: cmp_sign_def)
    next
      case False
      have lt: "?c - c' < ?c" using False sp by linarith
      have "?v (int (?c - c')) \<noteq> ?w (int (?c - c'))" using sp False q by auto
      then consider "?v (int (?c - c')) < ?w (int (?c - c'))" | "?w (int (?c - c')) < ?v (int (?c - c'))" by linarith
      thus ?thesis
      proof cases
        case 1
        have "dval ?v 0 ?c < dval ?w 0 ?c" by (rule dval_first_diff[OF q(3) lt d 1])
        hence "real_of_int (dval ?v 0 ?c - dval ?w 0 ?c) \<le> - 1" by linarith
        thus ?thesis using g1 g2 3 cs c eq q False 1 by (simp add: num_compare_int_def f1(1,2) f2(1,2) cmp_sign_def)
      next
        case 2
        have "dval ?w 0 ?c < dval ?v 0 ?c" by (rule dval_first_diff[OF _ lt d(2,1) 2]) (use q in auto)
        hence "real_of_int (dval ?v 0 ?c - dval ?w 0 ?c) \<ge> 1" by linarith
        thus ?thesis using g1 g2 3 cs c eq q False 2 by (simp add: num_compare_int_def f1(1,2) f2(1,2) cmp_sign_def)
      qed
    qed
  qed (use num_mag_less_len[OF n] num_mag_less_len[OF n(2,1)] in \<open>simp_all add: num_compare_int_def f1(1) f2(1) cmp_sign_def\<close>)
qed

text \<open>A zero is not negative.\<close>

definition no_minus_zero :: "numeric \<Rightarrow> bool" where
  "no_minus_zero n \<longleftrightarrow> (num_int n = 0 \<longrightarrow> n_neg n = 0)"

lemma num_compare_same_sign:
  "n_neg n1 = n_neg n2 \<Longrightarrow>
   num_compare_int n1 n2 True = (if n_neg n1 = 0 then 1 else - 1) * num_compare_int n1 n2 False"
  by (simp add: num_compare_int_def Let_def split: prod.split)

lemma num_mag_pos: "num_ok n \<Longrightarrow> num_int n \<noteq> 0 \<Longrightarrow> 0 < num_mag n"
  using num_int_bounds[of n] by (simp add: num_mag_def)

lemma num_compare_val:
  assumes n: "num_norm n1" "num_norm n2" and z: "no_minus_zero n1" "no_minus_zero n2"
  shows "num_compare_int n1 n2 True = cmp_sign (num_val n1 - num_val n2)"
proof (cases "n_neg n1 = n_neg n2")
  case True
  thus ?thesis
    by (simp add: num_compare_same_sign num_compare_mag[OF n] num_val_def cmp_sign_def)
next
  case False
  note ok = num_norm_ok[OF n(1)] num_norm_ok[OF n(2)]
  from False consider "n_neg n1 = 1" "n_neg n2 = 0" | "n_neg n1 = 0" "n_neg n2 = 1"
    using num_okD(4)[OF ok(1)] num_okD(4)[OF ok(2)] by auto
  thus ?thesis
  proof cases
    case 1
    hence "0 < num_mag n1" "0 \<le> num_mag n2" using num_mag_pos num_mag_nonneg ok z by (auto simp: no_minus_zero_def)
    thus ?thesis using 1 by (simp add: num_compare_int_def num_val_def cmp_sign_def)
  next
    case 2
    hence "0 \<le> num_mag n1" "0 < num_mag n2" using num_mag_pos num_mag_nonneg ok z by (auto simp: no_minus_zero_def)
    thus ?thesis using 2 by (simp add: num_compare_int_def num_val_def cmp_sign_def)
  qed
qed

subsection \<open>Copies and the removal of leading zeros\<close>

definition num_eq :: "numeric \<Rightarrow> numeric \<Rightarrow> bool" where
  "num_eq r n \<longleftrightarrow> n_len r = n_len n \<and> n_scale r = n_scale n \<and> n_invalid r = n_invalid n \<and> n_neg r = n_neg n
     \<and> (\<forall>i\<in>{0..<n_len n + n_scale n}. n_value r i = n_value n i)"

lemma num_eq_len: "num_eq r n \<Longrightarrow> dlen r = dlen n \<and> dscale r = dscale n"
  by (simp add: num_eq_def dlen_def dscale_def)

lemma num_eq_int: "num_eq r n \<Longrightarrow> num_ok n \<Longrightarrow> num_int r = num_int n"
  using num_eq_len[of r n] by (auto simp: num_int_def num_eq_def num_okD intro!: dval_same)

lemma num_eq_ok: "num_eq r n \<Longrightarrow> num_ok n \<Longrightarrow> num_ok r"
  using num_eq_len[of r n] by (auto simp: num_ok_def digits_def num_eq_def dlen_def dscale_def)

lemma num_eq_norm: "num_eq r n \<Longrightarrow> num_norm n \<Longrightarrow> num_norm r"
  using num_eq_ok[of r n] by (auto simp: num_norm_def num_eq_def num_ok_def)

lemma num_eq_val: "num_eq r n \<Longrightarrow> num_ok n \<Longrightarrow> num_val r = num_val n"
  using num_eq_int[of r n] num_eq_len[of r n] by (simp add: num_val_def num_mag_def num_eq_def)

lemma num_copy_eq:
  assumes "n_len n + n_scale n \<le> NUMERIC_STACK_BYTES"
  shows "num_eq (fst (numeric_copy r n)) n" "snd (numeric_copy r n) = NUMERIC_STS_SUCCESS"
  using assms by (auto simp: numeric_copy_def num_eq_def mem_copy_def Let_def)

lemma num_assign_eq: "n_len n + n_scale n \<le> NUMERIC_STACK_BYTES \<Longrightarrow> num_eq (num_assign r n) n"
  by (simp add: num_assign_def num_copy_eq)

lemma skip_zeros_spec:
  assumes "skip_zeros c v p = (c', q)"
  shows "c' \<le> c \<and> q = p + int (c - c') \<and> (\<forall>i\<in>{p..<q}. v i = 0) \<and> (c' \<noteq> 0 \<longrightarrow> v q \<noteq> 0)"
  using assms
proof (induction c arbitrary: p)
  case (Suc c)
  show ?case
  proof (cases "v p = 0")
    case True
    hence IH: "c' \<le> c" "q = p + 1 + int (c - c')" "\<forall>i\<in>{p + 1..<q}. v i = 0" "c' \<noteq> 0 \<longrightarrow> v q \<noteq> 0"
      using Suc.IH[of "p + 1"] Suc.prems by auto
    have "{p..<q} \<subseteq> insert p {p + 1..<q}" by auto
    thus ?thesis using IH True by (auto simp: Suc_diff_le)
  qed (use Suc.prems in auto)
qed simp

lemma num_normalize_spec:
  assumes ok: "num_ok n"
  shows "num_norm (num_normalize n)" "num_int (num_normalize n) = num_int n"
    "n_scale (num_normalize n) = n_scale n" "n_neg (num_normalize n) = n_neg n"
    "n_len (num_normalize n) \<le> n_len n"
proof -
  let ?v = "n_value n" and ?r = "num_normalize n"
  note f = num_okD[OF ok]
  have "num_norm ?r \<and> num_int ?r = num_int n \<and> n_scale ?r = n_scale n \<and> n_neg ?r = n_neg n \<and> n_len ?r \<le> n_len n"
  proof (cases "?v 0 = 0")
    case True
    obtain b s where e: "skip_zeros (dlen n) ?v 0 = (b, s)" by (cases "skip_zeros (dlen n) ?v 0")
    note sp = skip_zeros_spec[OF e]
    have s: "s = int (dlen n - b)" "b \<le> dlen n" using sp by auto
    have r: "?r = n\<lparr>n_len := int b, n_value := mem_copy ?v 0 ?v s (int b + int (dscale n))\<rparr>"
      using True e f(2) by (simp add: num_normalize_def flip: dlen_def)
    have d: "dlen ?r = b" "dscale ?r = dscale n" by (simp_all add: r dlen_def dscale_def)
    have v: "n_value ?r i = ?v (i + s)" if "0 \<le> i" "i < int (b + dscale n)" for i
      using that by (simp add: r mem_copy_def add.commute)
    have "dval (n_value ?r) 0 (b + dscale n) = dval ?v s (b + dscale n)"
      using dval_cong[of 0 "b + dscale n" "n_value ?r" ?v s] v by simp
    also have "\<dots> = dval ?v 0 (dlen n - b) * 10 ^ (b + dscale n) + dval ?v s (b + dscale n)"
      using dval_zeros[of 0 "dlen n - b" ?v] sp by auto
    also have "\<dots> = num_int n" using dval_append[of ?v 0 "dlen n - b" "b + dscale n"] s by (simp add: num_int_def)
    finally have i: "num_int ?r = num_int n" by (simp add: num_int_def d)
    have g: "digits (n_value ?r) 0 (b + dscale n)"
      by (rule digits_cong[where w = ?v and k = s]) (use v s in \<open>auto intro: digits_sub[OF f(5)]\<close>)
    have "b > 0 \<longrightarrow> n_value ?r 0 \<noteq> 0" using v[of 0] sp s by auto
    moreover have "num_ok ?r" using g ok d by (simp add: num_ok_def r)
    ultimately show ?thesis using i s f(1) by (simp add: num_norm_def r)
  qed (use ok in \<open>simp add: num_normalize_def num_norm_def\<close>)
  thus "num_norm ?r" "num_int ?r = num_int n" "n_scale ?r = n_scale n" "n_neg ?r = n_neg n" "n_len ?r \<le> n_len n"
    by auto
qed

subsection \<open>The digit by digit loops\<close>

text \<open>
  All the loops of addition and subtraction are runs of one: the digits of a sequence of numbers
  that are not digits yet, with a carry that may be negative.
\<close>

fun digit_loop :: "nat \<Rightarrow> (int \<Rightarrow> int) \<Rightarrow> (int \<Rightarrow> int) \<Rightarrow> int \<Rightarrow> int \<Rightarrow> (int \<Rightarrow> int) \<times> int" where
  "digit_loop 0 t d dp c = (d, c)"
| "digit_loop (Suc n) t d dp c = digit_loop n t (d(dp := (t dp + c) mod 10)) (dp - 1) ((t dp + c) div 10)"

lemma digit_loop_append:
  "digit_loop (m + n) t d dp c =
     (case digit_loop m t d dp c of (d, c) \<Rightarrow> digit_loop n t d (dp - int m) c)"
  by (induction m arbitrary: d dp c) (simp_all add: algebra_simps split: prod.split)

lemma digit_loop_cong:
  "(\<And>i. dp - int n < i \<Longrightarrow> i \<le> dp \<Longrightarrow> t i = t' i) \<Longrightarrow> digit_loop n t d dp c = digit_loop n t' d dp c"
  by (induction n arbitrary: d dp c) simp_all

lemma digit_loop_frame:
  "i \<le> dp - int n \<or> dp < i \<Longrightarrow> fst (digit_loop n t d dp c) i = d i"
  by (induction n arbitrary: d dp c) auto

lemma digit_loop_val:
  "dval (fst (digit_loop n t d dp c)) (dp - int n + 1) n + snd (digit_loop n t d dp c) * 10 ^ n
    = dval t (dp - int n + 1) n + c"
proof (induction n arbitrary: d dp c)
  case (Suc n)
  let ?x = "t dp + c"
  obtain d' c' where r: "digit_loop n t (d(dp := ?x mod 10)) (dp - 1) (?x div 10) = (d', c')" by fastforce
  have dp: "d' dp = ?x mod 10"
    using digit_loop_frame[of dp "dp - 1" n t "d(dp := ?x mod 10)" "?x div 10"] by (simp add: r)
  have IH: "dval d' (dp - int n) n + c' * 10 ^ n = dval t (dp - int n) n + ?x div 10"
    using Suc.IH[of "d(dp := ?x mod 10)" "dp - 1" "?x div 10"] by (simp add: r del: fun_upd_apply)
  have "dval d' (dp - int n) (Suc n) + c' * 10 ^ Suc n = 10 * (dval d' (dp - int n) n + c' * 10 ^ n) + ?x mod 10"
    by (simp add: dp)
  also have "\<dots> = dval t (dp - int n) (Suc n) + c"
    using div_mult_mod_eq[of ?x 10] by (simp only: IH) simp
  finally have fin: "dval d' (dp - int n) (Suc n) + c' * 10 ^ Suc n = dval t (dp - int n) (Suc n) + c" .
  have st: "dp - int (Suc n) + 1 = dp - int n" by simp
  show ?case unfolding st digit_loop.simps r using fin by simp
qed simp

lemma digit_loop_digits: "digits (fst (digit_loop n t d dp c)) (dp - int n + 1) n"
proof (induction n arbitrary: d dp c)
  case (Suc n)
  have "dp - int (Suc n) + 1 = dp - 1 - int n + 1" by simp
  thus ?case using Suc.IH[of "d(dp := (t dp + c) mod 10)" "dp - 1" "(t dp + c) div 10"]
    by (simp add: digits_Suc digit_loop_frame pos_mod_bound[of 10, simplified] del: fun_upd_apply) (simp add: pos_mod_bound zless_imp_add1_zle)
qed (simp add: digits_def)

lemma copy_down_loop:
  "(\<And>i. dp - int n < i \<Longrightarrow> i \<le> dp \<Longrightarrow> t i = s (i + (sp - dp)) \<and> 0 \<le> t i \<and> t i \<le> 9)
    \<Longrightarrow> digit_loop n t d dp 0 = (copy_down n s sp d dp, 0)"
proof (induction n arbitrary: d dp sp)
  case (Suc n)
  have "t dp = s sp" "0 \<le> t dp" "t dp \<le> 9" using Suc.prems[of dp] by auto
  moreover have "t i = s (i + (sp - 1 - (dp - 1))) \<and> 0 \<le> t i \<and> t i \<le> 9" if "dp - 1 - int n < i" "i \<le> dp - 1" for i
    using Suc.prems[of i] that by simp
  note Suc.IH[OF this]
  ultimately show ?case by (simp del: fun_upd_apply)
qed simp

lemma div_mod_10_carry:
  "0 \<le> x \<Longrightarrow> x \<le> 19 \<Longrightarrow> x mod 10 = (if x > 9 then x - 10 else x) \<and> x div 10 = (if x > 9 then 1 else 0 :: int)"
  by presburger

lemma div_mod_10_borrow:
  "- 10 \<le> x \<Longrightarrow> x \<le> 9 \<Longrightarrow> x mod 10 = (if x < 0 then x + 10 else x) \<and> x div 10 = (if x < 0 then - 1 else 0 :: int)"
  by presburger

lemma add_loop_loop:
  "(\<And>i. dp - int n < i \<Longrightarrow> i \<le> dp \<Longrightarrow> t i = s1 (i + (p1 - dp)) + s2 (i + (p2 - dp)) \<and> 0 \<le> t i \<and> t i \<le> 18)
    \<Longrightarrow> c = 0 \<or> c = 1
    \<Longrightarrow> add_loop n s1 p1 s2 p2 d dp c = digit_loop n t d dp c \<and> snd (digit_loop n t d dp c) \<in> {0, 1}"
proof (induction n arbitrary: d dp p1 p2 c)
  case (Suc n)
  have x: "t dp = s1 p1 + s2 p2" "0 \<le> t dp" "t dp \<le> 18" using Suc.prems(1)[of dp] by auto
  hence m: "(t dp + c) mod 10 = (if t dp + c > 9 then t dp + c - 10 else t dp + c)"
      "(t dp + c) div 10 = (if t dp + c > 9 then 1 else 0)"
    using Suc.prems(2) div_mod_10_carry[of "t dp + c"] by auto
  have "t i = s1 (i + (p1 - 1 - (dp - 1))) + s2 (i + (p2 - 1 - (dp - 1))) \<and> 0 \<le> t i \<and> t i \<le> 18"
    if "dp - 1 - int n < i" "i \<le> dp - 1" for i using Suc.prems(1)[of i] that by simp
  note IH = Suc.IH[OF this]
  show ?case
  proof (cases "t dp + c > 9")
    case True
    thus ?thesis using m x(1) IH[of 1 "d(dp := t dp + c - 10)"] by (simp add: Let_def del: fun_upd_apply)
  next
    case False
    thus ?thesis using m x(1) IH[of 0 "d(dp := t dp + c)"] by (simp add: Let_def del: fun_upd_apply)
  qed
qed auto

lemma digit_loop_chain:
  "digit_loop m t d dp c = (d', c') \<Longrightarrow> digit_loop n t d' (dp - int m) c' = r \<Longrightarrow> digit_loop (m + n) t d dp c = r"
  by (simp add: digit_loop_append)

lemma nat_int_diff: "nat (int a - int b) = a - b"
  by simp

lemma carry_loop_add: "carry_loop n s p d dp c = add_loop n s p (\<lambda>_. 0) p d dp c"
  by (induction n arbitrary: p d dp c) (simp_all add: Let_def)

lemma sub_loop_loop:
  "(\<And>i. dp - int n < i \<Longrightarrow> i \<le> dp \<Longrightarrow> t i = s1 (i + (p1 - dp)) - s2 (i + (p2 - dp)) \<and> - 9 \<le> t i \<and> t i \<le> 9)
    \<Longrightarrow> b = 0 \<or> b = 1
    \<Longrightarrow> sub_loop n s1 p1 s2 p2 d dp b = (fst (digit_loop n t d dp (- b)), - snd (digit_loop n t d dp (- b)))
      \<and> - snd (digit_loop n t d dp (- b)) \<in> {0, 1}"
proof (induction n arbitrary: d dp p1 p2 b)
  case (Suc n)
  have x: "t dp = s1 p1 - s2 p2" "- 9 \<le> t dp" "t dp \<le> 9" using Suc.prems(1)[of dp] by auto
  hence m: "(t dp - b) mod 10 = (if t dp - b < 0 then t dp - b + 10 else t dp - b)"
      "(t dp - b) div 10 = (if t dp - b < 0 then - 1 else 0)"
    using Suc.prems(2) div_mod_10_borrow[of "t dp - b"] by auto
  have "t i = s1 (i + (p1 - 1 - (dp - 1))) - s2 (i + (p2 - 1 - (dp - 1))) \<and> - 9 \<le> t i \<and> t i \<le> 9"
    if "dp - 1 - int n < i" "i \<le> dp - 1" for i using Suc.prems(1)[of i] that by simp
  note IH = Suc.IH[OF this]
  show ?case
  proof (cases "t dp - b < 0")
    case True
    thus ?thesis using m x(1) IH[of 1 "d(dp := t dp - b + 10)"] by (simp add: Let_def del: fun_upd_apply)
  next
    case False
    thus ?thesis using m x(1) IH[of 0 "d(dp := t dp - b)"] by (simp add: Let_def del: fun_upd_apply)
  qed
qed auto

lemma neg_loop_sub: "neg_loop n s p d dp b = sub_loop n (\<lambda>_. 0) p s p d dp b"
  by (induction n arbitrary: p d dp b) (simp_all add: Let_def)

lemma borrow_loop_sub: "borrow_loop n s p d dp b = sub_loop n s p (\<lambda>_. 0) p d dp b"
  by (induction n arbitrary: p d dp b) (simp_all add: Let_def)

text \<open>The digits of a number at an offset, with zeros around them.\<close>

definition aligned :: "numeric \<Rightarrow> int \<Rightarrow> int \<Rightarrow> int" where
  "aligned n off i = (if off \<le> i \<and> i < off + int (dlen n + dscale n) then n_value n (i - off) else 0)"

lemma aligned_in: "off \<le> i \<Longrightarrow> i < off + int (dlen n + dscale n) \<Longrightarrow> aligned n off i = n_value n (i - off)"
  by (simp add: aligned_def)

lemma aligned_out: "i < off \<or> off + int (dlen n + dscale n) \<le> i \<Longrightarrow> aligned n off i = 0"
  by (auto simp: aligned_def)

lemma aligned_digit: "num_ok n \<Longrightarrow> 0 \<le> aligned n off i \<and> aligned n off i \<le> 9"
  using digitsD[OF num_okD(5), of n "i - off"] by (auto simp: aligned_def)

lemma dval_aligned:
  assumes "k = o' + (dlen n + dscale n) + r"
  shows "dval (aligned n (int o')) 0 k = num_int n * 10 ^ r"
proof -
  have "dval (aligned n (int o')) 0 o' = 0" by (rule dval_zeros) (simp add: aligned_def)
  moreover have "dval (aligned n (int o')) (int o') (dlen n + dscale n) = num_int n"
    using dval_cong[of "int o'" "dlen n + dscale n" "aligned n (int o')" "n_value n" "- int o'"]
    by (simp add: num_int_def aligned_def)
  moreover have "dval (aligned n (int o')) (int (o' + (dlen n + dscale n))) r = 0"
    by (rule dval_zeros) (simp add: aligned_def)
  ultimately show ?thesis unfolding assms by (simp only: dval_append) simp
qed

lemma dval_add: "dval (\<lambda>i. s i + t i) a n = dval s a n + dval t a n"
  by (induction n) simp_all

lemma dval_diff: "dval (\<lambda>i. s i - t i) a n = dval s a n - dval t a n"
  by (induction n) simp_all

subsection \<open>Addition of magnitudes is addition\<close>

definition inside :: "numeric \<Rightarrow> int \<Rightarrow> int \<Rightarrow> nat \<Rightarrow> bool" where
  "inside n off dp k \<longleftrightarrow> off \<le> dp - int k + 1 \<and> dp < off + int (dlen n + dscale n)"

definition outside :: "numeric \<Rightarrow> int \<Rightarrow> int \<Rightarrow> nat \<Rightarrow> bool" where
  "outside n off dp k \<longleftrightarrow> dp < off \<or> off + int (dlen n + dscale n) \<le> dp - int k + 1"

lemma inside_val: "inside n off dp k \<Longrightarrow> dp - int k < i \<Longrightarrow> i \<le> dp \<Longrightarrow> aligned n off i = n_value n (i + (p - dp))"
  if "p = dp - off"
  using that by (simp add: inside_def aligned_def)

lemma outside_val: "outside n off dp k \<Longrightarrow> dp - int k < i \<Longrightarrow> i \<le> dp \<Longrightarrow> aligned n off i = 0"
  by (auto simp: outside_def aligned_def)

lemma copy_phase:
  assumes "num_ok n" "k = 0 \<or> inside n off dp k \<and> outside n' off' dp k" "p = dp - off"
    and T: "\<And>i. T i = aligned n off i + aligned n' off' i \<or> T i = aligned n off i - aligned n' off' i"
  shows "digit_loop k T d dp 0 = (copy_down k (n_value n) p d dp, 0)"
proof (cases "k = 0")
  case False
  have "T i = n_value n (i + (p - dp)) \<and> 0 \<le> T i \<and> T i \<le> 9" if "dp - int k < i" "i \<le> dp" for i
  proof -
    have "aligned n off i = n_value n (i + (p - dp))" using inside_val[OF assms(3), of n k i] assms(2) False that by simp
    moreover have "aligned n' off' i = 0" using outside_val[of n' off' dp k i] assms(2) False that by simp
    ultimately show ?thesis using aligned_digit[OF assms(1), of off i] T[of i] by auto
  qed
  thus ?thesis by (rule copy_down_loop)
qed simp

lemma add_phase:
  assumes "num_ok n1" "num_ok n2" "inside n1 o1 dp k" "inside n2 o2 dp k" "c = 0 \<or> c = 1"
  shows "add_loop k (n_value n1) (dp - o1) (n_value n2) (dp - o2) d dp c
      = digit_loop k (\<lambda>i. aligned n1 o1 i + aligned n2 o2 i) d dp c
    \<and> snd (digit_loop k (\<lambda>i. aligned n1 o1 i + aligned n2 o2 i) d dp c) \<in> {0, 1}"
proof (rule add_loop_loop[OF _ assms(5)])
  fix i assume i: "dp - int k < i" "i \<le> dp"
  show "aligned n1 o1 i + aligned n2 o2 i = n_value n1 (i + (dp - o1 - dp)) + n_value n2 (i + (dp - o2 - dp))
      \<and> 0 \<le> aligned n1 o1 i + aligned n2 o2 i \<and> aligned n1 o1 i + aligned n2 o2 i \<le> 18"
    using inside_val[OF refl assms(3) i] inside_val[OF refl assms(4) i]
      aligned_digit[OF assms(1), of o1 i] aligned_digit[OF assms(2), of o2 i] by linarith
qed

lemma carry_phase:
  assumes "num_ok n" "k = 0 \<or> inside n off dp k \<and> outside n' off' dp k" "c = 0 \<or> c = 1"
    and T: "\<And>i. T i = aligned n off i + aligned n' off' i"
  shows "carry_loop k (n_value n) (dp - off) d dp c = digit_loop k T d dp c \<and> snd (digit_loop k T d dp c) \<in> {0, 1}"
proof (cases "k = 0")
  case False
  have "T i = n_value n (i + (dp - off - dp)) + 0 \<and> 0 \<le> T i \<and> T i \<le> 18" if i: "dp - int k < i" "i \<le> dp" for i
    using inside_val[OF refl _ i, of n off] outside_val[OF _ i, of n' off'] assms False
      aligned_digit[OF assms(1), of off i] by auto
  from add_loop_loop[where ?s1.0 = "n_value n" and ?s2.0 = "\<lambda>_. 0" and ?p1.0 = "dp - off" and ?p2.0 = "dp - off", OF this assms(3)]
  show ?thesis unfolding carry_loop_add .
qed (use assms in auto)

lemma num_add_digits_loop:
  fixes S D :: nat
  assumes ok: "num_ok n1" "num_ok n2"
    and h: "h = s\<lparr>n_len := int D, n_scale := max (int S) q\<rparr>"
    and v: "v = n_value (if q > int S then NUM_SET_0_REST h else h)"
    and S: "S = max (dscale n1) (dscale n2)" and D: "D = Suc (max (dlen n1) (dlen n2))"
    and T: "T = (\<lambda>i. aligned n1 (int D - int (dlen n1)) i + aligned n2 (int D - int (dlen n2)) i)"
  shows "\<exists>d. num_add_digits s n1 n2 q = num_normalize (h\<lparr>n_value := d\<rparr>)
    \<and> digit_loop (S + D) T (v(0 := 0)) (int S + int D - 1) 0 = (d, 0)"
proof -
  note f1 = num_okD[OF ok(1)] and f2 = num_okD[OF ok(2)]
  let ?s1 = "dscale n1" and ?s2 = "dscale n2" and ?l1 = "dlen n1" and ?l2 = "dlen n2"
  let ?m = "min ?s1 ?s2" and ?l = "min ?l1 ?l2" and ?v1 = "n_value n1" and ?v2 = "n_value n2"
  let ?dp = "int S + int D - 1" and ?o1 = "int D - int ?l1" and ?o2 = "int D - int ?l2"
  let ?p1 = "int ?l1 + int ?s1 - 1" and ?p2 = "int ?l2 + int ?s2 - 1"
  let ?w = "copy_down (?s2 - ?s1) ?v2 ?p2 (copy_down (?s1 - ?s2) ?v1 ?p1 (v(0 := 0)) ?dp) ?dp"
  have p1: "digit_loop (?s1 - ?s2 + (?s2 - ?s1)) T (v(0 := 0)) ?dp 0 = (?w, 0)"
  proof (cases "?s1 \<le> ?s2")
    case True
    thus ?thesis
      using copy_phase[OF ok(2), of "?s2 - ?s1" ?o2 ?dp n1 ?o1 ?p2 T "v(0 := 0)"]
      by (simp add: T S D inside_def outside_def del: fun_upd_apply)
  next
    case False
    thus ?thesis
      using copy_phase[OF ok(1), of "?s1 - ?s2" ?o1 ?dp n2 ?o2 ?p1 T "v(0 := 0)"]
      by (simp add: T S D inside_def outside_def del: fun_upd_apply)
  qed
  let ?dp2 = "int ?m + int D - 1"
  obtain d2 c2 where l2: "digit_loop (?m + ?l) T ?w ?dp2 0 = (d2, c2)" by fastforce
  have p2: "add_loop (?m + ?l) ?v1 (?dp2 - ?o1) ?v2 (?dp2 - ?o2) ?w ?dp2 0 = (d2, c2)" "c2 = 0 \<or> c2 = 1"
    using add_phase[OF ok, of ?o1 ?dp2 "?m + ?l" ?o2 0 ?w] l2
    by (auto simp: T D inside_def min_def)
  let ?dp3 = "int D - 1 - int ?l" and ?r = "max ?l1 ?l2 - ?l"
  obtain d3 c3 where l3: "digit_loop ?r T d2 ?dp3 c2 = (d3, c3)" by fastforce
  have p3: "(if ?l1 \<le> ?l2 then carry_loop (?l2 - ?l1) ?v2 (?dp3 - ?o2) d2 ?dp3 c2
      else carry_loop (?l1 - ?l2) ?v1 (?dp3 - ?o1) d2 ?dp3 c2) = (d3, c3)" "c3 = 0 \<or> c3 = 1"
  proof -
    have "carry_loop (?l2 - ?l1) ?v2 (?dp3 - ?o2) d2 ?dp3 c2 = (d3, c3) \<and> (c3 = 0 \<or> c3 = 1)" if le: "?l1 \<le> ?l2"
      using carry_phase[OF ok(2) _ p2(2), of "?l2 - ?l1" ?o2 ?dp3 n1 ?o1 T d2] l3 le
      by (simp add: T D inside_def outside_def add.commute)
    moreover have "carry_loop (?l1 - ?l2) ?v1 (?dp3 - ?o1) d2 ?dp3 c2 = (d3, c3) \<and> (c3 = 0 \<or> c3 = 1)" if le: "\<not> ?l1 \<le> ?l2"
      using carry_phase[OF ok(1) _ p2(2), of "?l1 - ?l2" ?o1 ?dp3 n2 ?o2 T d2] l3 le
      by (simp add: T D inside_def outside_def)
    ultimately show "(if ?l1 \<le> ?l2 then carry_loop (?l2 - ?l1) ?v2 (?dp3 - ?o2) d2 ?dp3 c2
      else carry_loop (?l1 - ?l2) ?v1 (?dp3 - ?o1) d2 ?dp3 c2) = (d3, c3)" "c3 = 0 \<or> c3 = 1" by auto
  qed
  have k: "int S + int D - 1 - int (?s1 - ?s2 + (?s2 - ?s1)) = ?dp2" "?dp2 - int (?m + ?l) = ?dp3"
      "S + D - 1 = (?s1 - ?s2 + (?s2 - ?s1)) + ((?m + ?l) + ?r)" by (auto simp: S D)
  have all: "digit_loop (S + D - 1) T (v(0 := 0)) ?dp 0 = (d3, c3)"
    unfolding k(3) by (intro digit_loop_chain[OF p1] digit_loop_chain[OF l2[folded k(1)]]) (simp only: k l3)
  have d3: "d3 0 = 0" using digit_loop_frame[of 0 ?dp "S + D - 1" T "v(0 := 0)" 0] unfolding all by (simp add: S D)
  have "?o1 > 0" "?o2 > 0" by (auto simp: D)
  hence T0: "T 0 = 0" by (simp add: T aligned_out)
  have "digit_loop 1 T d3 (?dp - int (S + D - 1)) c3 = (d3(0 := c3), 0)" using p3(2) T0 by (auto simp: D)
  from digit_loop_chain[OF all this] have fin: "digit_loop (S + D) T (v(0 := 0)) ?dp 0 = (d3(0 := c3), 0)"
    by (simp add: D del: fun_upd_apply digit_loop.simps)
  have last: "(if c3 = 1 then d3(0 := d3 0 + 1) else d3) = d3(0 := c3)" using d3 p3(2) by auto
  have "num_add_digits s n1 n2 q = num_normalize (h\<lparr>n_value := d3(0 := c3)\<rparr>)"
  proof -
    have e: "max (int ?l1) (int ?l2) + 1 = int D" "max (int ?s1) (int ?s2) = int S"
        "int ?s1 - int (?s1 - ?s2) + int ?l1 = int (?m + ?l1)" "int ?s2 - int (?s2 - ?s1) + int ?l2 = int (?m + ?l2)"
        "min (int (?m + ?l1)) (int (?m + ?l2)) = int (?m + ?l)"
        "int S + int D - 1 - int (?s1 - ?s2) - int (?s2 - ?s1) = ?dp2"
        "?p1 - int (?s1 - ?s2) = ?dp2 - ?o1" "?p2 - int (?s2 - ?s1) = ?dp2 - ?o2"
        "?dp2 - ?o1 - int (?m + ?l) = ?dp3 - ?o1" "?dp2 - ?o2 - int (?m + ?l) = ?dp3 - ?o2"
        "int (?m + ?l1) - int (?m + ?l) = int (?l1 - ?l2)" "int (?m + ?l2) - int (?m + ?l) = int (?l2 - ?l1)"
        "?dp3 - (if ?l1 \<le> ?l2 then int (?l2 - ?l1) else int (?l1 - ?l2)) = 0"
        "int (?l1 - ?l2) = 0 \<longleftrightarrow> ?l1 \<le> ?l2"
      by (auto simp: S D min_def)
    show ?thesis
      unfolding num_add_digits_def Let_def f1(1,2) f2(1,2)
      by (simp only: e nat_int_diff nat_int k p2(1) p3(1) prod.case last flip: h v)
         (simp add: h NUM_SET_0_REST_def)
  qed
  thus ?thesis using fin by blast
qed

text \<open>
  The bytes cleared are enough for the zeros that a minimal scale adds, or no zeros are needed.
\<close>

definition add_room :: "numeric \<Rightarrow> numeric \<Rightarrow> int \<Rightarrow> bool" where
  "add_room n1 n2 scale_min \<longleftrightarrow>
     scale_min \<le> max (n_scale n1) (n_scale n2) \<or> max (n_len n1) (n_len n2) + 1 + scale_min \<le> 44"

lemma mag_aligned: "num_ok n \<Longrightarrow> S = dscale n + r \<Longrightarrow> real_of_int (num_int n * 10 ^ r) = num_mag n * 10 ^ S"
  by (simp add: num_mag_def power_add)

text \<open>A buffer whose first digits are known and whose other digits in use are zeros.\<close>

lemma num_of_digits:
  assumes h: "n_len h = int D" "n_scale h = max (int S) q" "n_invalid h = 0" "n_neg h = 0"
    and d: "digits (n_value h) 0 (S + D)" and z: "\<And>i. int (S + D) \<le> i \<Longrightarrow> i < int D + q \<Longrightarrow> n_value h i = 0"
  shows "num_ok h" "num_mag h = real_of_int (dval (n_value h) 0 (S + D)) / 10 ^ S"
proof -
  define k where "k = nat (max (int S) q) - S"
  have l: "dlen h = D" "dscale h = S + k" using h by (auto simp: dlen_def dscale_def k_def)
  have z': "n_value h i = 0" if "int (S + D) \<le> i" "i < int (S + D) + int k" for i
    by (rule z) (use that in \<open>auto simp: k_def split: if_splits\<close>)
  have "digits (n_value h) (0 + int (S + D)) k" using z' by (auto simp: digits_def)
  from digits_append[OF d this] show "num_ok h" using h by (simp add: num_ok_def l add.commute add.left_commute)
  have "dval (n_value h) (0 + int (S + D)) k = 0" by (rule dval_zeros) (use z' in auto)
  moreover have "num_int h = dval (n_value h) 0 (S + D + k)" by (simp add: num_int_def l add.commute add.left_commute)
  ultimately have "num_int h = dval (n_value h) 0 (S + D) * 10 ^ k" unfolding dval_append by simp
  thus "num_mag h = real_of_int (dval (n_value h) 0 (S + D)) / 10 ^ S" by (simp add: num_mag_def l power_add)
qed

lemma num_normalize_mag: "num_ok n \<Longrightarrow> num_mag (num_normalize n) = num_mag n"
  using num_normalize_spec[of n] by (simp add: num_mag_def dscale_def)

lemma num_add_digits_mag:
  assumes ok: "num_ok n1" "num_ok n2" and room: "add_room n1 n2 q"
    and r: "r = num_add_digits (NUM_SET_0 s) n1 n2 q"
  shows "num_norm r \<and> num_mag r = num_mag n1 + num_mag n2 \<and> n_neg r = 0
    \<and> n_scale r = max (max (n_scale n1) (n_scale n2)) q \<and> n_len r \<le> max (n_len n1) (n_len n2) + 1"
proof -
  note f1 = num_okD[OF ok(1)] and f2 = num_okD[OF ok(2)]
  define S D where "S = max (dscale n1) (dscale n2)" and "D = Suc (max (dlen n1) (dlen n2))"
  define T where "T = (\<lambda>i. aligned n1 (int D - int (dlen n1)) i + aligned n2 (int D - int (dlen n2)) i)"
  define h where "h = (NUM_SET_0 s)\<lparr>n_len := int D, n_scale := max (int S) q\<rparr>"
  define v where "v = n_value (if q > int S then NUM_SET_0_REST h else h)"
  obtain d where rd: "r = num_normalize (h\<lparr>n_value := d\<rparr>)"
      and d: "digit_loop (S + D) T (v(0 := 0)) (int S + int D - 1) 0 = (d, 0)"
    using num_add_digits_loop[OF ok h_def v_def S_def D_def T_def] r by auto
  let ?h = "h\<lparr>n_value := d\<rparr>"
  have st: "int S + int D - 1 - int (S + D) + 1 = 0" by simp
  have dg: "digits d 0 (S + D)" using digit_loop_digits[of "S + D" T "v(0 := 0)" "int S + int D - 1" 0] unfolding st d by simp
  have dv: "dval d 0 (S + D) = dval T 0 (S + D)"
    using digit_loop_val[of "S + D" T "v(0 := 0)" "int S + int D - 1" 0] unfolding st d by simp
  have z: "d i = 0" if i: "int (S + D) \<le> i" "i < int D + q" for i
  proof -
    have "q > int S" "int D + q \<le> 44" using i room f1 f2 by (auto simp: add_room_def S_def D_def)
    hence "(v(0 := 0)) i = 0" using i by (auto simp: v_def h_def NUM_SET_0_REST_def NUM_SET_0_def mem_set_def)
    thus ?thesis using digit_loop_frame[of i "int S + int D - 1" "S + D" T "v(0 := 0)" 0] i unfolding d by simp
  qed
  have hh: "n_len ?h = int D" "n_scale ?h = max (int S) q" "n_invalid ?h = 0" "n_neg ?h = 0"
    by (simp_all add: h_def NUM_SET_0_def)
  have Ss: "dscale n1 \<le> S" "dscale n2 \<le> S" by (simp_all add: S_def)
  note ok' = num_of_digits[OF hh, simplified, OF dg z]
  have "dval T 0 (S + D) = num_int n1 * 10 ^ (S - dscale n1) + num_int n2 * 10 ^ (S - dscale n2)"
    unfolding T_def dval_add
    using dval_aligned[of "S + D" "D - dlen n1" n1 "S - dscale n1"] dval_aligned[of "S + D" "D - dlen n2" n2 "S - dscale n2"]
    by (simp add: S_def D_def of_nat_diff)
  hence "real_of_int (dval d 0 (S + D)) = (num_mag n1 + num_mag n2) * 10 ^ S"
    using mag_aligned[OF ok(1), of S "S - dscale n1"] mag_aligned[OF ok(2), of S "S - dscale n2"] Ss
    by (simp add: dv distrib_right)
  hence "num_mag ?h = num_mag n1 + num_mag n2" using ok'(2) by simp
  thus ?thesis
    using num_normalize_spec[OF ok'(1)] num_normalize_mag[OF ok'(1)] hh unfolding rd
    by (simp add: f1 f2 S_def D_def of_nat_max add.commute)
qed

subsection \<open>Subtraction of magnitudes is subtraction\<close>

lemma sub_phase:
  assumes "num_ok n1" "num_ok n2" "b = 0 \<or> b = 1"
    and s1: "k = 0 \<or> inside n1 o1 dp k \<and> s1 = n_value n1 \<and> p1 = dp - o1 \<or> outside n1 o1 dp k \<and> s1 = (\<lambda>_. 0)"
    and s2: "k = 0 \<or> inside n2 o2 dp k \<and> s2 = n_value n2 \<and> p2 = dp - o2 \<or> outside n2 o2 dp k \<and> s2 = (\<lambda>_. 0)"
  shows "let t = (\<lambda>i. aligned n1 o1 i - aligned n2 o2 i) in
    sub_loop k s1 p1 s2 p2 d dp b = (fst (digit_loop k t d dp (- b)), - snd (digit_loop k t d dp (- b)))
    \<and> - snd (digit_loop k t d dp (- b)) \<in> {0, 1}"
  unfolding Let_def
proof (cases "k = 0")
  case False
  show "sub_loop k s1 p1 s2 p2 d dp b =
      (fst (digit_loop k (\<lambda>i. aligned n1 o1 i - aligned n2 o2 i) d dp (- b)),
       - snd (digit_loop k (\<lambda>i. aligned n1 o1 i - aligned n2 o2 i) d dp (- b)))
    \<and> - snd (digit_loop k (\<lambda>i. aligned n1 o1 i - aligned n2 o2 i) d dp (- b)) \<in> {0, 1}"
  proof (rule sub_loop_loop[OF _ assms(3)])
    fix i assume i: "dp - int k < i" "i \<le> dp"
    have "aligned n1 o1 i = s1 (i + (p1 - dp))"
      using inside_val[OF refl _ i, of n1 o1] outside_val[OF _ i, of n1 o1] s1 False by auto
    moreover have "aligned n2 o2 i = s2 (i + (p2 - dp))"
      using inside_val[OF refl _ i, of n2 o2] outside_val[OF _ i, of n2 o2] s2 False by auto
    ultimately show "aligned n1 o1 i - aligned n2 o2 i = s1 (i + (p1 - dp)) - s2 (i + (p2 - dp))
        \<and> - 9 \<le> aligned n1 o1 i - aligned n2 o2 i \<and> aligned n1 o1 i - aligned n2 o2 i \<le> 9"
      using aligned_digit[OF assms(1), of o1 i] aligned_digit[OF assms(2), of o2 i] by linarith
  qed
qed (use assms(3) in auto)

lemma num_subtract_digits_loop:
  fixes S D :: nat
  assumes ok: "num_ok n1" "num_ok n2" and le: "dlen n2 \<le> dlen n1"
    and h: "h = s\<lparr>n_len := int D, n_scale := max (int S) q\<rparr>"
    and v: "v = (if q > int S then mem_set (n_value s) (int D + int S) 0 (q - int S) else n_value s)"
    and S: "S = max (dscale n1) (dscale n2)" and D: "D = dlen n1"
    and T: "T = (\<lambda>i. aligned n1 0 i - aligned n2 (int D - int (dlen n2)) i)"
  shows "num_subtract_digits s n1 n2 q =
    num_normalize (h\<lparr>n_value := fst (digit_loop (S + D) T (v(0 := 0)) (int S + int D - 1) 0)\<rparr>)
    \<and> - snd (digit_loop (S + D) T (v(0 := 0)) (int S + int D - 1) 0) \<in> {0, 1}"
proof -
  note f1 = num_okD[OF ok(1)] and f2 = num_okD[OF ok(2)]
  let ?s1 = "dscale n1" and ?s2 = "dscale n2" and ?l1 = "dlen n1" and ?l2 = "dlen n2"
  let ?m = "min ?s1 ?s2" and ?v1 = "n_value n1" and ?v2 = "n_value n2"
  let ?dp = "int S + int D - 1" and ?o2 = "int D - int ?l2"
  let ?p1 = "int ?l1 + int ?s1 - 1" and ?p2 = "int ?l2 + int ?s2 - 1"
  let ?k = "?s1 - ?s2 + (?s2 - ?s1)"
  note ph = sub_phase[OF ok, where ?o1.0 = 0 and ?o2.0 = "int D - int (dlen n2)", unfolded Let_def, folded T]
  obtain d1 c1 where l1: "digit_loop ?k T (v(0 := 0)) ?dp 0 = (d1, c1)" by fastforce
  have p1: "(if ?s1 \<noteq> ?m then (copy_down (?s1 - ?m) ?v1 ?p1 (v(0 := 0)) ?dp, 0)
      else neg_loop (?s2 - ?m) ?v2 ?p2 (v(0 := 0)) ?dp 0) = (d1, - c1)" "- c1 = 0 \<or> - c1 = 1"
  proof -
    have "neg_loop (?s2 - ?s1) ?v2 ?p2 (v(0 := 0)) ?dp 0 = (d1, - c1) \<and> (c1 = 0 \<or> c1 = - 1)" if "?s1 \<le> ?s2"
      using ph[of 0 "?s2 - ?s1" ?dp "\<lambda>_. 0" ?p2 ?v2 ?p2 "v(0 := 0)"] l1 that le
      by (auto simp: neg_loop_sub inside_def outside_def S D simp del: fun_upd_apply)
    moreover have "digit_loop (?s1 - ?s2) T (v(0 := 0)) ?dp 0 = (copy_down (?s1 - ?s2) ?v1 ?p1 (v(0 := 0)) ?dp, 0)"
      if "\<not> ?s1 \<le> ?s2"
      using copy_phase[OF ok(1), of "?s1 - ?s2" 0 ?dp n2 ?o2 ?p1 T "v(0 := 0)"] that le
      by (simp add: T S D inside_def outside_def del: fun_upd_apply)
    ultimately show "(if ?s1 \<noteq> ?m then (copy_down (?s1 - ?m) ?v1 ?p1 (v(0 := 0)) ?dp, 0)
      else neg_loop (?s2 - ?m) ?v2 ?p2 (v(0 := 0)) ?dp 0) = (d1, - c1)" "- c1 = 0 \<or> - c1 = 1"
      using l1 by (cases "?s1 \<le> ?s2"; simp del: fun_upd_apply; fail)+
  qed
  let ?dp2 = "int ?m + int D - 1" and ?dp3 = "int D - 1 - int ?l2"
  obtain d2 c2 where l2: "digit_loop (?l2 + ?m) T d1 ?dp2 c1 = (d2, c2)" by fastforce
  have "inside n1 0 ?dp2 (?l2 + ?m)" "inside n2 ?o2 ?dp2 (?l2 + ?m)" using le by (auto simp: inside_def D)
  hence p2: "sub_loop (?l2 + ?m) ?v1 ?dp2 ?v2 (?dp2 - ?o2) d1 ?dp2 (- c1) = (d2, - c2)" "- c2 = 0 \<or> - c2 = 1"
    using ph[OF p1(2), of "?l2 + ?m" ?dp2 ?v1 ?dp2 ?v2 "?dp2 - ?o2" d1] l2 by auto
  obtain d3 c3 where l3: "digit_loop (?l1 - ?l2) T d2 ?dp3 c2 = (d3, c3)" by fastforce
  have p3: "fst (borrow_loop (?l1 - ?l2) ?v1 ?dp3 d2 ?dp3 (- c2)) = d3" "- c3 = 0 \<or> - c3 = 1"
    using ph[OF p2(2), of "?l1 - ?l2" ?dp3 ?v1 ?dp3 "\<lambda>_. 0" ?dp3 d2] l3 le
    by (auto simp: borrow_loop_sub inside_def outside_def D)
  have k: "?dp - int ?k = ?dp2" "?dp2 - int (?l2 + ?m) = ?dp3" "S + D = ?k + ((?l2 + ?m) + (?l1 - ?l2))"
    using le by (auto simp: S D)
  have all: "digit_loop (S + D) T (v(0 := 0)) ?dp 0 = (d3, c3)"
    unfolding k(3) by (intro digit_loop_chain[OF l1] digit_loop_chain[OF l2[folded k(1)]]) (simp only: k l3)
  have e: "max (int ?l1) (int ?l2) = int D" "max (int ?s1) (int ?s2) = int S"
      "min (int ?l1) (int ?l2) = int ?l2" "min (int ?s1) (int ?s2) = int ?m" "int D + int S - 1 = ?dp"
      "int ?l2 + int ?m = int (?l2 + ?m)" "?dp - int (?s1 - ?m) - int (?s2 - ?m) = ?dp2"
      "?p1 - int (?s1 - ?m) = ?dp2" "?p2 - int (?s2 - ?m) = ?dp2 - ?o2"
      "n_value (s\<lparr>n_len := int D, n_scale := max (int S) q\<rparr>) = n_value s"
      "int ?s1 \<noteq> int ?m \<longleftrightarrow> ?s1 \<noteq> ?m"
    using le by (auto simp: S D)
  have last: "(if int D \<noteq> int ?l2 then fst (borrow_loop (D - ?l2) ?v1 ?dp3 d2 ?dp3 (- c2)) else d2) = d3"
    using p3(1) l3 D by auto
  show ?thesis
    unfolding num_subtract_digits_def Let_def f1(1,2) f2(1,2) all
    by (simp only: e nat_int_diff nat_int k(2) p1(1) p2(1) prod.case last flip: v)
       (use p3(2) in \<open>simp add: h\<close>)
qed

lemma num_subtract_digits_mag:
  assumes n: "num_norm n1" "num_norm n2" and ge: "num_mag n2 \<le> num_mag n1"
    and r: "r = num_subtract_digits (NUM_SET_0 s) n1 n2 q"
  shows "num_norm r \<and> num_mag r = num_mag n1 - num_mag n2 \<and> n_neg r = 0
    \<and> n_scale r = max (max (n_scale n1) (n_scale n2)) q \<and> n_len r \<le> n_len n1"
proof -
  note ok = num_norm_ok[OF n(1)] num_norm_ok[OF n(2)]
  note f1 = num_okD[OF ok(1)] and f2 = num_okD[OF ok(2)]
  have le: "dlen n2 \<le> dlen n1" using num_mag_less_len[OF n] ge by linarith
  define S D where "S = max (dscale n1) (dscale n2)" and "D = dlen n1"
  define T where "T = (\<lambda>i. aligned n1 0 i - aligned n2 (int D - int (dlen n2)) i)"
  define h where "h = (NUM_SET_0 s)\<lparr>n_len := int D, n_scale := max (int S) q\<rparr>"
  define v where "v = (if q > int S then mem_set (n_value (NUM_SET_0 s)) (int D + int S) 0 (q - int S) else n_value (NUM_SET_0 s))"
  obtain d c where d: "digit_loop (S + D) T (v(0 := 0)) (int S + int D - 1) 0 = (d, c)" by fastforce
  have rd: "r = num_normalize (h\<lparr>n_value := d\<rparr>)" and c: "c = 0 \<or> c = - 1"
    using num_subtract_digits_loop[OF ok le h_def v_def S_def D_def T_def] r unfolding d by auto
  let ?h = "h\<lparr>n_value := d\<rparr>"
  have st: "int S + int D - 1 - int (S + D) + 1 = 0" by simp
  have dg: "digits d 0 (S + D)" using digit_loop_digits[of "S + D" T "v(0 := 0)" "int S + int D - 1" 0] unfolding st d by simp
  have Ss: "dscale n1 \<le> S" "dscale n2 \<le> S" by (simp_all add: S_def)
  have "dval T 0 (S + D) = num_int n1 * 10 ^ (S - dscale n1) - num_int n2 * 10 ^ (S - dscale n2)"
    unfolding T_def dval_diff
    using dval_aligned[of "S + D" 0 n1 "S - dscale n1"] dval_aligned[of "S + D" "D - dlen n2" n2 "S - dscale n2"] le Ss
    by (simp add: D_def of_nat_diff)
  hence dT: "real_of_int (dval T 0 (S + D)) = (num_mag n1 - num_mag n2) * 10 ^ S"
    using mag_aligned[OF ok(1), of S "S - dscale n1"] mag_aligned[OF ok(2), of S "S - dscale n2"] Ss
    by (simp add: left_diff_distrib)
  hence "0 \<le> real_of_int (dval T 0 (S + D))" using ge by simp
  moreover have dv: "dval d 0 (S + D) + c * 10 ^ (S + D) = dval T 0 (S + D)"
    using digit_loop_val[of "S + D" T "v(0 := 0)" "int S + int D - 1" 0] unfolding st d by simp
  ultimately have c0: "c = 0" using c dval_bounds[OF dg] by auto
  have z: "d i = 0" if i: "int (S + D) \<le> i" "i < int D + q" for i
  proof -
    have "(v(0 := 0)) i = 0" using i by (auto simp: v_def mem_set_def)
    thus ?thesis using digit_loop_frame[of i "int S + int D - 1" "S + D" T "v(0 := 0)" 0] i unfolding d by simp
  qed
  have hh: "n_len ?h = int D" "n_scale ?h = max (int S) q" "n_invalid ?h = 0" "n_neg ?h = 0"
    by (simp_all add: h_def NUM_SET_0_def)
  note ok' = num_of_digits[OF hh, simplified, OF dg z]
  have "num_mag ?h = num_mag n1 - num_mag n2" using ok'(2) dT dv c0 by simp
  thus ?thesis
    using num_normalize_spec[OF ok'(1)] num_normalize_mag[OF ok'(1)] hh unfolding rd
    by (simp add: f1 f2 S_def D_def of_nat_max)
qed

subsection \<open>Signed addition and subtraction\<close>

definition num_room :: "numeric \<Rightarrow> numeric \<Rightarrow> int \<Rightarrow> bool" where
  "num_room n1 n2 scale_min \<longleftrightarrow>
     max (n_len n1) (n_len n2) + 1 + max (max (n_scale n1) (n_scale n2)) scale_min \<le> NUMERIC_MAX_DATA_BYTES"

definition result_within :: "numeric \<Rightarrow> numeric \<Rightarrow> numeric \<Rightarrow> int \<Rightarrow> bool" where
  "result_within r n1 n2 scale_min \<longleftrightarrow>
     n_len r \<le> max (n_len n1) (n_len n2) + 1 \<and> n_scale r \<le> max (max (n_scale n1) (n_scale n2)) scale_min"

lemma num_neg_update:
  "num_norm n \<Longrightarrow> s = 0 \<or> s = 1 \<Longrightarrow> num_norm (n\<lparr>n_neg := s\<rparr>)"
  "num_mag (n\<lparr>n_neg := s\<rparr>) = num_mag n"
  "num_val (n\<lparr>n_neg := s\<rparr>) = (if s \<noteq> 0 then - num_mag n else num_mag n)"
  by (simp_all add: num_norm_def num_ok_def num_mag_def num_val_def num_int_def dlen_def dscale_def)

lemma num_eq_mag: "num_eq r n \<Longrightarrow> num_ok n \<Longrightarrow> num_mag r = num_mag n"
  using num_eq_int[of r n] num_eq_len[of r n] by (simp add: num_mag_def)

lemma room_fits:
  "num_room n1 n2 q \<Longrightarrow> n_len d \<le> max (n_len n1) (n_len n2) + 1
   \<Longrightarrow> n_scale d \<le> max (max (n_scale n1) (n_scale n2)) q \<Longrightarrow> n_len d + n_scale d \<le> NUMERIC_STACK_BYTES"
  unfolding num_room_def numeric_consts by arith

lemma num_assign_keeps:
  assumes "num_norm d" "n_len d + n_scale d \<le> NUMERIC_STACK_BYTES" "r = num_assign res d"
  shows "num_norm r" "num_mag r = num_mag d" "num_val r = num_val d" "n_len r = n_len d" "n_scale r = n_scale d" "n_neg r = n_neg d"
proof -
  have e: "num_eq r d" using num_assign_eq assms by simp
  show "num_norm r" "num_mag r = num_mag d" "num_val r = num_val d"
    using num_eq_norm[OF e] num_eq_mag[OF e] num_eq_val[OF e] num_norm_ok[OF assms(1)] assms(1) by auto
  show "n_len r = n_len d" "n_scale r = n_scale d" "n_neg r = n_neg d" using e by (auto simp: num_eq_def)
qed

lemma num_add_int_mag:
  assumes n: "num_ok n1" "num_ok n2" and room: "add_room n1 n2 q" "num_room n1 n2 q"
    and r: "r = num_add_int alias block res n1 n2 q"
  shows "num_norm r \<and> num_mag r = num_mag n1 + num_mag n2 \<and> result_within r n1 n2 q
    \<and> n_scale r = max (max (n_scale n1) (n_scale n2)) q"
proof (cases "alias")
  case True
  note s = num_add_digits_mag[OF n room(1) refl, of block]
  let ?d = "num_add_digits (NUM_SET_0 block) n1 n2 q"
  have "n_len ?d + n_scale ?d \<le> NUMERIC_STACK_BYTES" by (rule room_fits[OF room(2)]) (use s in auto)
  from num_assign_keeps[OF conjunct1[OF s] this refl, of res] show ?thesis using s True r
    by (auto simp: num_add_int_def numeric_allocate_def result_within_def)
next
  case False
  thus ?thesis using num_add_digits_mag[OF n room(1) refl, of res] r by (simp add: num_add_int_def result_within_def)
qed

lemma num_subtract_int_mag:
  assumes n: "num_norm n1" "num_norm n2" and ge: "num_mag n2 \<le> num_mag n1" and room: "num_room n1 n2 q"
    and r: "r = num_subtract_int alias block res n1 n2 q"
  shows "num_norm r \<and> num_mag r = num_mag n1 - num_mag n2 \<and> result_within r n1 n2 q"
proof (cases "alias")
  case True
  note s = num_subtract_digits_mag[OF n ge refl, of block q]
  let ?d = "num_subtract_digits (NUM_SET_0 block) n1 n2 q"
  have "n_len ?d + n_scale ?d \<le> NUMERIC_STACK_BYTES" by (rule room_fits[OF room]) (use s in auto)
  from num_assign_keeps[OF conjunct1[OF s] this refl, of res] show ?thesis using s True r
    by (auto simp: num_subtract_int_def numeric_allocate_def result_within_def)
next
  case False
  thus ?thesis using num_subtract_digits_mag[OF n ge refl, of res q] r by (auto simp: num_subtract_int_def result_within_def)
qed

lemma num_0_norm: "num_norm (NUM_SET_0 n)" "num_val (NUM_SET_0 n) = 0" "num_mag (NUM_SET_0 n) = 0"
  by (simp_all add: NUM_SET_0_def num_norm_def num_ok_def num_val_def num_mag_def num_int_def dlen_def dscale_def
      digits_def)

lemma num_0_within: "num_ok n1 \<Longrightarrow> num_ok n2 \<Longrightarrow> result_within (NUM_SET_0 s) n1 n2 q"
  by (auto simp: NUM_SET_0_def result_within_def num_ok_def)

lemma num_room_comm: "num_room n1 n2 q \<longleftrightarrow> num_room n2 n1 q" "result_within r n1 n2 q \<longleftrightarrow> result_within r n2 n1 q"
  by (simp_all add: num_room_def result_within_def max.commute)

lemma num_add_val:
  assumes n: "num_norm n1" "num_norm n2" and room: "num_room n1 n2 q"
    and zeros: "n_neg n1 = n_neg n2 \<Longrightarrow> add_room n1 n2 q"
    and r: "r = num_add alias block res n1 n2 q"
  shows "num_norm r \<and> num_val r = num_val n1 + num_val n2 \<and> result_within r n1 n2 q"
proof (cases "n_neg n1 = n_neg n2")
  case True
  note ok = num_norm_ok[OF n(1)] num_norm_ok[OF n(2)]
  note s = num_add_int_mag[OF ok zeros[OF True] room refl, of "alias" block res]
  show ?thesis using s True num_okD(4)[OF ok(1)] r
    by (simp add: num_add_def num_neg_update result_within_def num_val_def)
next
  case False
  note ok = num_norm_ok[OF n(1)] num_norm_ok[OF n(2)]
  note sg = num_okD(4)[OF ok(1)] num_okD(4)[OF ok(2)]
  consider "num_mag n1 < num_mag n2" | "num_mag n1 = num_mag n2" | "num_mag n1 > num_mag n2" by linarith
  thus ?thesis
  proof cases
    case 1
    note s = num_subtract_int_mag[OF n(2,1) _ room[unfolded num_room_comm(1)[of n1]] refl, of "alias" block res]
    show ?thesis using 1 s sg False r
      by (auto simp: num_add_def num_compare_mag[OF n] cmp_sign_def num_neg_update num_val_def num_room_comm(2)[of _ n1]
          result_within_def)
  next
    case 2
    hence "r = NUM_SET_0 res" using False r by (simp add: num_add_def num_compare_mag[OF n] cmp_sign_def)
    moreover have "num_val n1 + num_val n2 = 0" using 2 False sg by (auto simp: num_val_def)
    ultimately show ?thesis using num_0_norm num_0_within[OF ok] by simp
  next
    case 3
    note s = num_subtract_int_mag[OF n _ room refl, of "alias" block res]
    show ?thesis using 3 s sg False r
      by (auto simp: num_add_def num_compare_mag[OF n] cmp_sign_def num_neg_update num_val_def result_within_def)
  qed
qed

lemma num_subtract_val:
  assumes n: "num_norm n1" "num_norm n2" and room: "num_room n1 n2 q"
    and zeros: "n_neg n1 \<noteq> n_neg n2 \<Longrightarrow> add_room n1 n2 q"
    and r: "r = num_subtract alias block res n1 n2 q"
  shows "num_norm r \<and> num_val r = num_val n1 - num_val n2 \<and> result_within r n1 n2 q"
proof (cases "n_neg n1 \<noteq> n_neg n2")
  case True
  note ok = num_norm_ok[OF n(1)] num_norm_ok[OF n(2)]
  note s = num_add_int_mag[OF ok zeros[OF True] room refl, of "alias" block res]
  show ?thesis using s True num_okD(4)[OF ok(1)] num_okD(4)[OF ok(2)] r
    by (auto simp: num_subtract_def num_neg_update result_within_def num_val_def)
next
  case False
  note ok = num_norm_ok[OF n(1)] num_norm_ok[OF n(2)]
  note sg = num_okD(4)[OF ok(1)] num_okD(4)[OF ok(2)]
  consider "num_mag n1 < num_mag n2" | "num_mag n1 = num_mag n2" | "num_mag n1 > num_mag n2" by linarith
  thus ?thesis
  proof cases
    case 1
    note s = num_subtract_int_mag[OF n(2,1) _ room[unfolded num_room_comm(1)[of n1]] refl, of "alias" block res]
    show ?thesis using 1 s sg False r
      by (auto simp: num_subtract_def num_compare_mag[OF n] cmp_sign_def num_neg_update num_val_def num_room_comm(2)[of _ n1]
          result_within_def)
  next
    case 2
    hence "r = NUM_SET_0 res" using False r by (simp add: num_subtract_def num_compare_mag[OF n] cmp_sign_def)
    moreover have "num_val n1 - num_val n2 = 0" using 2 False sg by (auto simp: num_val_def)
    ultimately show ?thesis using num_0_norm num_0_within[OF ok] by simp
  next
    case 3
    note s = num_subtract_int_mag[OF n _ room refl, of "alias" block res]
    show ?thesis using 3 s sg False r
      by (auto simp: num_subtract_def num_compare_mag[OF n] cmp_sign_def num_neg_update num_val_def result_within_def)
  qed
qed

end
