(* ===== verification/Num_Mul.thy ===== *)
theory Num_Mul
  imports Num_Core
begin

text \<open>
  Multiplication of \<^verbatim>\<open>libsrc/Wi/numeric.c\<close>: the schoolbook product, column by column from the least
  significant one, with the columns beyond the result's scale computed for their carry only.
\<close>

function mul_inner :: "(int \<Rightarrow> int) \<Rightarrow> int \<Rightarrow> (int \<Rightarrow> int) \<Rightarrow> int \<Rightarrow> int \<Rightarrow> int \<Rightarrow> int" where
  "mul_inner v1 n1ptr v2 n2ptr n2end sm =
     (if n1ptr \<ge> 0 \<and> n2ptr \<le> n2end
      then mul_inner v1 (n1ptr - 1) v2 (n2ptr + 1) n2end (sm + v1 n1ptr * v2 n2ptr) else sm)"
  by auto
termination by (relation "measure (\<lambda>(v1, n1ptr, v2, n2ptr, n2end, sm). nat (n1ptr + 1))") auto

declare mul_inner.simps [simp del]

definition mul_column :: "numeric \<Rightarrow> numeric \<Rightarrow> int \<Rightarrow> int \<Rightarrow> int" where
  "mul_column n1 n2 indx sm =
     (let len1 = n_len n1 + n_scale n1; len2 = n_len n2 + n_scale n2;
          n1end = len1 - 1; n2end = len2 - 1
      in mul_inner (n_value n1) (n1end - max 0 (indx - len2 + 1))
                   (n_value n2) (n2end - min indx (len2 - 1)) n2end sm)"

fun mul_toss :: "nat \<Rightarrow> numeric \<Rightarrow> numeric \<Rightarrow> int \<Rightarrow> int \<Rightarrow> int" where
  "mul_toss 0 n1 n2 indx sm = sm"
| "mul_toss (Suc k) n1 n2 indx sm = mul_toss k n1 n2 (indx + 1) (mul_column n1 n2 indx sm div 10)"

fun mul_digits :: "nat \<Rightarrow> numeric \<Rightarrow> numeric \<Rightarrow> int \<Rightarrow> (int \<Rightarrow> int) \<Rightarrow> int \<Rightarrow> int \<Rightarrow> (int \<Rightarrow> int) \<times> int \<times> int" where
  "mul_digits 0 n1 n2 indx pv pvptr sm = (pv, pvptr, sm)"
| "mul_digits (Suc k) n1 n2 indx pv pvptr sm =
     (let sm = mul_column n1 n2 indx sm
      in mul_digits k n1 n2 (indx + 1) (pv(pvptr := sm mod 10)) (pvptr - 1) (sm div 10))"

text \<open>
  With two zeros there are no digits at all and the last store goes to the byte before the digits,
  which holds the sign; it stores 0, as the last statement does again.
\<close>

definition num_multiply_digits :: "numeric \<Rightarrow> numeric \<Rightarrow> numeric \<Rightarrow> int \<Rightarrow> numeric" where
  "num_multiply_digits pval n1 n2 scale =
     (let len1 = n_len n1 + n_scale n1;
          len2 = n_len n2 + n_scale n2;
          total_digits = len1 + len2;
          full_scale = n_scale n1 + n_scale n2;
          prod_scale = min full_scale (max scale (max (n_scale n1) (n_scale n2)));
          toss = full_scale - prod_scale;
          pval = pval\<lparr>n_len := total_digits - full_scale, n_scale := prod_scale,
                      n_neg := xor (n_neg n1) (n_neg n2)\<rparr>;
          sm = mul_toss (nat toss) n1 n2 0 0 in
      case mul_digits (nat (total_digits - 1 - toss)) n1 n2 toss (n_value pval) (total_digits - toss - 1) sm of
        (v, pvptr, sm) \<Rightarrow>
          let pval = num_normalize (pval\<lparr>n_value := v(pvptr := sm)\<rparr>)
          in if num_is_zero pval then pval\<lparr>n_neg := 0\<rparr> else pval)"

definition num_multiply :: "bool \<Rightarrow> numeric \<Rightarrow> numeric \<Rightarrow> numeric \<Rightarrow> numeric \<Rightarrow> int \<Rightarrow> numeric" where
  "num_multiply alias block result n1 n2 scale =
     (if alias then num_assign result (num_multiply_digits (numeric_allocate block) n1 n2 scale)
      else num_multiply_digits (NUM_SET_0 result) n1 n2 scale)"

subsection \<open>The columns of the product\<close>

text \<open>The digits of a number, counted from the least significant one, followed by zeros.\<close>

definition rdig :: "numeric \<Rightarrow> nat \<Rightarrow> int" where
  "rdig n i = (if i < dlen n + dscale n then n_value n (int (dlen n + dscale n) - 1 - int i) else 0)"

lemma dval_rev: "dval v a n = (\<Sum>i<n. v (a + int n - 1 - int i) * 10 ^ i)"
proof (induction n)
  case (Suc n)
  have "(\<Sum>i<Suc n. v (a + int (Suc n) - 1 - int i) * 10 ^ i)
      = v (a + int n) + (\<Sum>i<n. v (a + int n - 1 - int i) * 10 ^ Suc i)"
    by (subst sum.lessThan_Suc_shift) (simp add: algebra_simps)
  also have "(\<Sum>i<n. v (a + int n - 1 - int i) * 10 ^ Suc i) = 10 * dval v a n"
    unfolding Suc.IH sum_distrib_left by (rule sum.cong) simp_all
  finally show ?case by simp
qed simp

lemma num_int_rdig: "num_int n = (\<Sum>i<dlen n + dscale n. rdig n i * 10 ^ i)"
  unfolding num_int_def dval_rev by (rule sum.cong) (simp_all add: rdig_def)

lemma mul_inner_sum:
  "mul_inner v1 p1 v2 p2 e x = x + (\<Sum>j<min (nat (p1 + 1)) (nat (e - p2 + 1)). v1 (p1 - int j) * v2 (p2 + int j))"
proof (induction v1 p1 v2 p2 e x rule: mul_inner.induct)
  case (1 v1 p1 v2 p2 e sm)
  show ?case
  proof (cases "p1 \<ge> 0 \<and> p2 \<le> e")
    case True
    let ?m = "min (nat (p1 - 1 + 1)) (nat (e - (p2 + 1) + 1))"
    have m: "min (nat (p1 + 1)) (nat (e - p2 + 1)) = Suc ?m" using True by auto
    show ?thesis using 1[OF True] True unfolding m
      by (subst mul_inner.simps, subst sum.lessThan_Suc_shift) (simp add: algebra_simps)
  next
    case False
    hence "min (nat (p1 + 1)) (nat (e - p2 + 1)) = 0" by auto
    thus ?thesis using False by (subst mul_inner.simps) auto
  qed
qed

definition conv :: "numeric \<Rightarrow> numeric \<Rightarrow> nat \<Rightarrow> int" where
  "conv n1 n2 k = (\<Sum>i\<le>k. rdig n1 i * rdig n2 (k - i))"

lemma mul_column_conv:
  assumes ok: "num_ok n1" "num_ok n2"
  shows "mul_column n1 n2 (int k) sm = sm + conv n1 n2 k"
proof -
  define L1 L2 where "L1 = dlen n1 + dscale n1" and "L2 = dlen n2 + dscale n2"
  have len: "n_len n1 + n_scale n1 = int L1" "n_len n2 + n_scale n2 = int L2"
    using num_okD(1,2)[OF ok(1)] num_okD(1,2)[OF ok(2)] by (auto simp: L1_def L2_def)
  show ?thesis
  proof (cases "L2 = 0")
    case True
    thus ?thesis unfolding mul_column_def len Let_def mul_inner_sum
      by (simp add: conv_def rdig_def flip: L2_def)
  next
    case False
    define i0 where "i0 = k - (L2 - 1)"
    define m where "m = min (L1 - i0) (k - i0 + 1)"
    have p: "int L1 - 1 - max 0 (int k - int L2 + 1) = int L1 - 1 - int i0"
        "int L2 - 1 - min (int k) (int L2 - 1) = int L2 - 1 - int (k - i0)"
      using False by (auto simp: i0_def)
    have "mul_column n1 n2 (int k) sm
        = sm + (\<Sum>j<m. n_value n1 (int L1 - 1 - int i0 - int j) * n_value n2 (int L2 - 1 - int (k - i0) + int j))"
      unfolding mul_column_def len Let_def mul_inner_sum p
      by (rule arg_cong2[where f = "(+)"]) (auto intro!: sum.cong simp: m_def)
    also have "(\<Sum>j<m. n_value n1 (int L1 - 1 - int i0 - int j) * n_value n2 (int L2 - 1 - int (k - i0) + int j))
        = (\<Sum>j<m. rdig n1 (i0 + j) * rdig n2 (k - (i0 + j)))"
      using False by (intro sum.cong refl arg_cong2[where f = "(*)"])
        (auto simp: rdig_def m_def i0_def of_nat_diff algebra_simps simp flip: L1_def L2_def intro!: arg_cong[where f = "n_value n1"] arg_cong[where f = "n_value n2"])
    also have "\<dots> = (\<Sum>i\<in>{i0..<i0 + m}. rdig n1 i * rdig n2 (k - i))"
      using sum.shift_bounds_nat_ivl[of "\<lambda>i. rdig n1 i * rdig n2 (k - i)" 0 i0 m]
      by (simp add: add.commute lessThan_atLeast0)
    also have "\<dots> = conv n1 n2 k" unfolding conv_def
    proof (rule sum.mono_neutral_left)
      show "\<forall>i\<in>{..k} - {i0..<i0 + m}. rdig n1 i * rdig n2 (k - i) = 0"
        using False by (auto simp: rdig_def i0_def m_def simp flip: L1_def L2_def)
      have "m \<le> k - i0 + 1" "i0 \<le> k" by (simp_all add: m_def i0_def)
      hence "i0 + m \<le> Suc k" by linarith
      thus "{i0..<i0 + m} \<subseteq> {..k}" by auto
    qed simp
    finally show ?thesis .
  qed
qed

lemma conv_sum:
  "(\<Sum>k<dlen n1 + dscale n1 + (dlen n2 + dscale n2). conv n1 n2 k * 10 ^ k) = num_int n1 * num_int n2"
proof -
  let ?l1 = "dlen n1 + dscale n1" and ?l2 = "dlen n2 + dscale n2"
  have "num_int n1 = (\<Sum>i\<le>?l1. rdig n1 i * 10 ^ i)" "num_int n2 = (\<Sum>i\<le>?l2. rdig n2 i * 10 ^ i)"
    unfolding num_int_rdig by (simp_all add: rdig_def flip: lessThan_Suc_atMost)
  hence "num_int n1 * num_int n2 = (\<Sum>k\<le>?l1 + ?l2. conv n1 n2 k * 10 ^ k)"
    unfolding conv_def by (simp only:) (rule polynomial_product; simp add: rdig_def)
  moreover have "conv n1 n2 (?l1 + ?l2) = 0" unfolding conv_def by (rule sum.neutral) (auto simp: rdig_def)
  ultimately show ?thesis by (simp flip: lessThan_Suc_atMost)
qed

lemma conv_last: "0 < k \<Longrightarrow> k = dlen n1 + dscale n1 + (dlen n2 + dscale n2) \<Longrightarrow> conv n1 n2 (k - 1) = 0"
  unfolding conv_def by (rule sum.neutral) (auto simp: rdig_def)

lemma mul_toss_div:
  assumes ok: "num_ok n1" "num_ok n2"
  shows "mul_toss k n1 n2 (int j) s = (s + (\<Sum>i<k. conv n1 n2 (j + i) * 10 ^ i)) div 10 ^ k"
proof (induction k arbitrary: j s)
  case (Suc k)
  let ?R = "\<Sum>i<k. conv n1 n2 (Suc j + i) * 10 ^ i"
  have "mul_toss (Suc k) n1 n2 (int j) s = ((s + conv n1 n2 j) div 10 + ?R) div 10 ^ k"
    using Suc.IH[of "Suc j"] by (simp add: mul_column_conv[OF ok] add.commute)
  also have "(s + conv n1 n2 j) div 10 + ?R = (s + conv n1 n2 j + ?R * 10) div 10" by simp
  also have "(s + conv n1 n2 j + ?R * 10) div 10 div 10 ^ k = (s + conv n1 n2 j + ?R * 10) div 10 ^ Suc k"
    by (simp add: zdiv_zmult2_eq)
  also have "s + conv n1 n2 j + ?R * 10 = s + (\<Sum>i<Suc k. conv n1 n2 (j + i) * 10 ^ i)"
    by (subst sum.lessThan_Suc_shift) (simp add: sum_distrib_left algebra_simps)
  finally show ?case .
qed simp

lemma mul_digits_loop:
  assumes ok: "num_ok n1" "num_ok n2" and K: "K = int j + p" and k: "int k \<le> p + 1"
  shows "mul_digits k n1 n2 (int j) v p s =
    (case digit_loop k (\<lambda>q. conv n1 n2 (nat (K - q))) v p s of (d, c) \<Rightarrow> (d, p - int k, c))"
  using K k
proof (induction k arbitrary: j p v s)
  case (Suc k)
  have "mul_digits k n1 n2 (int (Suc j)) w (p - 1) c =
      (case digit_loop k (\<lambda>q. conv n1 n2 (nat (K - q))) w (p - 1) c of (d, c) \<Rightarrow> (d, p - 1 - int k, c))" for w c
    using Suc.IH[of "Suc j" "p - 1" w c] Suc.prems by simp
  thus ?case using Suc.prems by (simp add: mul_column_conv[OF ok] Let_def add.commute split: prod.split)
qed simp

subsection \<open>The product\<close>

text \<open>The scale of the product and the number of digits that are dropped.\<close>

definition prod_scale :: "numeric \<Rightarrow> numeric \<Rightarrow> int \<Rightarrow> int" where
  "prod_scale n1 n2 scale = min (n_scale n1 + n_scale n2) (max scale (max (n_scale n1) (n_scale n2)))"

definition toss :: "numeric \<Rightarrow> numeric \<Rightarrow> int \<Rightarrow> nat" where
  "toss n1 n2 scale = nat (n_scale n1 + n_scale n2 - prod_scale n1 n2 scale)"

lemma num_int_prod_bound:
  "num_ok n1 \<Longrightarrow> num_ok n2 \<Longrightarrow>
   num_int n1 * num_int n2 < 10 ^ (dlen n1 + dscale n1 + (dlen n2 + dscale n2))"
  using num_int_bounds[of n1] num_int_bounds[of n2]
    mult_strict_mono[of "num_int n1" "10 ^ (dlen n1 + dscale n1)" "num_int n2" "10 ^ (dlen n2 + dscale n2)"]
  by (simp add: power_add)

lemma sum_lessThan_add: "(\<Sum>i<k + n. f i) = (\<Sum>i<k. f i) + (\<Sum>i<n. f (k + i :: nat))"
  for f :: "nat \<Rightarrow> int"
  by (induction n) simp_all

lemma int_div_less_pow:
  assumes "(x :: int) < 10 ^ (k + n)" shows "x div 10 ^ k < 10 ^ n"
proof (rule ccontr)
  assume "\<not> x div 10 ^ k < 10 ^ n"
  hence "10 ^ n * 10 ^ k \<le> x div 10 ^ k * 10 ^ k" by (intro mult_right_mono) auto
  also have "\<dots> \<le> x" by (simp add: minus_mod_eq_div_mult [symmetric])
  finally show False using assms by (simp add: power_add mult.commute)
qed

lemma mul_all_columns:
  fixes tot :: nat
  assumes ok: "num_ok n1" "num_ok n2" and tot: "tot = dlen n1 + dscale n1 + (dlen n2 + dscale n2)" "tot > 0"
    and k: "k < tot"
  shows "\<exists>d c. mul_digits (tot - 1 - k) n1 n2 (int k) v (int (tot - k) - 1) (mul_toss k n1 n2 0 0) = (d, 0, c)
    \<and> digits (d(0 := c)) 0 (tot - k) \<and> dval (d(0 := c)) 0 (tot - k) = num_int n1 * num_int n2 div 10 ^ k"
proof -
  let ?t = "\<lambda>q. conv n1 n2 (nat (int tot - 1 - q))" and ?p = "int (tot - k) - 1" and ?n = "tot - 1 - k"
  let ?s = "mul_toss k n1 n2 0 0" and ?N = "num_int n1 * num_int n2"
  obtain d c where dc: "digit_loop ?n ?t v ?p ?s = (d, c)" by fastforce
  have e: "mul_digits ?n n1 n2 (int k) v ?p ?s = (d, 0, c)"
    using mul_digits_loop[OF ok, of "int tot - 1" k ?p ?n v ?s] dc k by (simp add: of_nat_diff)
  have st: "?p - int ?n + 1 = 1" using k by simp
  have dg: "digits d 1 ?n" using digit_loop_digits[of ?n ?t v ?p ?s] unfolding st dc by simp
  have "dval ?t 1 ?n = (\<Sum>i<?n. conv n1 n2 (k + i) * 10 ^ i)"
    unfolding dval_rev by (rule sum.cong) (use k in \<open>auto intro!: arg_cong[where f = "conv n1 n2"]\<close>)
  moreover have "dval d 1 ?n + c * 10 ^ ?n = dval ?t 1 ?n + ?s"
    using digit_loop_val[of ?n ?t v ?p ?s] unfolding st dc by simp
  moreover have "?s = (\<Sum>i<k. conv n1 n2 i * 10 ^ i) div 10 ^ k" using mul_toss_div[OF ok, of k 0 0] by simp
  ultimately have "dval d 1 ?n + c * 10 ^ ?n
      = (\<Sum>i<k. conv n1 n2 i * 10 ^ i) div 10 ^ k + (\<Sum>i<?n. conv n1 n2 (k + i) * 10 ^ i)" by simp
  also have "\<dots> = ((\<Sum>i<k. conv n1 n2 i * 10 ^ i) + (\<Sum>i<?n. conv n1 n2 (k + i) * 10 ^ i) * 10 ^ k) div 10 ^ k" by simp
  also have "(\<Sum>i<k. conv n1 n2 i * 10 ^ i) + (\<Sum>i<?n. conv n1 n2 (k + i) * 10 ^ i) * 10 ^ k = (\<Sum>i<k + ?n. conv n1 n2 i * 10 ^ i)"
    unfolding sum_lessThan_add sum_distrib_right by (simp add: power_add algebra_simps)
  also have "\<dots> = ?N" using conv_sum[of n1 n2] conv_last[OF tot(2,1)] k unfolding tot(1)[symmetric]
    by (cases tot) simp_all
  finally have val: "dval d 1 ?n + c * 10 ^ ?n = ?N div 10 ^ k" .
  have N: "0 \<le> ?N div 10 ^ k" "?N div 10 ^ k < 10 ^ (tot - k)"
    using num_int_bounds[OF ok(1)] num_int_bounds[OF ok(2)] num_int_prod_bound[OF ok] k
    by (auto intro!: int_div_less_pow simp: pos_imp_zdiv_nonneg_iff tot(1) simp flip: power_add)
  have w: "tot - k = Suc ?n" using k by simp
  have b: "0 \<le> dval d 1 ?n" "dval d 1 ?n < 10 ^ ?n" using dval_bounds[OF dg] by auto
  have c: "0 \<le> c" "c \<le> 9"
  proof -
    have "- 1 * 10 ^ ?n < c * 10 ^ ?n" using val N(1) b by linarith
    thus "0 \<le> c" by (simp only: mult_less_cancel_right) simp
    have "c * 10 ^ ?n < 10 * 10 ^ ?n" using val N(2) b unfolding w power_Suc by linarith
    thus "c \<le> 9" by simp
  qed
  have s: "dval (d(0 := c)) 1 ?n = dval d 1 ?n" by (rule dval_same) auto
  have "digits (d(0 := c)) 0 (Suc ?n)" using c dg by (auto simp: digits_def)
  moreover have "dval (d(0 := c)) 0 (Suc ?n) = ?N div 10 ^ k" using val s unfolding dval_Cons by simp
  ultimately show ?thesis using e unfolding w by blast
qed

lemma toss_bound:
  assumes "num_ok n1" "num_ok n2" "dlen n1 + dscale n1 + (dlen n2 + dscale n2) > 0"
  shows "toss n1 n2 scale < dlen n1 + dscale n1 + (dlen n2 + dscale n2)"
    "n_scale n1 + n_scale n2 = prod_scale n1 n2 scale + int (toss n1 n2 scale)" "0 \<le> prod_scale n1 n2 scale"
  using assms num_okD(1,2)[OF assms(1)] num_okD(1,2)[OF assms(2)]
  by (auto simp: toss_def prod_scale_def max_def min_def split: if_splits)

lemma num_is_zero_mag: "num_is_zero n \<Longrightarrow> num_ok n \<Longrightarrow> num_mag n = 0"
  by (simp add: num_is_zero_def num_mag_def num_int_def num_okD(1,2) flip: of_nat_add)

lemma num_no_digits:
  "n_len r = 0 \<Longrightarrow> n_scale r = 0 \<Longrightarrow> n_invalid r = 0 \<Longrightarrow> n_neg r = 0 \<Longrightarrow> num_norm r \<and> num_mag r = 0"
  by (simp add: num_norm_def num_ok_def num_mag_def num_int_def dlen_def dscale_def digits_def)

lemma num_multiply_digits_val:
  assumes ok: "num_ok n1" "num_ok n2" and r: "r = num_multiply_digits (NUM_SET_0 s) n1 n2 scale"
  shows "num_norm r \<and> num_mag r = of_int (num_int n1 * num_int n2 div 10 ^ toss n1 n2 scale) / 10 ^ nat (prod_scale n1 n2 scale)
    \<and> (num_mag r \<noteq> 0 \<longrightarrow> n_neg r = xor (n_neg n1) (n_neg n2))
    \<and> n_scale r = prod_scale n1 n2 scale \<and> n_len r \<le> n_len n1 + n_len n2"
proof -
  note f1 = num_okD[OF ok(1)] and f2 = num_okD[OF ok(2)]
  define tot where "tot = dlen n1 + dscale n1 + (dlen n2 + dscale n2)"
  let ?k = "toss n1 n2 scale" and ?N = "num_int n1 * num_int n2" and ?sc = "prod_scale n1 n2 scale"
  have neg: "xor (n_neg n1) (n_neg n2) = 0 \<or> xor (n_neg n1) (n_neg n2) = 1" using f1(4) f2(4) by auto
  show ?thesis
  proof (cases "tot = 0")
    case True
    hence z: "dlen n1 = 0" "dscale n1 = 0" "dlen n2 = 0" "dscale n2 = 0" by (auto simp: tot_def)
    have "num_int n1 = 0" by (simp add: num_int_def z)
    moreover have "n_len r = 0 \<and> n_scale r = 0 \<and> n_invalid r = 0 \<and> n_neg r = 0"
      by (simp add: r num_multiply_digits_def f1(1,2) f2(1,2) z Let_def num_normalize_def num_is_zero_def NUM_SET_0_def
          split: prod.split)
    moreover have "?sc = 0" by (simp add: prod_scale_def f1(2) f2(2) z)
    ultimately show ?thesis using num_no_digits[of r] by (simp add: f1(1) f2(1))
  next
    case False
    hence pos: "tot > 0" by simp
    note tb = toss_bound[OF ok, folded tot_def, OF pos, of scale]
    obtain d c where m: "mul_digits (tot - 1 - ?k) n1 n2 (int ?k) (n_value (NUM_SET_0 s)) (int (tot - ?k) - 1) (mul_toss ?k n1 n2 0 0) = (d, 0, c)"
        and dg: "digits (d(0 := c)) 0 (tot - ?k)" and dv: "dval (d(0 := c)) 0 (tot - ?k) = ?N div 10 ^ ?k"
      using mul_all_columns[OF ok tot_def pos tb(1)] by blast
    define h where "h = (NUM_SET_0 s)\<lparr>n_len := int (dlen n1 + dlen n2), n_scale := ?sc, n_neg := xor (n_neg n1) (n_neg n2), n_value := d(0 := c)\<rparr>"
    have hs: "dlen h = dlen n1 + dlen n2" "dscale h = nat ?sc" by (simp_all add: h_def dlen_def[of "_\<lparr>n_value := _\<rparr>"] dscale_def[of "_\<lparr>n_value := _\<rparr>"])
    have hl: "dlen h + dscale h = tot - ?k" unfolding hs using tb f1(2) f2(2) by (simp add: tot_def)
    have hok: "num_ok h" using dg neg tb(3) hl by (simp add: num_ok_def h_def NUM_SET_0_def)
    have hm: "num_mag h = of_int (?N div 10 ^ ?k) / 10 ^ nat ?sc"
      using dv hl hs(2) by (simp add: num_mag_def num_int_def) (simp add: h_def)
    have psc: "min (int (dscale n1) + int (dscale n2)) (max scale (max (int (dscale n1)) (int (dscale n2)))) = ?sc"
      by (simp add: prod_scale_def f1(2) f2(2))
    have e: "int (dlen n1) + int (dscale n1) + (int (dlen n2) + int (dscale n2)) = int tot"
        "int (dscale n1) + int (dscale n2) - ?sc = int ?k" "nat (int ?k) = ?k"
        "int tot - (int (dscale n1) + int (dscale n2)) = int (dlen n1 + dlen n2)"
        "nat (int tot - 1 - int ?k) = tot - 1 - ?k" "int tot - int ?k - 1 = int (tot - ?k) - 1"
      using tb f1(2) f2(2) by (auto simp: tot_def)
    have "r = (if num_is_zero (num_normalize h) then (num_normalize h)\<lparr>n_neg := 0\<rparr> else num_normalize h)"
      unfolding r num_multiply_digits_def Let_def f1(1,2) f2(1,2)
      using m by (simp only: psc e) (simp add: h_def)
    thus ?thesis
      using num_normalize_spec[OF hok] num_normalize_mag[OF hok] hm num_neg_update(1)[of "num_normalize h" 0]
        num_neg_update(2)[of 0 "num_normalize h"] num_is_zero_mag[of "num_normalize h"] f1(1) f2(1)
      by (auto simp: h_def num_norm_ok)
  qed
qed

text \<open>Truncation towards zero to a number of decimals.\<close>

definition trunc_to :: "nat \<Rightarrow> real \<Rightarrow> real" where
  "trunc_to k x = sgn x * of_int \<lfloor>\<bar>x\<bar> * 10 ^ k\<rfloor> / 10 ^ k"

lemma trunc_to_nonneg: "0 \<le> x \<Longrightarrow> trunc_to k x = of_int \<lfloor>x * 10 ^ k\<rfloor> / 10 ^ k"
  by (cases "x = 0") (simp_all add: trunc_to_def sgn_if)

lemma trunc_to_minus: "trunc_to k (- x) = - trunc_to k x"
  by (simp add: trunc_to_def sgn_if)

lemma trunc_to_exact: "x * 10 ^ k = of_int z \<Longrightarrow> trunc_to k x = x"
  by (cases "0 \<le> x"; cases "x = 0")
     (auto simp: trunc_to_def sgn_if field_simps abs_if simp flip: of_int_minus of_int_mult)

lemma num_val_abs: "num_ok n \<Longrightarrow> \<bar>num_val n\<bar> = num_mag n"
  using num_mag_nonneg[of n] by (simp add: num_val_def)

lemma toss_scale: "num_ok n1 \<Longrightarrow> num_ok n2 \<Longrightarrow> dscale n1 + dscale n2 = nat (prod_scale n1 n2 scale) + toss n1 n2 scale"
  using num_okD(2)[of n1] num_okD(2)[of n2] by (auto simp: toss_def prod_scale_def max_def min_def split: if_splits)

lemma num_multiply_val:
  assumes ok: "num_ok n1" "num_ok n2"
    and room: "n_len n1 + n_len n2 + prod_scale n1 n2 scale \<le> NUMERIC_STACK_BYTES"
    and r: "r = num_multiply alias block res n1 n2 scale"
  shows "num_norm r \<and> num_val r = trunc_to (nat (prod_scale n1 n2 scale)) (num_val n1 * num_val n2)
    \<and> n_scale r = prod_scale n1 n2 scale \<and> n_len r \<le> n_len n1 + n_len n2"
proof -
  let ?p = "prod_scale n1 n2 scale" and ?k = "toss n1 n2 scale"
  define d where "d = num_multiply_digits (if alias then NUM_SET_0 block else NUM_SET_0 res) n1 n2 scale"
  have d: "num_norm d" "num_mag d = of_int (num_int n1 * num_int n2 div 10 ^ ?k) / 10 ^ nat ?p"
      "num_mag d \<noteq> 0 \<longrightarrow> n_neg d = xor (n_neg n1) (n_neg n2)" "n_scale d = ?p" "n_len d \<le> n_len n1 + n_len n2"
    using num_multiply_digits_val[OF ok, of d "if alias then block else res" scale] by (auto simp: d_def)
  have "num_norm r \<and> num_val r = num_val d \<and> n_scale r = ?p \<and> n_len r \<le> n_len n1 + n_len n2"
    using num_assign_keeps[OF d(1) _ refl, of res] room d r
    by (auto simp: num_multiply_def numeric_allocate_def d_def)
  moreover have "num_val d = trunc_to (nat ?p) (num_val n1 * num_val n2)"
  proof -
    have "real_of_int (num_int n1 * num_int n2) / real_of_int (10 ^ ?k) = num_mag n1 * num_mag n2 * 10 ^ nat ?p"
      by (simp add: num_mag_def field_simps toss_scale[OF ok, of scale] flip: power_add)
    hence m: "num_mag d = trunc_to (nat ?p) (num_mag n1 * num_mag n2)"
      using floor_divide_of_int_eq[of "num_int n1 * num_int n2" "10 ^ ?k", where ?'a = real] num_mag_nonneg ok d(2)
      by (simp add: trunc_to_nonneg)
    show ?thesis
    proof (cases "num_mag d = 0")
      case True
      thus ?thesis using m trunc_to_minus[of "nat ?p" "num_mag n1 * num_mag n2"] by (simp add: num_val_def)
    next
      case False
      thus ?thesis using d(3) m num_okD(4)[OF ok(1)] num_okD(4)[OF ok(2)] trunc_to_minus[of "nat ?p" "num_mag n1 * num_mag n2"]
        by (auto simp: num_val_def)
    qed
  qed
  ultimately show ?thesis by simp
qed

end
