(* ===== verification/Num_Div.thy ===== *)
theory Num_Div
  imports Num_Mul
begin

text \<open>
  Division of \<^verbatim>\<open>libsrc/Wi/numeric.c\<close>: long division with guessed quotient digits (Knuth, volume 2,
  algorithm D) on copies of the digits of both operands. The three digit buffers of the source are
  arrays on its stack, whose initial contents are arguments here. The result is \<open>None\<close> where an
  assertion of the source fails or where it would scan past the end of the divisor, which only
  happens when all digits of the divisor are zeros.
\<close>

subsection \<open>Multiplication by one digit\<close>

fun mul_digit_loop ::
  "nat \<Rightarrow> (int \<Rightarrow> int) \<Rightarrow> int \<Rightarrow> (int \<Rightarrow> int) \<Rightarrow> int \<Rightarrow> int \<Rightarrow> int \<Rightarrow> (int \<Rightarrow> int) \<times> int" where
  "mul_digit_loop 0 num nptr result rptr digit carry = (result, carry)"
| "mul_digit_loop (Suc k) num nptr result rptr digit carry =
     (let val = num nptr * digit + carry
      in mul_digit_loop k num (nptr - 1) (result(rptr := val mod 10)) (rptr - 1) digit (val div 10))"

text \<open>
  The source allows the operand and the result to be the same array: each digit is read before it
  is written and the loop goes down, so the old contents of the operand are what it reads.
\<close>

definition num_multiply_int :: "(int \<Rightarrow> int) \<Rightarrow> int \<Rightarrow> (int \<Rightarrow> int) \<Rightarrow> int \<Rightarrow> int \<Rightarrow> int \<Rightarrow> int \<Rightarrow> int" where
  "num_multiply_int result rp num np k digit =
     (if digit = 0 then mem_set result rp 0 k
      else if digit = 1 then mem_copy result rp num np k
      else
        (case mul_digit_loop (nat k) num (np + k - 1) result (rp + k - 1) digit 0 of
           (result, carry) \<Rightarrow> if carry \<noteq> 0 then result(rp - 1 := carry) else result))"

subsection \<open>One quotient digit\<close>

definition div_test :: "(int \<Rightarrow> int) \<Rightarrow> int \<Rightarrow> (int \<Rightarrow> int) \<Rightarrow> int \<Rightarrow> int \<Rightarrow> bool" where
  "div_test num2 n2ptr num1 qdig qguess \<longleftrightarrow>
     num2 (n2ptr + 1) * qguess >
     (num1 qdig * 10 + num1 (qdig + 1) - num2 n2ptr * qguess) * 10 + num1 (qdig + 2)"

definition div_guess :: "(int \<Rightarrow> int) \<Rightarrow> int \<Rightarrow> (int \<Rightarrow> int) \<Rightarrow> int \<Rightarrow> int" where
  "div_guess num2 n2ptr num1 qdig =
     (let qguess = (if num2 n2ptr = num1 qdig then 9 else (num1 qdig * 10 + num1 (qdig + 1)) div num2 n2ptr) in
      if div_test num2 n2ptr num1 qdig qguess then
        let qguess = qguess - 1 in
        if div_test num2 n2ptr num1 qdig qguess then qguess - 1 else qguess
      else qguess)"

definition div_step ::
  "(int \<Rightarrow> int) \<Rightarrow> (int \<Rightarrow> int) \<Rightarrow> int \<Rightarrow> nat \<Rightarrow> (int \<Rightarrow> int) \<Rightarrow> int \<Rightarrow> int \<times> (int \<Rightarrow> int)" where
  "div_step mval num2 n2ptr len2 num1 qdig =
     (let qguess = div_guess num2 n2ptr num1 qdig in
      case (if qguess \<noteq> 0 then
              let mval = num_multiply_int (mval(0 := 0)) 1 num2 n2ptr (int len2) qguess;
                  ptr1 = qdig + int len2; ptr2 = int len2
              in sub_loop (len2 + 1) num1 ptr1 mval ptr2 num1 ptr1 0
            else (num1, 0)) of
        (num1, borrow) \<Rightarrow>
          if borrow = 1 then
            let ptr1 = qdig + int len2; ptr2 = n2ptr + int len2 - 1 in
            case add_loop len2 num1 ptr1 num2 ptr2 num1 ptr1 0 of
              (num1, carry) \<Rightarrow>
                (qguess - 1, if carry = 1 then num1(qdig := (num1 qdig + 1) mod 10) else num1)
          else (qguess, num1))"

fun div_loop ::
  "nat \<Rightarrow> (int \<Rightarrow> int) \<Rightarrow> (int \<Rightarrow> int) \<Rightarrow> int \<Rightarrow> nat \<Rightarrow> (int \<Rightarrow> int) \<Rightarrow> int \<Rightarrow> (int \<Rightarrow> int) \<Rightarrow> int \<Rightarrow> (int \<Rightarrow> int)" where
  "div_loop 0 mval num2 n2ptr len2 num1 qdig q qptr = q"
| "div_loop (Suc k) mval num2 n2ptr len2 num1 qdig q qptr =
     (case div_step mval num2 n2ptr len2 num1 qdig of
        (qguess, num1) \<Rightarrow> div_loop k mval num2 n2ptr len2 num1 (qdig + 1) (q(qptr := qguess)) (qptr + 1))"

subsection \<open>The division\<close>

fun strip_zeros :: "nat \<Rightarrow> (int \<Rightarrow> int) \<Rightarrow> int \<Rightarrow> nat" where
  "strip_zeros 0 v p = 0"
| "strip_zeros (Suc scale) v p = (if v p = 0 then strip_zeros scale v (p - 1) else Suc scale)"

definition num_divide_digits ::
  "(int \<Rightarrow> int) \<Rightarrow> (int \<Rightarrow> int) \<Rightarrow> (int \<Rightarrow> int) \<Rightarrow> numeric \<Rightarrow> numeric \<Rightarrow> numeric \<Rightarrow> int \<Rightarrow> numeric option" where
  "num_divide_digits stk1 stk2 mval qval n1 n2 scale =
     (let scale2 = int (strip_zeros (nat (n_scale n2)) (n_value n2) (n_len n2 + n_scale n2 - 1));
          len1 = n_len n1 + scale2;
          scale1 = n_scale n1 - scale2;
          extra = (if scale1 < scale then scale - scale1 else 0);
          size1 = n_len n1 + n_scale n1 + extra + 2;
          len2 = n_len n2 + scale2 in
      if size1 > NUMERIC_STACK_BYTES \<or> len2 + 1 > NUMERIC_STACK_BYTES then None
      else
        let num1 = mem_copy (mem_set stk1 0 0 size1) 1 (n_value n1) 0 (n_len n1 + n_scale n1);
            num2 = (mem_copy stk2 0 (n_value n2) 0 len2)(len2 := 0) in
        case skip_zeros (nat len2) num2 0 of
          (len2, n2ptr) \<Rightarrow>
            if len2 = 0 then None
            else
              let zero = int len2 > len1 + scale;
                  qdigits = (if zero \<or> int len2 > len1 then scale + 1 else len1 - int len2 + scale + 1);
                  qval = qval\<lparr>n_len := qdigits - scale, n_scale := scale,
                              n_value := mem_set (n_value qval) 0 0 qdigits\<rparr>;
                  qval =
                    (if \<not> zero then
                       let norm = 10 div (num2 n2ptr + 1);
                           num1 = (if norm \<noteq> 1 then num_multiply_int num1 0 num1 0 (len1 + scale1 + extra + 1) norm else num1);
                           num2 = (if norm \<noteq> 1 then num_multiply_int num2 n2ptr num2 n2ptr (int len2) norm else num2);
                           qptr = (if int len2 > len1 then int len2 - len1 else 0)
                       in qval\<lparr>n_value := div_loop (nat (len1 + scale - int len2 + 1)) mval num2 n2ptr len2 num1 0
                                           (n_value qval) qptr\<rparr>
                     else qval);
                  qval = num_normalize (qval\<lparr>n_neg := xor (n_neg n1) (n_neg n2)\<rparr>)
              in Some (if num_is_zero qval then qval\<lparr>n_neg := 0\<rparr> else qval))"

definition num_divide ::
  "(int \<Rightarrow> int) \<Rightarrow> (int \<Rightarrow> int) \<Rightarrow> (int \<Rightarrow> int) \<Rightarrow> bool \<Rightarrow> numeric \<Rightarrow> numeric \<Rightarrow> numeric \<Rightarrow> numeric \<Rightarrow> int \<Rightarrow> (int \<times> numeric) option" where
  "num_divide stk1 stk2 mval alias block result n1 n2 scale =
     (if num_is_zero n2 then Some (- 1, result)
      else if alias then
        map_option (\<lambda>q. (0, num_assign result q)) (num_divide_digits stk1 stk2 mval (numeric_allocate block) n1 n2 scale)
      else map_option (\<lambda>q. (0, q)) (num_divide_digits stk1 stk2 mval (NUM_SET_0 result) n1 n2 scale))"

subsection \<open>Multiplication by one digit is correct\<close>

lemma mul_digit_loop_loop:
  "mul_digit_loop k num np result rp digit c = digit_loop k (\<lambda>i. num (i + (np - rp)) * digit) result rp c"
proof (induction k arbitrary: np result rp c)
  case (Suc k)
  have "(\<lambda>i. num (i + (np - 1 - (rp - 1))) * digit) = (\<lambda>i. num (i + (np - rp)) * digit)" by simp
  thus ?case using Suc.IH[of "np - 1" _ "rp - 1"] by (simp add: Let_def del: fun_upd_apply)
qed simp

lemma dval_mult: "dval (\<lambda>i. v (i + k) * c) a n = dval v (a + k) n * c"
  by (induction n) (simp_all add: algebra_simps)

lemma num_multiply_int_spec:
  assumes d: "digits num np n" and g: "0 \<le> digit" "digit \<le> 9" and r: "r = num_multiply_int result rp num np (int n) digit"
  shows "digits r rp n" "\<exists>c\<ge>0. dval r rp n + c * 10 ^ n = digit * dval num np n \<and> r (rp - 1) = (if c \<noteq> 0 then c else result (rp - 1))"
    "\<And>i. i < rp - 1 \<or> rp + int n \<le> i \<Longrightarrow> r i = result i"
proof -
  have "digits r rp n \<and> (\<exists>c\<ge>0. dval r rp n + c * 10 ^ n = digit * dval num np n \<and> r (rp - 1) = (if c \<noteq> 0 then c else result (rp - 1)))
    \<and> (\<forall>i. i < rp - 1 \<or> rp + int n \<le> i \<longrightarrow> r i = result i)"
  proof (cases "digit = 0 \<or> digit = 1")
    case True
    hence e: "r i = (if rp \<le> i \<and> i < rp + int n then digit * num (i + (np - rp)) else result i)" for i
      by (auto simp: r num_multiply_int_def mem_set_def mem_copy_def algebra_simps)
    have "dval r rp n = dval (\<lambda>i. num (i + (np - rp)) * digit) rp n" by (rule dval_same) (simp add: e)
    hence "dval r rp n = digit * dval num np n" unfolding dval_mult by simp
    moreover have "digits r rp n" using d True by (auto simp: digits_def e)
    ultimately show ?thesis by (auto simp: e intro!: exI[of _ 0])
  next
    case False
    let ?t = "\<lambda>i. num (i + (np - rp)) * digit" and ?p = "rp + int n - 1"
    obtain v c where l: "digit_loop n ?t result ?p 0 = (v, c)" by fastforce
    have st: "?p - int n + 1 = rp" by simp
    have dg: "digits v rp n" using digit_loop_digits[of n ?t result ?p 0] unfolding st l by simp
    have dv: "dval v rp n + c * 10 ^ n = digit * dval num np n"
      using digit_loop_val[of n ?t result ?p 0] unfolding st l dval_mult by simp
    have "0 \<le> digit * dval num np n" using g dval_bounds[OF d] by simp
    hence "- 1 * 10 ^ n < c * 10 ^ n" using dv dval_bounds[OF dg] by linarith
    hence c: "0 \<le> c" by (simp only: mult_less_cancel_right) simp
    have re: "r = (if c \<noteq> 0 then v(rp - 1 := c) else v)"
      using False l by (simp add: r num_multiply_int_def mul_digit_loop_loop)
    have s: "dval r rp n = dval v rp n" by (rule dval_same) (simp add: re)
    have f: "v i = result i" if "i < rp \<or> rp + int n \<le> i" for i
      using digit_loop_frame[of i ?p n ?t result 0] that unfolding l by auto
    have "digits r rp n" using dg by (auto simp: digits_def re)
    thus ?thesis using c dv s f by (auto simp: re)
  qed
  thus "digits r rp n" "\<exists>c\<ge>0. dval r rp n + c * 10 ^ n = digit * dval num np n \<and> r (rp - 1) = (if c \<noteq> 0 then c else result (rp - 1))"
    "\<And>i. i < rp - 1 \<or> rp + int n \<le> i \<Longrightarrow> r i = result i" by auto
qed

subsection \<open>The guessed quotient digit\<close>

lemma guess_low:
  fixes u V B :: int
  assumes B: "0 < B" and V: "V = (10 * v0 + v1) * B + vr" and u: "u = (100 * u0 + 10 * u1 + u2) * B + ur"
    and vr: "0 \<le> vr" "vr < B" and ur: "0 \<le> ur" "ur < B"
    and v: "5 \<le> v0" "0 \<le> v1" "v1 \<le> 9" and ud: "0 \<le> u1" "u1 \<le> 9" "0 \<le> u2" "u2 \<le> 9"
    and q: "q * V \<le> u" "0 \<le> q"
  shows "q * v0 \<le> 10 * u0 + u1"
proof -
  have "q * (10 * v0 * B) \<le> q * V" using q(2) v(2) vr B by (intro mult_left_mono) (auto simp: V algebra_simps)
  also have "\<dots> \<le> u" by (rule q)
  also have "u < (100 * u0 + 10 * u1 + 10) * B"
  proof -
    have "(u2 + 1) * B \<le> 10 * B" using ud B by (intro mult_right_mono) auto
    thus ?thesis using ur by (simp only: u algebra_simps)
  qed
  finally have "q * (10 * v0) * B < (100 * u0 + 10 * u1 + 10) * B" by (simp add: algebra_simps)
  hence "q * (10 * v0) < 100 * u0 + 10 * u1 + 10" using B by (simp only: mult_less_cancel_right)
  thus ?thesis by simp
qed

lemma guess_test:
  fixes u V B g :: int
  assumes B: "0 < B" and V: "V = (10 * v0 + v1) * B + vr" and u: "u = U * B + ur"
    and vr: "0 \<le> vr" "vr < B" and ur: "0 \<le> ur" "ur < B" and v: "5 \<le> v0" "0 \<le> v1" and g: "0 \<le> g" "g \<le> 9"
  shows "g * (10 * v0 + v1) > U \<Longrightarrow> u < g * V" "g * (10 * v0 + v1) \<le> U \<Longrightarrow> (g - 1) * V < u"
proof -
  assume "g * (10 * v0 + v1) > U"
  hence "(U + 1) * B \<le> g * (10 * v0 + v1) * B" using B by (intro mult_right_mono) auto
  also have "\<dots> \<le> g * V" using g(1) vr(1) by (simp add: V algebra_simps)
  finally show "u < g * V" using ur by (simp add: u algebra_simps)
next
  assume a: "g * (10 * v0 + v1) \<le> U"
  have "g * V = g * (10 * v0 + v1) * B + g * vr" by (simp add: V algebra_simps)
  also have "\<dots> \<le> U * B + 9 * B" using a g vr B by (intro add_mono mult_right_mono mult_mono) auto
  also have "\<dots> < u + V"
  proof -
    have "9 * B < (10 * v0 + v1) * B" using v B by (intro mult_strict_right_mono) auto
    thus ?thesis using ur vr unfolding u V by linarith
  qed
  finally show "(g - 1) * V < u" by (simp add: algebra_simps)
qed

lemma divisor_upper:
  fixes B :: int
  assumes "0 < B" "V = (10 * v0 + v1) * B + vr" "vr < B" "v1 \<le> 9"
  shows "V \<le> (10 * v0 + 10) * B"
proof -
  have "(v1 + 1) * B \<le> 10 * B" using assms by (intro mult_right_mono) auto
  thus ?thesis using assms(3) by (simp only: assms(2) algebra_simps)
qed

lemma guess_high:
  fixes u V B g :: int
  assumes B: "0 < B" and V: "V = (10 * v0 + v1) * B + vr" and u: "u = (100 * u0 + 10 * u1 + u2) * B + ur"
    and vr: "0 \<le> vr" "vr < B" and ur: "0 \<le> ur"
    and v: "5 \<le> v0" "0 \<le> v1" "v1 \<le> 9" and u2: "0 \<le> u2" "0 \<le> u" and g: "g \<le> 9" "g * v0 \<le> 10 * u0 + u1"
  shows "(g - 2) * V \<le> u"
proof (cases "g \<le> 2")
  case True
  hence "(g - 2) * V \<le> 0 * V" using B v vr by (intro mult_right_mono) (auto simp: V)
  thus ?thesis using u2(2) by simp
next
  case False
  have "V \<le> (10 * v0 + 10) * B" by (rule divisor_upper[OF B V vr(2) v(3)])
  hence "(g - 2) * V \<le> (g - 2) * ((10 * v0 + 10) * B)" using False by (intro mult_left_mono) auto
  also have "\<dots> = ((g - 2) * (10 * v0 + 10)) * B" by simp
  also have "\<dots> \<le> (10 * (g * v0)) * B"
  proof (rule mult_right_mono)
    have "(g - 2) * (10 * v0 + 10) = 10 * (g * v0) + 10 * g - 20 * v0 - 20" by (simp add: algebra_simps)
    thus "(g - 2) * (10 * v0 + 10) \<le> 10 * (g * v0)" using g(1) v(1) by linarith
  qed (use B in simp)
  also have "\<dots> \<le> (100 * u0 + 10 * u1) * B" using g(2) B by (intro mult_right_mono) auto
  also have "\<dots> \<le> u" using u2 ur B by (simp add: u algebra_simps)
  finally show ?thesis .
qed

lemma div_unique: "q * V \<le> u \<Longrightarrow> u < (q + 1) * V \<Longrightarrow> 0 < V \<Longrightarrow> u div V = (q :: int)"
  by (rule int_div_pos_eq[of u V q "u - V * q"]) (simp_all add: algebra_simps)

text \<open>
  The guess is the quotient digit or one more: \<open>u\<close> is the part of the dividend under the divisor \<open>V\<close>,
  with its first three digits and the first two of the divisor (a zero is added to a divisor of one
  digit) in front of digits that stand for less than \<open>B\<close>.
\<close>

lemma div_guess_near:
  fixes u V B :: int
  assumes B: "0 < B" and V: "V = (10 * num2 p + num2 (p + 1)) * B + vr"
    and u: "u = (100 * num1 k + 10 * num1 (k + 1) + num1 (k + 2)) * B + ur"
    and vr: "0 \<le> vr" "vr < B" and ur: "0 \<le> ur" "ur < B"
    and v: "5 \<le> num2 p" "num2 p \<le> 9" "0 \<le> num2 (p + 1)" "num2 (p + 1) \<le> 9" and ud: "digits num1 k 3" and lt: "u < 10 * V"
  shows "u div V \<le> div_guess num2 p num1 k" "div_guess num2 p num1 k \<le> u div V + 1" "div_guess num2 p num1 k \<le> 9"
proof -
  define v0 v1 u0 u1 u2 where d: "v0 = num2 p" "v1 = num2 (p + 1)" "u0 = num1 k" "u1 = num1 (k + 1)" "u2 = num1 (k + 2)"
  have du: "0 \<le> u0" "u0 \<le> 9" "0 \<le> u1" "u1 \<le> 9" "0 \<le> u2" "u2 \<le> 9"
    using digitsD[OF ud, of k] digitsD[OF ud, of "k + 1"] digitsD[OF ud, of "k + 2"] by (auto simp: d)
  note V = V[folded d] and u = u[folded d] and v = v[folded d]
  have Vp: "0 < V" unfolding V using v vr B by (intro add_pos_nonneg mult_pos_pos) auto
  have up: "0 \<le> u" unfolding u using du ur B by simp
  define q where "q = u div V"
  have q: "0 \<le> q" "q * V \<le> u" "u < (q + 1) * V" "q \<le> 9"
  proof -
    show "0 \<le> q" using up Vp by (simp add: q_def pos_imp_zdiv_nonneg_iff)
    show "q * V \<le> u" "u < (q + 1) * V"
      using div_mult_mod_eq[of u V] pos_mod_bound[OF Vp, of u] pos_mod_sign[OF Vp, of u] unfolding q_def distrib_right by linarith+
    show "q \<le> 9" using zdiv_mono1[of u "10 * V - 1" V] lt Vp by (simp add: q_def div_unique[of 9 V "10 * V - 1"])
  qed
  have lo: "q * v0 \<le> 10 * u0 + u1" by (rule guess_low[OF B V u vr ur v(1,3,4) du(3-6) q(2,1)])
  let ?g0 = "if v0 = u0 then 9 else (u0 * 10 + u1) div v0"
  have g0: "q \<le> ?g0" "?g0 \<le> 9" "?g0 * v0 \<le> 10 * u0 + u1"
  proof -
    have "100 * u0 * B \<le> u" using du ur B by (simp add: u algebra_simps)
    also have "u < 10 * V" by (rule lt)
    also have "10 * V \<le> 10 * ((10 * v0 + 10) * B)" using divisor_upper[OF B V vr(2) v(4)] by simp
    finally have "(100 * u0) * B < (10 * (10 * v0 + 10)) * B" by (simp add: algebra_simps)
    hence "u0 \<le> v0" using B by (simp only: mult_less_cancel_right) auto
    hence l: "u0 < v0" if "v0 \<noteq> u0" using that by simp
    have "(u0 * 10 + u1) div v0 \<le> 9" if "v0 \<noteq> u0"
      using zdiv_mono1[of "u0 * 10 + u1" "10 * v0 - 1" v0] l[OF that] du v div_unique[of 9 v0 "10 * v0 - 1"] by simp
    thus "?g0 \<le> 9" by simp
    have "q \<le> (u0 * 10 + u1) div v0" using zdiv_mono1[OF lo, of v0] v by (simp add: mult.commute)
    thus "q \<le> ?g0" using q(4) by simp
    have "(u0 * 10 + u1) div v0 * v0 \<le> u0 * 10 + u1" using v by (simp add: minus_mod_eq_div_mult [symmetric])
    thus "?g0 * v0 \<le> 10 * u0 + u1" using du by simp
  qed
  define U where "U = 100 * u0 + 10 * u1 + u2"
  have tst: "div_test num2 p num1 k g \<longleftrightarrow> U < g * (10 * v0 + v1)" for g
    unfolding div_test_def d[symmetric] U_def by (simp add: algebra_simps)
  note gt = guess_test[OF B V u[folded U_def] vr ur v(1,3)]
  have down: "q \<le> g - 1" if "0 \<le> g" "g \<le> 9" "div_test num2 p num1 k g" for g
  proof -
    have "q * V < g * V" using gt(1)[OF that(1,2)] that(3) q(2) by (simp add: tst)
    thus ?thesis using Vp by (simp add: mult_less_cancel_right)
  qed
  have stop: "g \<le> q + 1" if "0 \<le> g" "g \<le> 9" "\<not> div_test num2 p num1 k g" for g
  proof -
    have "(g - 1) * V < (q + 1) * V" using gt(2)[OF that(1,2)] that(3) q(3) by (simp add: tst)
    thus ?thesis using Vp by (simp add: mult_less_cancel_right)
  qed
  have hi: "?g0 - 2 \<le> q"
  proof -
    have "(?g0 - 2) * V < (q + 1) * V"
      using guess_high[OF B V u vr ur(1) v(1,3,4) du(5) up g0(2,3)] q(3) by linarith
    thus ?thesis using Vp by (simp add: mult_less_cancel_right)
  qed
  have "q \<le> div_guess num2 p num1 k \<and> div_guess num2 p num1 k \<le> q + 1 \<and> div_guess num2 p num1 k \<le> 9"
    unfolding div_guess_def Let_def d[symmetric]
    using g0 hi q(1) down[of ?g0] stop[of ?g0] down[of "?g0 - 1"] stop[of "?g0 - 1"] by (smt (verit))
  thus "u div V \<le> div_guess num2 p num1 k" "div_guess num2 p num1 k \<le> u div V + 1" "div_guess num2 p num1 k \<le> 9"
    by (auto simp: q_def)
qed

subsection \<open>One step of the division\<close>

lemma digits_Cons: "digits v a (Suc n) \<longleftrightarrow> 0 \<le> v a \<and> v a \<le> 9 \<and> digits v (a + 1) n"
proof -
  have "{a..<a + int (Suc n)} = insert a {a + 1..<a + 1 + int n}" by auto
  thus ?thesis unfolding digits_def by auto
qed

lemma div_guess_digit:
  assumes n2: "digits num2 p len2" "0 < len2" "5 \<le> num2 p" "len2 = 1 \<Longrightarrow> num2 (p + 1) = 0"
    and n1: "digits num1 k (len2 + 1)" "digits num1 k 3"
    and lt: "dval num1 k (len2 + 1) < 10 * dval num2 p len2"
  shows "dval num1 k (len2 + 1) div dval num2 p len2 \<le> div_guess num2 p num1 k"
    "div_guess num2 p num1 k \<le> dval num1 k (len2 + 1) div dval num2 p len2 + 1" "div_guess num2 p num1 k \<le> 9"
proof -
  let ?u = "dval num1 k (len2 + 1)" and ?V = "dval num2 p len2" and ?g = "div_guess num2 p num1 k"
  have p9: "num2 p \<le> 9" using digitsD[OF n2(1), of p] n2(2) by simp
  have "?u div ?V \<le> ?g \<and> ?g \<le> ?u div ?V + 1 \<and> ?g \<le> 9"
  proof (cases "len2 = 1")
    case True
    have uv: "?u = 10 * num1 k + num1 (k + 1)" "?V = num2 p" using True by simp_all
    have k2: "0 \<le> num1 (k + 2)" "num1 (k + 2) \<le> 9" using digitsD[OF n1(2), of "k + 2"] by auto
    have eq: "(100 * num1 k + 10 * num1 (k + 1) + num1 (k + 2)) div (10 * num2 p) = ?u div ?V"
    proof -
      have "(100 * num1 k + 10 * num1 (k + 1) + num1 (k + 2)) div 10 = ?u" unfolding uv using k2 by simp
      thus ?thesis using n2(3) by (subst zdiv_zmult2_eq) (simp_all only: uv(2))
    qed
    show ?thesis
      using div_guess_near[of 1 "10 * num2 p" num2 p 0 "100 * num1 k + 10 * num1 (k + 1) + num1 (k + 2)" num1 k 0]
        n2(3,4) n1(2) p9 lt True k2 unfolding eq uv by simp
  next
    case False
    then obtain m where m: "len2 = Suc (Suc m)" using n2(2) by (metis One_nat_def gr0_implies_Suc not0_implies_Suc)
    have V: "?V = (10 * num2 p + num2 (p + 1)) * 10 ^ m + dval num2 (p + 2) m"
      by (simp only: m dval_Cons) (simp add: algebra_simps)
    have u: "?u = (100 * num1 k + 10 * num1 (k + 1) + num1 (k + 2)) * 10 ^ m + dval num1 (k + 3) m"
      by (simp only: m dval_Cons add_Suc_right add_0_right One_nat_def) (simp add: algebra_simps)
    have b: "0 \<le> dval num2 (p + 2) m" "dval num2 (p + 2) m < 10 ^ m"
      using dval_bounds[OF digits_sub[OF n2(1), of "p + 2" m]] m by auto
    have c: "0 \<le> dval num1 (k + 3) m" "dval num1 (k + 3) m < 10 ^ m"
      using dval_bounds[OF digits_sub[OF n1(1), of "k + 3" m]] m by auto
    have v1: "0 \<le> num2 (p + 1)" "num2 (p + 1) \<le> 9" using digitsD[OF n2(1), of "p + 1"] m by auto
    show ?thesis using div_guess_near[OF _ V u b c n2(3) p9 v1 n1(2) lt] by simp
  qed
  thus "?u div ?V \<le> ?g" "?g \<le> ?u div ?V + 1" "?g \<le> 9" by auto
qed

lemma div_mval:
  assumes n2: "digits num2 p len2" and g: "0 \<le> g" "g \<le> 9"
    and m: "m = num_multiply_int (mval(0 := 0)) 1 num2 p (int len2) g"
  shows "digits m 0 (len2 + 1)" "dval m 0 (len2 + 1) = g * dval num2 p len2"
proof -
  note s = num_multiply_int_spec[OF n2 g m]
  obtain c where c: "c \<ge> 0" "dval m 1 len2 + c * 10 ^ len2 = g * dval num2 p len2" "m 0 = c" using s(2) by auto
  have "g * dval num2 p len2 < 10 * 10 ^ len2"
    using g dval_bounds[OF n2] mult_mono[of g 9 "dval num2 p len2" "10 ^ len2"] by (smt (verit) zero_le_power)
  hence "c * 10 ^ len2 < 10 * 10 ^ len2" using c(2) dval_bounds[OF s(1)] by linarith
  hence "c \<le> 9" by simp
  thus "digits m 0 (len2 + 1)" using c s(1) by (simp add: digits_Cons)
  show "dval m 0 (len2 + 1) = g * dval num2 p len2" using c dval_Cons[of m 0 len2] by simp
qed

lemma div_subtract:
  assumes n1: "digits num1 k n" and m: "digits m 0 n" and n: "0 < n" and g: "dval m 0 n \<le> dval num1 k n + 10 ^ n"
    and r: "sub_loop n num1 (k + int n - 1) m (int n - 1) num1 (k + int n - 1) 0 = (d, b)"
  shows "digits d k n" "b = (if dval num1 k n < dval m 0 n then 1 else 0)"
    "dval d k n = dval num1 k n - dval m 0 n + b * 10 ^ n" "\<And>i. i < k \<or> k + int n \<le> i \<Longrightarrow> d i = num1 i"
proof -
  let ?t = "\<lambda>i. num1 i - m (i + (0 - k))" and ?p = "k + int n - 1"
  have "?t i = num1 (i + (?p - ?p)) - m (i + (int n - 1 - ?p)) \<and> - 9 \<le> ?t i \<and> ?t i \<le> 9" if "?p - int n < i" "i \<le> ?p" for i
    using that digitsD[OF n1, of i] digitsD[OF m, of "i - k"] by (simp add: algebra_simps)
  note l = sub_loop_loop[of ?p n ?t num1 ?p m "int n - 1" 0 num1, OF this]
  have b: "d = fst (digit_loop n ?t num1 ?p 0)" "b = - snd (digit_loop n ?t num1 ?p 0)" "b = 0 \<or> b = 1"
    using l r by auto
  have st: "?p - int n + 1 = k" by simp
  show dd: "digits d k n" using digit_loop_digits[of n ?t num1 ?p 0] unfolding st b(1) .
  have "dval ?t k n = dval num1 k n - dval m 0 n"
    unfolding dval_diff using dval_cong[of k n "\<lambda>i. m (i + (0 - k))" m "- k"] by simp
  thus v: "dval d k n = dval num1 k n - dval m 0 n + b * 10 ^ n"
    using digit_loop_val[of n ?t num1 ?p 0] unfolding st b(1,2) by simp
  show "b = (if dval num1 k n < dval m 0 n then 1 else 0)" using b(3) v dval_bounds[OF dd] by auto
  show "d i = num1 i" if "i < k \<or> k + int n \<le> i" for i
    using digit_loop_frame[of i ?p n ?t num1 0] that unfolding b(1) by auto
qed

lemma div_add_back:
  assumes d: "digits d k (Suc n)" and n2: "digits num2 p n"
    and v: "dval d k (Suc n) + dval num2 p n = r + 10 ^ Suc n" "0 \<le> r" "r < 10 ^ n"
    and a: "add_loop n d (k + int n) num2 (p + int n - 1) d (k + int n) 0 = (e, c)"
    and f: "f = (if c = 1 then e(k := (e k + 1) mod 10) else e)"
  shows "digits f k (Suc n)" "dval f k (Suc n) = r" "\<And>i. i < k \<or> k + int n < i \<Longrightarrow> f i = d i"
proof -
  let ?t = "\<lambda>i. d i + num2 (i + (p - 1 - k))" and ?p = "k + int n"
  have "?t i = d (i + (?p - ?p)) + num2 (i + (p + int n - 1 - ?p)) \<and> 0 \<le> ?t i \<and> ?t i \<le> 18" if "?p - int n < i" "i \<le> ?p" for i
    using that digitsD[OF d, of i] digitsD[OF n2, of "i + (p - 1 - k)"] by (simp add: algebra_simps)
  note l = add_loop_loop[of ?p n ?t d ?p num2 "p + int n - 1" 0 d, OF this]
  have e: "e = fst (digit_loop n ?t d ?p 0)" "c = snd (digit_loop n ?t d ?p 0)" "c = 0 \<or> c = 1"
  proof -
    have "digit_loop n ?t d ?p 0 = (e, c)" using l a by simp
    thus "e = fst (digit_loop n ?t d ?p 0)" "c = snd (digit_loop n ?t d ?p 0)" "c = 0 \<or> c = 1" using l by auto
  qed
  have st: "?p - int n + 1 = k + 1" by simp
  have de: "digits e (k + 1) n" using digit_loop_digits[of n ?t d ?p 0] unfolding st e(1) .
  have fr: "e i = d i" if "i \<le> k \<or> k + int n < i" for i
    using digit_loop_frame[of i ?p n ?t d 0] that unfolding e(1) by auto
  have "dval ?t (k + 1) n = dval d (k + 1) n + dval num2 p n"
    unfolding dval_add using dval_cong[of "k + 1" n "\<lambda>i. num2 (i + (p - 1 - k))" num2 "p - 1 - k"] by simp
  hence "dval e (k + 1) n + c * 10 ^ n = dval d (k + 1) n + dval num2 p n"
    using digit_loop_val[of n ?t d ?p 0] unfolding st e(1,2) by simp
  hence sum: "(d k + c) * 10 ^ n + dval e (k + 1) n = r + 10 * 10 ^ n"
    using v(1) unfolding dval_Cons by (simp add: algebra_simps)
  have b: "0 \<le> dval e (k + 1) n" "dval e (k + 1) n < 10 ^ n" using dval_bounds[OF de] by auto
  have "(d k + c) * 10 ^ n < 11 * 10 ^ n" "9 * 10 ^ n < (d k + c) * 10 ^ n" using sum b v(2,3) by linarith+
  hence "d k + c = 10" by simp
  hence c: "c = 1" "d k = 9" using e(3) digitsD[OF d, of k] by auto
  have fk: "f = e(k := 0)" using c fr[of k] by (simp add: f)
  have s: "dval f (k + 1) n = dval e (k + 1) n" by (rule dval_same) (simp add: fk)
  have "dval e (k + 1) n = r" using sum c by simp
  thus "dval f k (Suc n) = r" unfolding dval_Cons s by (simp add: fk)
  show "digits f k (Suc n)" using de by (auto simp: digits_Cons digits_def fk)
  show "f i = d i" if "i < k \<or> k + int n < i" for i using fr[of i] that by (auto simp: fk)
qed

lemma div_step_correct:
  assumes n2: "digits num2 p len2" "0 < len2" "5 \<le> num2 p" "len2 = 1 \<Longrightarrow> num2 (p + 1) = 0"
    and n1: "digits num1 k (len2 + 1)" "digits num1 k 3" and lt: "dval num1 k len2 < dval num2 p len2"
  defines "u \<equiv> dval num1 k (len2 + 1)" and "V \<equiv> dval num2 p len2"
  shows "\<exists>num1'. div_step mval num2 p len2 num1 k = (u div V, num1') \<and> digits num1' k (len2 + 1)
    \<and> dval num1' k (len2 + 1) = u mod V \<and> (\<forall>i. i < k \<or> k + int len2 < i \<longrightarrow> num1' i = num1 i)
    \<and> 0 \<le> u div V \<and> u div V \<le> 9"
proof -
  have "0 \<le> num1 (k + int len2)" "num1 (k + int len2) \<le> 9" using digitsD[OF n1(1), of "k + int len2"] by auto
  hence u10: "u < 10 * V" using lt by (simp add: u_def V_def)
  let ?g = "div_guess num2 p num1 k"
  note g = div_guess_digit[OF n2 n1 u10[unfolded u_def V_def], folded u_def V_def]
  have u0: "0 \<le> u" using dval_bounds[OF n1(1)] by (simp add: u_def)
  have V0: "0 < V" "V < 10 ^ len2" using dval_bounds[OF n2(1)] lt dval_bounds[OF digits_sub[OF n1(1), of k len2]] by (auto simp: V_def)
  have q: "0 \<le> u div V" using u0 V0 by (simp add: pos_imp_zdiv_nonneg_iff)
  have um: "0 \<le> u mod V" "u mod V < V" "u = (u div V) * V + u mod V" using V0 by simp_all
  show ?thesis
  proof (cases "?g = 0")
    case True
    hence "u div V = 0" using g(1) q by simp
    hence "u mod V = u" using um(3) by simp
    moreover have "div_step mval num2 p len2 num1 k = (0, num1)" using True by (simp add: div_step_def Let_def)
    ultimately show ?thesis using n1(1) \<open>u div V = 0\<close> by (auto simp: u_def)
  next
    case False
    define m where "m = num_multiply_int (mval(0 := 0)) 1 num2 p (int len2) ?g"
    have "0 \<le> ?g" using g(1) q by linarith
    note m = div_mval[OF n2(1) this g(3) m_def, folded V_def]
    obtain d b where sb: "sub_loop (len2 + 1) num1 (k + int len2) m (int len2) num1 (k + int len2) 0 = (d, b)" by fastforce
    have ds: "div_step mval num2 p len2 num1 k =
        (if b = 1 then
           (case add_loop len2 d (k + int len2) num2 (p + int len2 - 1) d (k + int len2) 0 of
              (e, c) \<Rightarrow> (?g - 1, if c = 1 then e(k := (e k + 1) mod 10) else e))
         else (?g, d))"
      unfolding div_step_def Let_def m_def[symmetric] using False by (simp only: sb if_True prod.case simp_thms)
    have "?g * V \<le> (u div V + 1) * V" using g(2) V0 by (intro mult_right_mono) auto
    hence gV: "?g * V \<le> u + V" using um unfolding distrib_right mult_1_left by linarith
    have d: "digits d k (len2 + 1)" "b = (if u < ?g * V then 1 else 0)" "dval d k (len2 + 1) = u - ?g * V + b * 10 ^ (len2 + 1)"
        "\<And>i. i < k \<or> k + int (len2 + 1) \<le> i \<Longrightarrow> d i = num1 i"
      using div_subtract[of num1 k "len2 + 1" m d b] n1(1) m sb gV V0 by (auto simp: u_def)
    show ?thesis
    proof (cases "u < ?g * V")
      case True
      have gq: "?g = u div V + 1"
      proof (rule ccontr)
        assume "?g \<noteq> u div V + 1"
        hence "?g = u div V" using g by simp
        thus False using True um by simp
      qed
      obtain e c where ab: "add_loop len2 d (k + int len2) num2 (p + int len2 - 1) d (k + int len2) 0 = (e, c)" by fastforce
      define f where "f = (if c = 1 then e(k := (e k + 1) mod 10) else e)"
      have rv: "dval d k (Suc len2) + dval num2 p len2 = u mod V + 10 ^ Suc len2"
        using d(3) True gq um(3) by (simp add: d(2) distrib_right minus_div_mult_eq_mod flip: V_def)
      have "u mod V < 10 ^ len2" using um V0 by linarith
      note f = div_add_back[OF d(1)[simplified] n2(1) rv um(1) this ab f_def]
      have "div_step mval num2 p len2 num1 k = (u div V, f)"
        using ab True d(2) gq by (simp add: ds f_def)
      thus ?thesis using f d(4) q g(3) gq by auto
    next
      case nl: False
      have gq: "?g = u div V"
      proof (rule ccontr)
        assume "?g \<noteq> u div V"
        hence "?g = u div V + 1" using g by simp
        thus False using nl um by (simp add: distrib_right)
      qed
      have "div_step mval num2 p len2 num1 k = (u div V, d)"
        using nl d(2) gq by (simp add: ds)
      moreover have "dval d k (len2 + 1) = u mod V" using d(3) nl gq by (simp add: d(2) minus_div_mult_eq_mod)
      ultimately show ?thesis using d(1,4) q g(3) gq by auto
    qed
  qed
qed

subsection \<open>The whole division\<close>

lemma div_loop_correct:
  assumes n2: "digits num2 p len2" "0 < len2" "5 \<le> num2 p" "len2 = 1 \<Longrightarrow> num2 (p + 1) = 0"
    and n1: "digits num1 k (n + len2 + 1)" and lt: "dval num1 k len2 < dval num2 p len2"
    and q': "q' = div_loop n mval num2 p len2 num1 k q qp"
  shows "digits q' qp n \<and> dval q' qp n = dval num1 k (len2 + n) div dval num2 p len2
    \<and> (\<forall>i. i < qp \<or> qp + int n \<le> i \<longrightarrow> q' i = q i)"
  using n1 lt q'
proof (induction n arbitrary: num1 k q qp q')
  case 0
  thus ?case using dval_bounds[OF digits_sub[OF 0(1), of k len2]] by (simp add: digits_def)
next
  case (Suc n)
  define V u where "V = dval num2 p len2" and "u = dval num1 k (len2 + 1)"
  have d3: "digits num1 k (len2 + 1)" "digits num1 k 3" using Suc.prems(1) n2(2) by (auto elim: digits_sub)
  obtain w where w: "div_step mval num2 p len2 num1 k = (u div V, w)" "digits w k (len2 + 1)" "dval w k (len2 + 1) = u mod V"
      "\<And>i. i < k \<or> k + int len2 < i \<Longrightarrow> w i = num1 i" "0 \<le> u div V" "u div V \<le> 9"
    using div_step_correct[OF n2 d3 Suc.prems(2), of mval] unfolding u_def V_def by auto
  have V: "0 < V" "V < 10 ^ len2"
    using dval_bounds[OF n2(1)] Suc.prems(2) dval_bounds[OF digits_sub[OF Suc.prems(1), of k len2]] by (auto simp: V_def)
  have r: "u mod V < V" "0 \<le> u mod V" using V by simp_all
  have wd: "digits w (k + 1) len2" "0 \<le> w k" using w(2) by (simp_all add: digits_Cons)
  have split: "w k * 10 ^ len2 + dval w (k + 1) len2 = u mod V" using w(3) dval_Cons[of w k len2] by simp
  have wk: "w k = 0"
  proof (rule ccontr)
    assume "w k \<noteq> 0"
    hence "1 * 10 ^ len2 \<le> w k * 10 ^ len2" using wd by (intro mult_right_mono) auto
    thus False using split r V dval_bounds[OF wd(1)] by linarith
  qed
  hence win: "dval w (k + 1) len2 = u mod V" using split by simp
  have rest: "digits w (k + 1 + int len2) (n + 1)"
    by (rule digits_cong[where w = num1 and k = 0]) (use w(4) digits_sub[OF Suc.prems(1), of "k + 1 + int len2" "n + 1"] in auto)
  have wall: "digits w (k + 1) (n + len2 + 1)"
    using digits_append[OF wd(1) rest] by (simp add: add.commute add.left_commute)
  have q'': "q' = div_loop n mval num2 p len2 w (k + 1) (q(qp := u div V)) (qp + 1)" using Suc.prems(3) w(1) by simp
  have IH: "digits q' (qp + 1) n" "dval q' (qp + 1) n = dval w (k + 1) (len2 + n) div V"
      "\<And>i. i < qp + 1 \<or> qp + 1 + int n \<le> i \<Longrightarrow> q' i = (q(qp := u div V)) i"
    using Suc.IH[OF wall _ q''] win r by (auto simp: V_def)
  have qq: "q' qp = u div V" using IH(3)[of qp] by simp
  let ?L = "dval num1 (k + 1 + int len2) n"
  have L: "dval w (k + 1 + int len2) n = ?L" by (rule dval_same) (use w(4) in auto)
  have "dval num1 k (len2 + Suc n) = u * 10 ^ n + ?L"
    using dval_append[of num1 k "len2 + 1" n] by (simp add: u_def add.assoc)
  also have "u = u div V * V + u mod V" by simp
  also have "(u div V * V + u mod V) * 10 ^ n + ?L = (u mod V * 10 ^ n + ?L) + (u div V * 10 ^ n) * V" by (simp only: algebra_simps)
  finally have "dval num1 k (len2 + Suc n) div V = (u mod V * 10 ^ n + ?L) div V + u div V * 10 ^ n" using V by simp
  moreover have "dval w (k + 1) (len2 + n) = u mod V * 10 ^ n + ?L" unfolding dval_append win L by simp
  ultimately have "dval q' qp (Suc n) = dval num1 k (len2 + Suc n) div V" unfolding dval_Cons qq IH(2) by simp
  moreover have "digits q' qp (Suc n)" using IH(1) qq w(5,6) by (simp add: digits_Cons)
  moreover have "\<forall>i. i < qp \<or> qp + int (Suc n) \<le> i \<longrightarrow> q' i = q i" using IH(3) by auto
  ultimately show ?case by (simp add: V_def)
qed

lemma strip_zeros_spec:
  "strip_zeros k v p \<le> k \<and> (\<forall>i\<in>{p - int (k - strip_zeros k v p) + 1..p}. v i = 0)"
proof (induction k v p rule: strip_zeros.induct)
  case (2 k v p)
  show ?case
  proof (cases "v p = 0")
    case True
    let ?s = "strip_zeros k v (p - 1)"
    have IH: "?s \<le> k" "\<forall>i\<in>{p - 1 - int (k - ?s) + 1..p - 1}. v i = 0" using 2[OF True] by auto
    have "{p - int (Suc k - ?s) + 1..p} \<subseteq> insert p {p - 1 - int (k - ?s) + 1..p - 1}" using IH(1) by (auto simp: Suc_diff_le)
    thus ?thesis using IH True by auto
  qed simp
qed simp

lemma div_norm_values:
  "1 \<le> v \<Longrightarrow> v \<le> 9 \<Longrightarrow> nf = 10 div (v + 1) \<Longrightarrow> 1 \<le> nf \<and> nf \<le> 5 \<and> 5 \<le> nf * v \<and> nf * (v + 1) \<le> (10 :: int)"
proof -
  assume v: "1 \<le> v" "v \<le> 9" and n: "nf = 10 div (v + 1)"
  have "v = 1 \<or> v = 2 \<or> v = 3 \<or> v = 4 \<or> v = 5 \<or> v = 6 \<or> v = 7 \<or> v = 8 \<or> v = 9" using v by presburger
  thus ?thesis unfolding n by (elim disjE) simp_all
qed

lemma num_multiply_int_no_carry:
  assumes d: "digits num p n" and g: "0 \<le> g" "g \<le> 9" and small: "g * dval num p n < 10 ^ n"
    and r: "r = (if g \<noteq> 1 then num_multiply_int num p num p (int n) g else num)"
  shows "digits r p n" "dval r p n = g * dval num p n" "\<And>i. i < p \<or> p + int n \<le> i \<Longrightarrow> r i = num i"
proof -
  have rr: "r = num_multiply_int num p num p (int n) g"
    by (auto simp: r num_multiply_int_def mem_copy_def)
  note s = num_multiply_int_spec[OF d g rr]
  obtain c where c: "c \<ge> 0" "dval r p n + c * 10 ^ n = g * dval num p n" "r (p - 1) = (if c \<noteq> 0 then c else num (p - 1))" using s(2) by auto
  have "c * 10 ^ n < 1 * 10 ^ n" using c small dval_bounds[OF s(1)] by linarith
  hence c0: "c = 0" using c(1) by simp
  show "digits r p n" by (rule s)
  show "dval r p n = g * dval num p n" using c c0 by simp
  show "r i = num i" if "i < p \<or> p + int n \<le> i" for i
    using s(3)[of i] c(3) c0 that by (cases "i = p - 1") auto
qed

lemma normalise_divisor:
  assumes d: "digits num2 p n" "0 < n" "num2 p \<noteq> 0" and nf: "nf = 10 div (num2 p + 1)"
    and r: "r = (if nf \<noteq> 1 then num_multiply_int num2 p num2 p (int n) nf else num2)"
  shows "digits r p n" "dval r p n = nf * dval num2 p n" "r (p + int n) = num2 (p + int n)" "5 \<le> r p"
    "10 ^ (n - 1) \<le> dval num2 p n"
proof -
  have v: "1 \<le> num2 p" "num2 p \<le> 9" using digitsD[OF d(1), of p] d by auto
  note nv = div_norm_values[OF v nf]
  obtain m where n: "n = Suc m" using d(2) gr0_implies_Suc by blast
  have b: "0 \<le> dval num2 (p + 1) m" "dval num2 (p + 1) m < 10 ^ m"
    using dval_bounds[OF digits_sub[OF d(1), of "p + 1" m]] n by auto
  have "nf * dval num2 p n < nf * ((num2 p + 1) * 10 ^ m)"
    using nv b by (intro mult_strict_left_mono) (auto simp: n dval_Cons distrib_right simp del: dval.simps)
  also have "\<dots> = (nf * (num2 p + 1)) * 10 ^ m" by simp
  also have "\<dots> \<le> 10 * 10 ^ m" using nv by (intro mult_right_mono) auto
  finally have small: "nf * dval num2 p n < 10 ^ n" by (simp add: n)
  note s = num_multiply_int_no_carry[OF d(1) _ _ small r]
  show sd: "digits r p n" "dval r p n = nf * dval num2 p n" "r (p + int n) = num2 (p + int n)" using s nv by auto
  have "1 * 10 ^ m \<le> num2 p * 10 ^ m" using v by (intro mult_right_mono) auto
  thus "10 ^ (n - 1) \<le> dval num2 p n" using b unfolding n dval_Cons diff_Suc_1 by linarith
  have "5 * 10 ^ m \<le> (nf * num2 p) * 10 ^ m" using nv by (intro mult_right_mono) auto
  also have "\<dots> \<le> nf * dval num2 p n" using nv b by (simp add: n dval_Cons distrib_left del: dval.simps)
  also have "\<dots> = r p * 10 ^ m + dval r (p + 1) m" using sd(2) by (simp add: n dval_Cons del: dval.simps)
  also have "\<dots> < (r p + 1) * 10 ^ m"
    using dval_bounds[OF digits_sub[OF sd(1), of "p + 1" m]] n by (simp add: distrib_right)
  finally show "5 \<le> r p" by simp
qed

text \<open>
  The quotient of the scaled operands: \<open>num1\<close> holds \<open>M\<close> digits with a zero in front, of which the first
  \<open>len2 + k\<close> take part in the division.
\<close>

lemma div_normalised:
  assumes d2: "digits num2 p len2" "0 < len2" "num2 p \<noteq> 0" "num2 (p + int len2) = 0"
    and d1: "digits num1 0 M" "num1 0 = 0" "num1 (int M) = 0" and k: "0 < k" "len2 + k \<le> M"
    and nf: "nf = 10 div (num2 p + 1)"
    and r2: "r2 = (if nf \<noteq> 1 then num_multiply_int num2 p num2 p (int len2) nf else num2)"
    and r1: "r1 = (if nf \<noteq> 1 then num_multiply_int num1 0 num1 0 (int M) nf else num1)"
    and q': "q' = div_loop k mval r2 p len2 r1 0 q qp"
  shows "digits q' qp k \<and> dval q' qp k = dval num1 0 M div (10 ^ (M - (len2 + k)) * dval num2 p len2)
    \<and> (\<forall>i. i < qp \<or> qp + int k \<le> i \<longrightarrow> q' i = q i)"
proof -
  let ?X = "dval num1 0 M" and ?V = "dval num2 p len2"
  note s2 = normalise_divisor[OF d2(1-3) nf r2]
  have "1 \<le> num2 p" "num2 p \<le> 9" using digitsD[OF d2(1), of p] d2 by auto
  note nv = div_norm_values[OF this nf]
  obtain m where M: "M = Suc m" using k gr0_implies_Suc[of M] by auto
  have x: "?X = dval num1 1 m" using d1(2) unfolding M dval_Cons by simp
  have X: "0 \<le> ?X" "?X < 10 ^ m" unfolding x using dval_bounds[OF digits_sub[OF d1(1), of 1 m]] M by auto
  have "nf * ?X \<le> 5 * ?X" using nv X by (intro mult_right_mono) auto
  hence small: "nf * ?X < 10 ^ M" using X by (simp add: M)
  note s1 = num_multiply_int_no_carry[OF d1(1) _ _ small r1]
  have r1d: "digits r1 0 (M + 1)" using s1 nv d1(3) by (simp add: digits_Suc)
  have pre: "dval r1 0 j = nf * ?X div 10 ^ (M - j)" if "j \<le> M" for j
  proof -
    have "dval r1 0 M = dval r1 0 j * 10 ^ (M - j) + dval r1 (int j) (M - j)"
      using dval_append[of r1 0 j "M - j"] that by simp
    moreover have "0 \<le> dval r1 (int j) (M - j)" "dval r1 (int j) (M - j) < 10 ^ (M - j)"
      using dval_bounds[OF digits_sub[OF r1d, of "int j" "M - j"]] that by auto
    ultimately show ?thesis using s1(2) nv div_unique[of "dval r1 0 j" "10 ^ (M - j)" "nf * ?X"] by (simp add: distrib_right)
  qed
  have Vp: "0 < ?V" using s2(5) by (smt (verit) zero_less_power)
  have lt: "dval r1 0 len2 < dval r2 p len2"
  proof -
    have "(10 :: int) ^ m = 10 ^ (len2 - 1) * 10 ^ (M - len2)" using k d2(2) M by (simp flip: power_add)
    also have "\<dots> \<le> ?V * 10 ^ (M - len2)" using s2(5) by (intro mult_right_mono) auto
    finally have "nf * ?X < nf * (?V * 10 ^ (M - len2))" using X nv by (intro mult_strict_left_mono) auto
    hence lt': "nf * ?X < (nf * ?V) * 10 ^ (M - len2)" by simp
    have "nf * ?X div 10 ^ (M - len2) < nf * ?V"
    proof (rule ccontr)
      assume "\<not> nf * ?X div 10 ^ (M - len2) < nf * ?V"
      hence "(nf * ?V) * 10 ^ (M - len2) \<le> nf * ?X div 10 ^ (M - len2) * 10 ^ (M - len2)" by (intro mult_right_mono) auto
      also have "\<dots> \<le> nf * ?X" by (simp add: minus_mod_eq_div_mult [symmetric])
      finally show False using lt' by simp
    qed
    thus ?thesis using pre[of len2] k s2(2) by simp
  qed
  have "digits r1 0 (k + len2 + 1)" by (rule digits_sub[OF r1d]) (use k in auto)
  moreover have "len2 = 1 \<Longrightarrow> r2 (p + 1) = 0" using s2(3) d2(4) by simp
  ultimately have L: "digits q' qp k \<and> dval q' qp k = dval r1 0 (len2 + k) div dval r2 p len2
      \<and> (\<forall>i. i < qp \<or> qp + int k \<le> i \<longrightarrow> q' i = q i)"
    using div_loop_correct[OF s2(1) d2(2) s2(4) _ _ lt q'] by blast
  have "dval r1 0 (len2 + k) div dval r2 p len2 = nf * ?X div (10 ^ (M - (len2 + k)) * (nf * ?V))"
    using pre[OF k(2)] s2(2) nv Vp by (simp add: zdiv_zmult2_eq)
  also have "\<dots> = (nf * ?X) div (nf * (10 ^ (M - (len2 + k)) * ?V))" by (simp add: ac_simps)
  also have "\<dots> = ?X div (10 ^ (M - (len2 + k)) * ?V)" using nv by (subst div_mult_mult1) auto
  finally show ?thesis using L by simp
qed

lemma dividend_buffer:
  assumes ok: "num_ok n1" and M: "M = Suc (dlen n1 + dscale n1 + e)"
    and num1: "num1 = mem_copy (mem_set stk 0 0 (int M + 1)) 1 (n_value n1) 0 (int (dlen n1 + dscale n1))"
  shows "digits num1 0 M" "num1 0 = 0" "num1 (int M) = 0" "dval num1 0 M = num_int n1 * 10 ^ e"
proof -
  let ?l = "dlen n1 + dscale n1"
  have v: "num1 i = aligned n1 1 i" if "0 \<le> i" "i \<le> int M" for i
    using that by (auto simp: num1 mem_copy_def mem_set_def aligned_def)
  show "num1 0 = 0" "num1 (int M) = 0" by (simp_all add: v aligned_def M)
  show "digits num1 0 M" using aligned_digit[OF ok, of 1] by (auto simp: digits_def v)
  have "dval num1 0 M = dval (aligned n1 (int 1)) 0 M" by (rule dval_same) (simp add: v)
  also have "\<dots> = num_int n1 * 10 ^ e" by (rule dval_aligned) (simp add: M)
  finally show "dval num1 0 M = num_int n1 * 10 ^ e" .
qed

lemma divisor_buffer:
  assumes ok: "num_ok n2" and nz: "num_int n2 \<noteq> 0"
    and s: "s = strip_zeros (dscale n2) (n_value n2) (n_len n2 + n_scale n2 - 1)"
    and num2: "num2 = (mem_copy stk 0 (n_value n2) 0 (int (dlen n2 + s)))(int (dlen n2 + s) := 0)"
    and sk: "skip_zeros (dlen n2 + s) num2 0 = (len2, p)"
  shows "s \<le> dscale n2" "digits num2 p len2" "0 < len2" "len2 \<le> dlen n2 + s" "num2 p \<noteq> 0" "num2 (p + int len2) = 0"
    "num_int n2 = dval num2 p len2 * 10 ^ (dscale n2 - s)"
proof -
  note f = num_okD[OF ok]
  have st: "s \<le> dscale n2" "\<And>i. int (dlen n2 + s) \<le> i \<Longrightarrow> i < int (dlen n2 + s) + int (dscale n2 - s) \<Longrightarrow> n_value n2 i = 0"
    using strip_zeros_spec[of "dscale n2" "n_value n2" "n_len n2 + n_scale n2 - 1", folded s] f(1,2) by auto
  note z = skip_zeros_spec[OF sk]
  have v: "num2 i = n_value n2 i" if "0 \<le> i" "i < int (dlen n2 + s)" for i using that by (simp add: num2 mem_copy_def)
  have "num_int n2 = dval (n_value n2) 0 (dlen n2 + s) * 10 ^ (dscale n2 - s) + dval (n_value n2) (int (dlen n2 + s)) (dscale n2 - s)"
    using dval_append[of "n_value n2" 0 "dlen n2 + s" "dscale n2 - s"] st(1) by (simp add: num_int_def)
  also have "dval (n_value n2) (int (dlen n2 + s)) (dscale n2 - s) = 0" by (rule dval_zeros) (rule st(2))
  also have "dval (n_value n2) 0 (dlen n2 + s) = dval num2 0 (dlen n2 + s)" by (rule dval_same) (simp add: v)
  also have "dval num2 0 (dlen n2 + s) = dval num2 p len2"
    using dval_append[of num2 0 "dlen n2 + s - len2" len2] dval_zeros[of 0 "dlen n2 + s - len2" num2] z by auto
  finally show i: "num_int n2 = dval num2 p len2 * 10 ^ (dscale n2 - s)" by simp
  show l: "0 < len2" using nz i by (cases len2) auto
  show "s \<le> dscale n2" "len2 \<le> dlen n2 + s" "num2 p \<noteq> 0" using st z l by auto
  show "num2 (p + int len2) = 0" using z by (simp add: num2)
  have "digits num2 0 (dlen n2 + s)"
    by (rule digits_cong[where w = "n_value n2" and k = 0]) (use v st digits_sub[OF f(5), of 0 "dlen n2 + s"] in auto)
  thus "digits num2 p len2" by (rule digits_sub) (use z in auto)
qed

text \<open>What the quotient stands for, in terms of the buffers.\<close>

lemma quotient_value:
  fixes N V :: int and sc S1 S2 s e t :: nat
  assumes V: "0 < V" and N: "0 \<le> N" and s: "s \<le> S2" and e: "S1 + e = s + sc + t"
  shows "real_of_int (N * 10 ^ e div (10 ^ t * V)) / 10 ^ sc
    = trunc_to sc ((of_int N / 10 ^ S1) / (of_int (V * 10 ^ (S2 - s)) / 10 ^ S2))"
proof -
  let ?x = "(of_int N / 10 ^ S1) / (of_int (V * 10 ^ (S2 - s)) / 10 ^ S2) :: real"
  have p: "(10 :: real) ^ S2 = 10 ^ (S2 - s) * 10 ^ s" using s by (simp flip: power_add)
  have "?x * 10 ^ sc = of_int N * 10 ^ (s + sc) / (10 ^ S1 * of_int V)" unfolding p by (simp add: power_add)
  also have "\<dots> = (of_int N * 10 ^ (s + sc + t)) / (10 ^ (S1 + t) * of_int V)" by (simp add: power_add)
  also have "\<dots> = of_int (N * 10 ^ e) / of_int (10 ^ t * V)" unfolding e[symmetric] by (simp add: power_add)
  finally have "\<lfloor>?x * 10 ^ sc\<rfloor> = N * 10 ^ e div (10 ^ t * V)" by (simp only: floor_divide_of_int_eq)
  moreover have "0 \<le> ?x" using V N by simp
  ultimately show ?thesis by (simp add: trunc_to_nonneg)
qed

definition div_room :: "numeric \<Rightarrow> numeric \<Rightarrow> int \<Rightarrow> bool" where
  "div_room n1 n2 scale \<longleftrightarrow> 0 \<le> scale
     \<and> n_len n1 + n_scale n1 + n_scale n2 + scale + 2 \<le> NUMERIC_STACK_BYTES \<and> n_len n2 + n_scale n2 + 1 \<le> NUMERIC_STACK_BYTES"

text \<open>The digits of the quotient after the loop, or the zeros it is left with when the divisor is too long.\<close>

lemma div_quotient_digits:
  fixes sc len1 :: nat
  assumes d2: "digits num2 p len2" "0 < len2" "num2 p \<noteq> 0" "num2 (p + int len2) = 0"
    and d1: "digits num1 0 M" "num1 0 = 0" "num1 (int M) = 0" and t: "M = len1 + sc + 1 + t"
    and nf: "nf = 10 div (num2 p + 1)"
    and r2: "r2 = (if nf \<noteq> 1 then num_multiply_int num2 p num2 p (int len2) nf else num2)"
    and r1: "r1 = (if nf \<noteq> 1 then num_multiply_int num1 0 num1 0 (int M) nf else num1)"
    and D: "D = (if len2 > len1 then sc + 1 else len1 - len2 + sc + 1)"
    and q: "q = (if len2 \<le> len1 + sc then div_loop (len1 + sc + 1 - len2) mval r2 p len2 r1 0 (mem_set v 0 0 (int D)) (int (len2 - len1))
                 else mem_set v 0 0 (int D))"
  shows "digits q 0 D \<and> dval q 0 D = dval num1 0 M div (10 ^ t * dval num2 p len2)"
proof (cases "len2 \<le> len1 + sc")
  case True
  let ?k = "len1 + sc + 1 - len2" and ?o = "len2 - len1"
  have k: "0 < ?k" "len2 + ?k \<le> M" "M - (len2 + ?k) = t" "D = ?o + ?k" using True t D by auto
  have qq: "q = div_loop ?k mval r2 p len2 r1 0 (mem_set v 0 0 (int D)) (int ?o)" using True q by simp
  have s: "digits q (int ?o) ?k" "dval q (int ?o) ?k = dval num1 0 M div (10 ^ t * dval num2 p len2)"
      "\<And>i. i < int ?o \<Longrightarrow> q i = mem_set v 0 0 (int D) i"
    using div_normalised[OF d2 d1 k(1,2) nf r2 r1 qq] unfolding k(3) by auto
  have z: "q i = 0" if "0 \<le> i" "i < int ?o" for i using s(3)[of i] that k(4) by (simp add: mem_set_def)
  have "dval q 0 D = dval q 0 ?o * 10 ^ ?k + dval q (int ?o) ?k" unfolding k(4) dval_append by simp
  also have "dval q 0 ?o = 0" by (rule dval_zeros) (use z in auto)
  finally have "dval q 0 D = dval num1 0 M div (10 ^ t * dval num2 p len2)" using s(2) by simp
  moreover have "digits q 0 D" unfolding k(4) by (rule digits_append) (use z s(1) in \<open>auto simp: digits_def\<close>)
  ultimately show ?thesis by blast
next
  case False
  hence z: "q i = 0" if "0 \<le> i" "i < int D" for i using that q by (simp add: mem_set_def)
  have "dval q 0 D = 0" by (rule dval_zeros) (use z in auto)
  moreover have "digits q 0 D" using z by (auto simp: digits_def)
  moreover have "dval num1 0 M div (10 ^ t * dval num2 p len2) = 0"
  proof (rule div_pos_pos_trivial)
    obtain m where M: "M = Suc m" using t by simp
    have "dval num1 0 M = dval num1 1 m" using d1(2) unfolding M dval_Cons by simp
    hence X: "0 \<le> dval num1 0 M" "dval num1 0 M < 10 ^ m"
      using dval_bounds[OF digits_sub[OF d1(1), of 1 m]] M by auto
    show "0 \<le> dval num1 0 M" by (rule X)
    have "(10 :: int) ^ m = 10 ^ t * 10 ^ (len1 + sc)" using M t by (simp flip: power_add)
    also have "\<dots> \<le> 10 ^ t * 10 ^ (len2 - 1)" using False by (intro mult_left_mono power_increasing) auto
    also have "\<dots> \<le> 10 ^ t * dval num2 p len2"
      using normalise_divisor(5)[OF d2(1-3) nf r2] by (intro mult_left_mono) auto
    finally show "dval num1 0 M < 10 ^ t * dval num2 p len2" using X by simp
  qed
  ultimately show ?thesis by simp
qed

lemma zero_sign: "num_is_zero (if num_is_zero q then q\<lparr>n_neg := 0\<rparr> else q) \<longrightarrow> n_neg (if num_is_zero q then q\<lparr>n_neg := 0\<rparr> else q) = 0"
  by (simp add: num_is_zero_def)

lemma num_divide_digits_val:
  assumes ok: "num_ok n1" "num_ok n2" and nz: "num_int n2 \<noteq> 0" and room: "div_room n1 n2 scale"
  shows "\<exists>q. num_divide_digits stk1 stk2 mval (NUM_SET_0 x) n1 n2 scale = Some q \<and> num_norm q
    \<and> num_mag q = trunc_to (nat scale) (num_mag n1 / num_mag n2) \<and> (num_mag q \<noteq> 0 \<longrightarrow> n_neg q = xor (n_neg n1) (n_neg n2))
    \<and> n_scale q = scale \<and> n_len q \<le> n_len n1 + n_scale n2 + 1 \<and> (num_is_zero q \<longrightarrow> n_neg q = 0)"
proof -
  note f1 = num_okD[OF ok(1)] and f2 = num_okD[OF ok(2)]
  define sc where "sc = nat scale"
  have scale: "scale = int sc" using room by (simp add: sc_def div_room_def)
  define s where "s = strip_zeros (dscale n2) (n_value n2) (n_len n2 + n_scale n2 - 1)"
  define e where "e = s + sc - dscale n1"
  define M where "M = Suc (dlen n1 + dscale n1 + e)"
  define len1 where "len1 = dlen n1 + s"
  define num1 where "num1 = mem_copy (mem_set stk1 0 0 (int M + 1)) 1 (n_value n1) 0 (int (dlen n1 + dscale n1))"
  define num2 where "num2 = (mem_copy stk2 0 (n_value n2) 0 (int (dlen n2 + s)))(int (dlen n2 + s) := 0)"
  obtain len2 p where sk: "skip_zeros (dlen n2 + s) num2 0 = (len2, p)" by fastforce
  note b2 = divisor_buffer[OF ok(2) nz s_def num2_def sk]
  note b1 = dividend_buffer[OF ok(1) M_def num1_def]
  define t where "t = M - (len1 + sc + 1)"
  have t: "M = len1 + sc + 1 + t" "dscale n1 + e = s + sc + t" by (auto simp: t_def M_def len1_def e_def)
  define nf where "nf = 10 div (num2 p + 1)"
  define r2 where "r2 = (if nf \<noteq> 1 then num_multiply_int num2 p num2 p (int len2) nf else num2)"
  define r1 where "r1 = (if nf \<noteq> 1 then num_multiply_int num1 0 num1 0 (int M) nf else num1)"
  define D where "D = (if len2 > len1 then sc + 1 else len1 - len2 + sc + 1)"
  define v where "v = (if len2 \<le> len1 + sc
      then div_loop (len1 + sc + 1 - len2) mval r2 p len2 r1 0 (mem_set (n_value (NUM_SET_0 x)) 0 0 (int D)) (int (len2 - len1))
      else mem_set (n_value (NUM_SET_0 x)) 0 0 (int D))"
  have q: "digits v 0 D" "dval v 0 D = num_int n1 * 10 ^ e div (10 ^ t * dval num2 p len2)"
    using div_quotient_digits[OF b2(2,3,5,6) b1(1-3) t(1) nf_def r2_def r1_def D_def v_def] b1(4) by auto
  define h where "h = (NUM_SET_0 x)\<lparr>n_len := int D - int sc, n_scale := int sc, n_value := v, n_neg := xor (n_neg n1) (n_neg n2)\<rparr>"
  have neg: "xor (n_neg n1) (n_neg n2) = 0 \<or> xor (n_neg n1) (n_neg n2) = 1" using f1(4) f2(4) by auto
  have hs: "dlen h + dscale h = D" "dscale h = sc" by (auto simp: h_def dlen_def[of "_\<lparr>n_neg := _\<rparr>"] dscale_def[of "_\<lparr>n_neg := _\<rparr>"] D_def)
  have hok: "num_ok h" using q(1) neg hs by (auto simp: num_ok_def h_def NUM_SET_0_def D_def)
  have "0 < dval num2 p len2" using b2(7) nz dval_bounds[OF b2(2)] by (cases "dval num2 p len2 = 0") auto
  note qv = quotient_value[OF this _ b2(1) t(2), of "num_int n1"]
  have hm: "num_mag h = trunc_to sc (num_mag n1 / num_mag n2)"
    using qv q(2) num_int_bounds[OF ok(1)] hs by (simp add: num_mag_def num_int_def[of h] b2(7)) (simp add: h_def)
  have "num_divide_digits stk1 stk2 mval (NUM_SET_0 x) n1 n2 scale =
      Some (if num_is_zero (num_normalize h) then (num_normalize h)\<lparr>n_neg := 0\<rparr> else num_normalize h)"
  proof -
    have e1: "strip_zeros (dscale n2) (n_value n2) (int (dlen n2) + int (dscale n2) - 1) = s"
        "int (dlen n1) + int s = int len1" "(if int (dscale n1) - int s < int sc then int sc - (int (dscale n1) - int s) else 0) = int e"
        "int (dlen n1 + dscale n1) + int e + 2 = int M + 1" "int (dlen n2) + int s = int (dlen n2 + s)"
        "int (dlen n1) + int (dscale n1) = int (dlen n1 + dscale n1)"
        "int len1 + (int (dscale n1) - int s) + int e + 1 = int M"
      by (auto simp: s_def f2(1,2) len1_def e_def M_def)
    have e2: "(int M + 1 > NUMERIC_STACK_BYTES \<or> int (dlen n2 + s) + 1 > NUMERIC_STACK_BYTES) = False" "(len2 = 0) = False"
      using room b2(1,3) f1(1,2) f2(1,2) scale by (auto simp: div_room_def M_def e_def)
    have e3: "(int len2 > int len1 + int sc) = (\<not> len2 \<le> len1 + sc)"
        "(if \<not> len2 \<le> len1 + sc \<or> int len2 > int len1 then int sc + 1 else int len1 - int len2 + int sc + 1) = int D"
        "nat (int len1 + int sc - int len2 + 1) = len1 + sc + 1 - len2"
        "(if int len2 > int len1 then int len2 - int len1 else 0) = int (len2 - len1)"
      by (auto simp: D_def)
    have "num_divide_digits stk1 stk2 mval (NUM_SET_0 x) n1 n2 scale = Some (let r = num_normalize h in if num_is_zero r then r\<lparr>n_neg := 0\<rparr> else r)"
      unfolding num_divide_digits_def Let_def f1(1,2) f2(1,2) scale nat_int e1
      unfolding num1_def[symmetric] num2_def[symmetric] sk prod.case e2 e3 if_False nf_def[symmetric] r1_def[symmetric] r2_def[symmetric]
      by (simp add: h_def v_def)
    thus ?thesis by (simp add: Let_def)
  qed
  thus ?thesis
    using num_normalize_spec[OF hok] num_normalize_mag[OF hok] hm num_neg_update(1)[of "num_normalize h" 0]
      num_neg_update(2)[of 0 "num_normalize h"] num_is_zero_mag[of "num_normalize h"] zero_sign[of "num_normalize h"] f1(1) f2(2) b2(1)
    by (auto simp: h_def num_norm_ok scale D_def len1_def)
qed

lemma num_divide_val:
  assumes ok: "num_ok n1" "num_ok n2" and nz: "num_int n2 \<noteq> 0" and room: "div_room n1 n2 scale"
    and fits: "n_len n1 + n_scale n2 + 1 + scale \<le> NUMERIC_STACK_BYTES"
  shows "\<exists>q. num_divide stk1 stk2 mval alias block res n1 n2 scale = Some (0, q) \<and> num_norm q
    \<and> num_val q = trunc_to (nat scale) (num_val n1 / num_val n2)
    \<and> n_scale q = scale \<and> n_len q \<le> n_len n1 + n_scale n2 + 1 \<and> (num_is_zero q \<longrightarrow> n_neg q = 0)"
proof -
  have z: "\<not> num_is_zero n2" using nz num_is_zero_mag[OF _ ok(2)] by (auto simp: num_mag_def)
  obtain q where q: "num_divide_digits stk1 stk2 mval (NUM_SET_0 (if alias then block else res)) n1 n2 scale = Some q" "num_norm q"
      "num_mag q = trunc_to (nat scale) (num_mag n1 / num_mag n2)" "num_mag q \<noteq> 0 \<longrightarrow> n_neg q = xor (n_neg n1) (n_neg n2)"
      "n_scale q = scale" "n_len q \<le> n_len n1 + n_scale n2 + 1" "num_is_zero q \<longrightarrow> n_neg q = 0"
    using num_divide_digits_val[OF ok nz room] by blast
  have v: "num_val q = trunc_to (nat scale) (num_val n1 / num_val n2)"
  proof (cases "num_mag q = 0")
    case True
    thus ?thesis using q(3) trunc_to_minus[of "nat scale" "num_mag n1 / num_mag n2"] by (simp add: num_val_def)
  next
    case False
    thus ?thesis using q(3,4) num_okD(4)[OF ok(1)] num_okD(4)[OF ok(2)] trunc_to_minus[of "nat scale" "num_mag n1 / num_mag n2"]
      by (auto simp: num_val_def)
  qed
  show ?thesis
  proof (cases "alias")
    case True
    have "n_len q + n_scale q \<le> NUMERIC_STACK_BYTES" using q(5,6) fits by linarith
    from num_assign_keeps[OF q(2) this refl, of res] show ?thesis
      using True z q v by (auto simp: num_divide_def numeric_allocate_def num_is_zero_def)
  next
    case False
    thus ?thesis using z q v by (auto simp: num_divide_def)
  qed
qed

end
