(* ===== verification/Num_Api.thy ===== *)
theory Num_Api
  imports Num_Div
begin

text \<open>
  The interface of \<^verbatim>\<open>libsrc/Wi/numeric.c\<close>: the operations on numbers that may be infinite or not a
  number, each of which ends in \<^verbatim>\<open>_numeric_normalize\<close>, and the conversions between precisions.
  An operation returns the contents of its result and its status code.
\<close>

subsection \<open>Special values\<close>

definition numeric_init_static :: "numeric \<Rightarrow> numeric" where
  "numeric_init_static n = NUM_SET_0 n"

definition numeric_nan :: "numeric \<Rightarrow> numeric \<times> int" where
  "numeric_nan n = ((NUM_SET_0 n)\<lparr>n_invalid := NDF_NAN\<rparr>, NUMERIC_STS_INVALID_NUM)"

definition numeric_inf :: "numeric \<Rightarrow> int \<Rightarrow> numeric \<times> int" where
  "numeric_inf n neg =
     ((NUM_SET_0 n)\<lparr>n_invalid := NDF_INF, n_neg := (if neg \<noteq> 0 then 1 else 0)\<rparr>,
      if neg \<noteq> 0 then NUMERIC_STS_UNDERFLOW else NUMERIC_STS_OVERFLOW)"

subsection \<open>Normalization to the internal precision\<close>

definition numeric_normalize :: "numeric \<Rightarrow> numeric \<times> int" where
  "numeric_normalize n =
     (if n_len n > NUMERIC_MAX_PRECISION then numeric_inf n 0
      else
        let new_scale = min (NUMERIC_MAX_PRECISION_INT - n_len n) NUMERIC_MAX_SCALE_INT;
            n = (if n_scale n > new_scale then n\<lparr>n_scale := new_scale\<rparr> else n);
            n = (if n_scale n \<noteq> 0 then
                   let n = n\<lparr>n_scale := int (strip_zeros (nat (n_scale n)) (n_value n) (n_len n + n_scale n - 1))\<rparr>
                   in if n_scale n = 0 \<and> n_len n = 0 then n\<lparr>n_neg := 0\<rparr> else n
                 else n)
        in (n, NUMERIC_STS_SUCCESS))"

subsection \<open>Changing precision and scale\<close>

definition numeric_rescale_noround :: "numeric \<Rightarrow> numeric \<Rightarrow> int \<Rightarrow> int \<Rightarrow> numeric \<times> int" where
  "numeric_rescale_noround n x new_prec new_scale =
     (if num_is_invalid x then numeric_copy n x
      else
        let new_prec = max 0 (min NUMERIC_MAX_PRECISION new_prec);
            new_scale = max 0 (min NUMERIC_MAX_SCALE new_scale) in
        if n_len x > new_prec then numeric_inf n (n_neg x)
        else
          let new_scale = (if n_len x + new_scale > new_prec + (if 1 = n_len x \<and> 0 = n_value x 0 then 1 else 0)
                           then new_prec - n_len x else new_scale) in
          if n_scale x > new_scale then
            let n = (num_assign n x)\<lparr>n_scale := new_scale\<rparr>;
                n = (if n_scale n \<noteq> 0
                     then n\<lparr>n_scale := int (strip_zeros (nat (n_scale n)) (n_value n) (n_len n + n_scale n - 1))\<rparr>
                     else n)
            in (n, NUMERIC_STS_SUCCESS)
          else (num_assign n x, NUMERIC_STS_SUCCESS))"

definition numeric_rescale :: "bool \<Rightarrow> numeric \<Rightarrow> numeric \<Rightarrow> numeric \<Rightarrow> numeric \<Rightarrow> int \<Rightarrow> int \<Rightarrow> numeric \<times> int" where
  "numeric_rescale alias block buf n x new_prec new_scale =
     (if num_is_invalid x then numeric_copy n x
      else
        let new_prec = max 0 (min NUMERIC_MAX_PRECISION new_prec);
            new_scale = max 0 (min NUMERIC_MAX_SCALE new_scale) in
        if n_len x > new_prec then numeric_inf n (n_neg x)
        else
          let new_scale = (if n_len x + new_scale > new_prec + (if 1 = n_len x \<and> 0 = n_value x 0 then 1 else 0)
                           then new_prec - n_len x else new_scale) in
          if n_scale x > new_scale then
            let up = (n_value x (n_len x + new_scale) \<ge> 5);
                temp = numeric_init_static buf;
                temp = temp\<lparr>n_value := (mem_set (n_value temp) 0 0 new_scale)(new_scale := 5),
                            n_scale := new_scale + 1, n_neg := n_neg x\<rparr>;
                n = (if up then num_add alias block n x temp new_scale else num_assign n x) in
            if up \<and> n_len n > new_prec then numeric_inf n (n_neg n)
            else
              let n = n\<lparr>n_scale := new_scale\<rparr>;
                  n = (if n_scale n \<noteq> 0
                       then n\<lparr>n_scale := int (strip_zeros (nat (n_scale n)) (n_value n) (n_len n + n_scale n - 1))\<rparr>
                       else n)
              in (n, NUMERIC_STS_SUCCESS)
          else (num_assign n x, NUMERIC_STS_SUCCESS))"

subsection \<open>Comparison\<close>

definition numeric_compare :: "numeric \<Rightarrow> numeric \<Rightarrow> int" where
  "numeric_compare n1 n2 =
     (if num_is_invalid n1 then
        if num_is_plus_inf n1 then (if num_is_plus_inf n2 then 0 else 1)
        else if num_is_minus_inf n1 then (if num_is_minus_inf n2 then 0 else - 1)
        else if num_is_nan n2 then 0
        else 1
      else if num_is_invalid n2 then
        if num_is_plus_inf n2 then - 1
        else if num_is_minus_inf n2 then 1
        else - 1
      else num_compare_int n1 n2 True)"

subsection \<open>Arithmetic\<close>

definition numeric_add :: "bool \<Rightarrow> numeric \<Rightarrow> numeric \<Rightarrow> numeric \<Rightarrow> numeric \<Rightarrow> numeric \<times> int" where
  "numeric_add alias block z x y =
     (if num_is_invalid x then
        (if num_is_plus_inf x then
           (if num_is_minus_inf y \<or> num_is_nan y then fst (numeric_nan z) else fst (numeric_inf z 0))
         else if num_is_minus_inf x then
           (if num_is_plus_inf y \<or> num_is_nan y then fst (numeric_nan z) else fst (numeric_inf z 1))
         else fst (numeric_nan z),
         NUMERIC_STS_SUCCESS)
      else if num_is_invalid y then
        (if num_is_nan y then fst (numeric_nan z) else fst (numeric_inf z (n_neg y)), NUMERIC_STS_SUCCESS)
      else numeric_normalize (num_add alias block z x y 0))"

definition numeric_subtract :: "bool \<Rightarrow> numeric \<Rightarrow> numeric \<Rightarrow> numeric \<Rightarrow> numeric \<Rightarrow> numeric \<times> int" where
  "numeric_subtract alias block z x y =
     (if num_is_invalid x then
        (if num_is_plus_inf x then
           (if num_is_plus_inf y \<or> num_is_nan y then fst (numeric_nan z) else fst (numeric_inf z 0))
         else if num_is_minus_inf x then
           (if num_is_minus_inf y \<or> num_is_nan y then fst (numeric_nan z) else fst (numeric_inf z 1))
         else fst (numeric_nan z),
         NUMERIC_STS_SUCCESS)
      else if num_is_invalid y then
        (if num_is_nan y then fst (numeric_nan z) else fst (numeric_inf z (1 - n_neg y)), NUMERIC_STS_SUCCESS)
      else numeric_normalize (num_subtract alias block z x y NUMERIC_MAX_SCALE_INT))"

definition numeric_multiply :: "bool \<Rightarrow> numeric \<Rightarrow> numeric \<Rightarrow> numeric \<Rightarrow> numeric \<Rightarrow> numeric \<times> int" where
  "numeric_multiply alias block z x y =
     (if num_is_invalid x then
        (if num_is_nan x \<or> num_is_nan y then fst (numeric_nan z)
         else fst (numeric_inf z (xor (n_neg x) (n_neg y))), NUMERIC_STS_SUCCESS)
      else if num_is_invalid y then
        (if num_is_nan y then fst (numeric_nan z)
         else fst (numeric_inf z (xor (n_neg x) (n_neg y))), NUMERIC_STS_SUCCESS)
      else numeric_normalize (num_multiply alias block z x y NUMERIC_MAX_SCALE_INT))"

definition numeric_divide ::
  "(int \<Rightarrow> int) \<Rightarrow> (int \<Rightarrow> int) \<Rightarrow> (int \<Rightarrow> int) \<Rightarrow> bool \<Rightarrow> numeric \<Rightarrow> numeric \<Rightarrow> numeric \<Rightarrow> numeric \<Rightarrow> (numeric \<times> int) option" where
  "numeric_divide stk1 stk2 mval alias block z x y =
     (if num_is_invalid x then
        Some (if num_is_nan x \<or> num_is_invalid y then fst (numeric_nan z)
              else fst (numeric_inf z (xor (n_neg x) (n_neg y))), NUMERIC_STS_SUCCESS)
      else if num_is_invalid y then
        Some (if num_is_nan y then fst (numeric_nan z) else NUM_SET_0 z, NUMERIC_STS_SUCCESS)
      else
        (case num_divide stk1 stk2 mval alias block z x y NUMERIC_MAX_SCALE_INT of
           None \<Rightarrow> None
         | Some (rc, z) \<Rightarrow>
             if rc = - 1 then Some (fst (numeric_inf z (n_neg x)), NUMERIC_STS_DIVIDE_ZERO)
             else Some (numeric_normalize z)))"

definition numeric_negate :: "bool \<Rightarrow> numeric \<Rightarrow> numeric \<Rightarrow> numeric \<times> int" where
  "numeric_negate alias y x =
     (if num_is_invalid x then
        let y = (if num_is_nan x then fst (numeric_nan y) else y);
            x = (if alias then y else x)
        in (fst (numeric_inf y (1 - n_neg x)), NUMERIC_STS_SUCCESS)
      else
        let y = num_assign y x
        in (if \<not> num_is_zero y then y\<lparr>n_neg := 1 - n_neg y\<rparr> else y, NUMERIC_STS_SUCCESS))"

subsection \<open>Numbers as the interface hands them out\<close>

text \<open>
  A finite number in its final form: no leading zero in the integer part, no trailing zero in the
  fraction, no negative zero, within the internal precision and scale.
\<close>

definition num_fin :: "numeric \<Rightarrow> bool" where
  "num_fin n \<longleftrightarrow> num_norm n \<and> n_len n \<le> NUMERIC_MAX_PRECISION \<and> n_scale n \<le> NUMERIC_MAX_SCALE_INT
     \<and> n_len n + n_scale n \<le> NUMERIC_MAX_PRECISION_INT
     \<and> (n_scale n > 0 \<longrightarrow> n_value n (n_len n + n_scale n - 1) \<noteq> 0) \<and> (num_is_zero n \<longrightarrow> n_neg n = 0)"

definition num_special :: "numeric \<Rightarrow> bool" where
  "num_special n \<longleftrightarrow> n_len n = 0 \<and> n_scale n = 0 \<and> (n_neg n = 0 \<or> n_neg n = 1)
     \<and> (n_invalid n = NDF_NAN \<and> n_neg n = 0 \<or> n_invalid n = NDF_INF)"

definition numeric_ok :: "numeric \<Rightarrow> bool" where
  "numeric_ok n \<longleftrightarrow> num_fin n \<or> num_special n"

lemma strip_zeros_last: "strip_zeros k v p > 0 \<Longrightarrow> v (p - int (k - strip_zeros k v p)) \<noteq> 0"
proof (induction k v p rule: strip_zeros.induct)
  case (2 k v p)
  thus ?case using strip_zeros_spec[of k v "p - 1"] by (auto simp: Suc_diff_le algebra_simps split: if_splits)
qed simp

lemma num_cut:
  assumes n: "num_ok n" and k: "k \<le> dscale n" and r: "r = n\<lparr>n_scale := int k\<rparr>"
  shows "num_ok r" "num_norm n \<Longrightarrow> num_norm r" "num_mag r = trunc_to k (num_mag n)" "num_int r = num_int n div 10 ^ (dscale n - k)"
    "dlen r = dlen n" "dscale r = k"
proof -
  show d: "dlen r = dlen n" "dscale r = k" by (simp_all add: r dlen_def dscale_def)
  have g: "digits (n_value n) 0 (dlen n + k)" by (rule digits_sub[OF num_okD(5)[OF n]]) (use k in auto)
  show ok: "num_ok r" using n g unfolding num_ok_def d by (simp add: r)
  thus "num_norm n \<Longrightarrow> num_norm r" by (simp add: num_norm_def r)
  have "num_int n = num_int r * 10 ^ (dscale n - k) + dval (n_value n) (int (dlen n + k)) (dscale n - k)"
    using dval_append[of "n_value n" 0 "dlen n + k" "dscale n - k"] k unfolding num_int_def d by (simp add: r)
  moreover have "digits (n_value n) (int (dlen n + k)) (dscale n - k)"
    by (rule digits_sub[OF num_okD(5)[OF n]]) (use k in auto)
  ultimately show i: "num_int r = num_int n div 10 ^ (dscale n - k)"
    using dval_bounds[of "n_value n" "int (dlen n + k)" "dscale n - k"] div_unique[of "num_int r" "10 ^ (dscale n - k)" "num_int n"]
    by (simp add: distrib_right)
  have "num_mag n * 10 ^ k = of_int (num_int n) / of_int (10 ^ (dscale n - k))"
    using k by (simp add: num_mag_def field_simps flip: power_add)
  hence "\<lfloor>num_mag n * 10 ^ k\<rfloor> = num_int r" unfolding i by (simp only: floor_divide_of_int_eq)
  thus "num_mag r = trunc_to k (num_mag n)" using num_mag_nonneg[OF n] d by (simp add: trunc_to_nonneg num_mag_def[of r])
qed

lemma num_strip:
  assumes n: "num_ok n" and k: "k = strip_zeros (dscale n) (n_value n) (n_len n + n_scale n - 1)" and r: "r = n\<lparr>n_scale := int k\<rparr>"
  shows "k \<le> dscale n" "num_ok r" "num_norm n \<Longrightarrow> num_norm r" "num_mag r = num_mag n" "n_scale r > 0 \<Longrightarrow> n_value r (n_len r + n_scale r - 1) \<noteq> 0"
proof -
  note f = num_okD[OF n]
  note st = strip_zeros_spec[of "dscale n" "n_value n" "n_len n + n_scale n - 1", folded k]
  show kk: "k \<le> dscale n" using st by blast
  note c = num_cut[OF n kk r]
  show "num_ok r" "num_norm n \<Longrightarrow> num_norm r" by (fact c)+
  have z: "dval (n_value n) (int (dlen n + k)) (dscale n - k) = 0"
    by (rule dval_zeros) (use st f kk in auto)
  have "num_int n = num_int r * 10 ^ (dscale n - k)"
    using dval_append[of "n_value n" 0 "dlen n + k" "dscale n - k"] kk z unfolding num_int_def c(5,6) by (simp add: r)
  thus "num_mag r = num_mag n" unfolding num_mag_def c(6) using kk by (simp add: field_simps flip: power_add)
  show "n_value r (n_len r + n_scale r - 1) \<noteq> 0" if "n_scale r > 0"
    using strip_zeros_last[of "dscale n" "n_value n" "n_len n + n_scale n - 1", folded k] that f kk
    by (simp add: r algebra_simps of_nat_diff)
qed

lemma num_val_cut:
  assumes "num_ok n" "k \<le> dscale n" shows "num_val (n\<lparr>n_scale := int k\<rparr>) = trunc_to k (num_val n)"
  using num_cut(3)[OF assms refl] by (simp add: num_val_def trunc_to_minus)

lemma num_zero_digits: "num_norm n \<Longrightarrow> num_int n = 0 \<Longrightarrow> dlen n = 0"
proof (rule ccontr)
  assume n: "num_norm n" "num_int n = 0" "dlen n \<noteq> 0"
  have "(10 :: real) ^ (dlen n - 1) \<le> num_mag n" using num_mag_len(2)[OF n(1)] n(3) by simp
  thus False using n(2) by (simp add: num_mag_def) (smt (verit) zero_less_power)
qed

lemma num_fin_zero: "num_fin n \<Longrightarrow> num_int n = 0 \<longleftrightarrow> num_is_zero n"
proof
  assume f: "num_fin n" and z: "num_int n = 0"
  have n: "num_norm n" using f by (simp add: num_fin_def)
  note k = num_okD[OF num_norm_ok[OF n]]
  have l: "dlen n = 0" by (rule num_zero_digits[OF n z])
  have "n_scale n = 0"
  proof (rule ccontr)
    assume "n_scale n \<noteq> 0"
    hence s: "n_scale n > 0" "n_value n (n_scale n - 1) \<noteq> 0" using f k l by (auto simp: num_fin_def)
    have "\<forall>i\<in>{0..<0 + int (dlen n + dscale n)}. n_value n i = 0" using dval_zero[OF k(5)] z by (simp add: num_int_def)
    thus False using s k l by auto
  qed
  thus "num_is_zero n" using l k(1) by (simp add: num_is_zero_def)
next
  assume f: "num_fin n" and z: "num_is_zero n"
  have ok: "num_ok n" using f by (simp add: num_fin_def num_norm_ok)
  show "num_int n = 0" using num_is_zero_mag[OF z ok] by (simp add: num_mag_def)
qed

lemma num_fin_no_minus_zero: "num_fin n \<Longrightarrow> no_minus_zero n"
  using num_fin_zero[of n] by (auto simp: no_minus_zero_def num_fin_def)

lemma num_fin_norm: "num_fin n \<Longrightarrow> num_norm n"
  by (simp add: num_fin_def)

lemma num_val_int10:
  assumes "num_ok n" "dscale n \<le> k" shows "\<exists>z. num_val n * 10 ^ k = of_int z"
proof -
  have "num_mag n * 10 ^ k = of_int (num_int n * 10 ^ (k - dscale n))"
    using assms(2) by (simp add: num_mag_def field_simps flip: power_add)
  then obtain z where "num_mag n * 10 ^ k = of_int z" by blast
  thus ?thesis by (cases "n_neg n = 0") (auto simp: num_val_def intro: exI[of _ "- z"])
qed

text \<open>The number of decimals that remain for a number.\<close>

definition max_scale :: "numeric \<Rightarrow> nat" where
  "max_scale n = nat (min (NUMERIC_MAX_PRECISION_INT - n_len n) NUMERIC_MAX_SCALE_INT)"

lemma numeric_normalize_fin:
  assumes n: "num_norm n" and z: "num_is_zero n \<Longrightarrow> n_neg n = 0" and l: "n_len n \<le> NUMERIC_MAX_PRECISION"
  shows "\<exists>r. numeric_normalize n = (r, NUMERIC_STS_SUCCESS) \<and> num_fin r \<and> num_val r = trunc_to (max_scale n) (num_val n)"
proof -
  note k = num_okD[OF num_norm_ok[OF n]]
  define c where "c = (if n_scale n > int (max_scale n) then n\<lparr>n_scale := int (max_scale n)\<rparr> else n)"
  have ms: "int (max_scale n) = min (NUMERIC_MAX_PRECISION_INT - n_len n) NUMERIC_MAX_SCALE_INT"
    using l k(1) by (simp add: max_scale_def numeric_consts)
  have c: "num_norm c" "num_val c = trunc_to (max_scale n) (num_val n)" "n_len c = n_len n" "n_scale c \<le> int (max_scale n)" "n_neg c = n_neg n"
    "n_scale c = 0 \<Longrightarrow> n_len c = 0 \<Longrightarrow> n_neg c = 0"
  proof -
    have "num_norm c \<and> num_val c = trunc_to (max_scale n) (num_val n)"
    proof (cases "n_scale n > int (max_scale n)")
      case True
      hence "max_scale n \<le> dscale n" using k(2) by simp
      thus ?thesis using num_cut(2)[OF num_norm_ok[OF n] _ refl n] num_val_cut[OF num_norm_ok[OF n]] True by (simp add: c_def)
    next
      case False
      hence "dscale n \<le> max_scale n" using k(2) by simp
      from num_val_int10[OF num_norm_ok[OF n] this] show ?thesis using trunc_to_exact False n by (auto simp: c_def)
    qed
    thus "num_norm c" "num_val c = trunc_to (max_scale n) (num_val n)" by auto
    show "n_len c = n_len n" "n_scale c \<le> int (max_scale n)" "n_neg c = n_neg n"
      using k(2) by (auto simp: c_def)
    have "0 < int (max_scale n)" using l by (simp add: ms numeric_consts)
    thus "n_scale c = 0 \<Longrightarrow> n_len c = 0 \<Longrightarrow> n_neg c = 0" using z by (auto simp: c_def num_is_zero_def split: if_splits)
  qed
  note kc = num_okD[OF num_norm_ok[OF c(1)]]
  have le: "n_len c \<le> NUMERIC_MAX_PRECISION" "n_scale c \<le> NUMERIC_MAX_SCALE_INT" "n_len c + n_scale c \<le> NUMERIC_MAX_PRECISION_INT"
    using c(3,4) l unfolding ms by auto
  define s where "s = strip_zeros (dscale c) (n_value c) (n_len c + n_scale c - 1)"
  define r where "r = c\<lparr>n_scale := int s\<rparr>"
  note st = num_strip[OF num_norm_ok[OF c(1)] s_def r_def]
  have rv: "num_val r = num_val c" using st(4) by (simp add: num_val_def r_def)
  have e: "numeric_normalize n = (if n_scale c \<noteq> 0 then if n_scale r = 0 \<and> n_len r = 0 then r\<lparr>n_neg := 0\<rparr> else r else c, NUMERIC_STS_SUCCESS)"
    unfolding numeric_normalize_def Let_def ms[symmetric] c_def[symmetric] dscale_def[symmetric] s_def[symmetric] r_def[symmetric]
    using l by simp
  show ?thesis
  proof (cases "n_scale c = 0")
    case True
    thus ?thesis using e c le by (auto simp: num_fin_def num_is_zero_def)
  next
    case False
    have rn: "num_norm r" "n_len r = n_len c" "n_scale r \<le> n_scale c" "n_neg r = n_neg c"
      using st(1,3) c(1) kc(2) by (auto simp: r_def)
    have ks: "n_len r \<ge> 0" "n_scale r \<ge> 0" using num_okD[OF num_norm_ok[OF rn(1)]] by auto
    show ?thesis
    proof (cases "n_scale r = 0 \<and> n_len r = 0")
      case True
      have m: "num_mag r = 0" using True by (simp add: num_mag_def num_int_def dlen_def dscale_def)
      hence "num_val r = 0" by (simp add: num_val_def)
      hence "trunc_to (max_scale n) (num_val n) = 0" using rv c(2) by simp
      moreover have "num_fin (r\<lparr>n_neg := 0\<rparr>)" using num_neg_update(1)[of r 0] rn le True by (simp add: num_fin_def)
      ultimately show ?thesis using e False True m num_neg_update(3)[of 0 r] by simp
    next
      case nz: False
      have "num_fin r" using st(5) rn nz le ks by (auto simp: num_fin_def num_is_zero_def)
      thus ?thesis using e False nz rv c(2) by auto
    qed
  qed
qed

subsection \<open>What an operation returns for an exact result\<close>

text \<open>
  The integer digits of a number, and the number cut to the decimals that fit beside them in the
  internal precision.
\<close>

definition int_digits :: "real \<Rightarrow> nat" where
  "int_digits x = (LEAST l. \<bar>x\<bar> < 10 ^ l)"

definition fit :: "real \<Rightarrow> real" where
  "fit x = trunc_to (min 20 (45 - int_digits x)) x"

definition numeric_result :: "numeric \<times> int \<Rightarrow> real \<Rightarrow> bool" where
  "numeric_result r x \<longleftrightarrow>
     (if \<bar>x\<bar> < 10 ^ 40 then snd r = NUMERIC_STS_SUCCESS \<and> num_fin (fst r) \<and> num_val (fst r) = fit x
      else snd r = NUMERIC_STS_OVERFLOW \<and> num_special (fst r) \<and> num_is_plus_inf (fst r))"

lemma int_digits_norm: assumes n: "num_norm n" shows "int_digits (num_val n) = dlen n"
  unfolding int_digits_def num_val_abs[OF num_norm_ok[OF n]]
proof (rule Least_equality)
  show "num_mag n < 10 ^ dlen n" by (rule num_mag_len[OF n])
  fix l assume l: "num_mag n < 10 ^ l"
  show "dlen n \<le> l"
  proof (rule ccontr)
    assume a: "\<not> dlen n \<le> l"
    hence "(10 :: real) ^ l \<le> 10 ^ (dlen n - 1)" by (intro power_increasing) auto
    also have "\<dots> \<le> num_mag n" using num_mag_len(2)[OF n] a by simp
    finally show False using l by simp
  qed
qed

lemma numeric_inf_special: "num_special (fst (numeric_inf n 0))" "num_is_plus_inf (fst (numeric_inf n 0))"
    "snd (numeric_inf n 0) = NUMERIC_STS_OVERFLOW"
  by (simp_all add: numeric_inf_def num_special_def num_is_plus_inf_def num_is_inf_def numeric_consts NUM_SET_0_def)

lemma numeric_normalize_result:
  assumes n: "num_norm n" and z: "num_is_zero n \<Longrightarrow> n_neg n = 0"
  shows "numeric_result (numeric_normalize n) (num_val n)"
proof -
  note k = num_okD[OF num_norm_ok[OF n]]
  have big: "\<bar>num_val n\<bar> < 10 ^ 40 \<longleftrightarrow> n_len n \<le> NUMERIC_MAX_PRECISION"
  proof
    assume "\<bar>num_val n\<bar> < 10 ^ 40"
    hence "dlen n \<le> 40" unfolding int_digits_norm[OF n, symmetric] int_digits_def by (rule Least_le)
    thus "n_len n \<le> NUMERIC_MAX_PRECISION" using k(1) by (simp add: numeric_consts)
  next
    assume "n_len n \<le> NUMERIC_MAX_PRECISION"
    hence "(10 :: real) ^ dlen n \<le> 10 ^ 40" using k(1) by (intro power_increasing) (auto simp: numeric_consts)
    thus "\<bar>num_val n\<bar> < 10 ^ 40" using num_mag_len(1)[OF n] num_val_abs[OF num_norm_ok[OF n]] by simp
  qed
  show ?thesis
  proof (cases "n_len n \<le> NUMERIC_MAX_PRECISION")
    case True
    have "max_scale n = min 20 (45 - dlen n)" using k(1) True by (auto simp: max_scale_def numeric_consts)
    thus ?thesis using numeric_normalize_fin[OF n z True] big True
      by (auto simp: numeric_result_def fit_def int_digits_norm[OF n])
  next
    case False
    thus ?thesis using big numeric_inf_special by (simp add: numeric_result_def numeric_normalize_def)
  qed
qed

lemma floor_cut: assumes "j \<le> k" "0 \<le> a" shows "\<lfloor>real_of_int \<lfloor>a * 10 ^ k\<rfloor> / 10 ^ k * 10 ^ j\<rfloor> = \<lfloor>a * 10 ^ j :: real\<rfloor>"
proof -
  have p: "(10 :: real) ^ k = 10 ^ (k - j) * 10 ^ j" using assms(1) by (simp flip: power_add)
  have "of_int \<lfloor>a * 10 ^ k\<rfloor> / 10 ^ k * 10 ^ j = of_int \<lfloor>a * 10 ^ k\<rfloor> / (of_int (10 ^ (k - j)) :: real)" unfolding p by simp
  also have "\<lfloor>\<dots>\<rfloor> = \<lfloor>a * 10 ^ k\<rfloor> div 10 ^ (k - j)" by (simp only: floor_divide_of_int_eq)
  also have "\<dots> = \<lfloor>a * 10 ^ k / of_int (10 ^ (k - j))\<rfloor>" by (simp only: floor_divide_real_eq_div[symmetric] of_int_0_le_iff zero_le_power)
  also have "a * 10 ^ k / of_int (10 ^ (k - j)) = a * 10 ^ j" unfolding p by simp
  finally show ?thesis by simp
qed

lemma trunc_trunc: "j \<le> k \<Longrightarrow> trunc_to j (trunc_to k x) = trunc_to j x"
proof -
  assume jk: "j \<le> k"
  have "trunc_to j (trunc_to k x) = trunc_to j x" if x: "0 \<le> x" for x
  proof -
    have "0 \<le> trunc_to k x" using x by (simp add: trunc_to_nonneg)
    thus ?thesis using floor_cut[OF jk x] x by (simp add: trunc_to_nonneg)
  qed
  from this[of x] this[of "- x"] show ?thesis by (cases "0 \<le> x") (simp_all add: trunc_to_minus)
qed

lemma trunc_less_iff: "\<bar>trunc_to k x\<bar> < 10 ^ l \<longleftrightarrow> \<bar>x\<bar> < 10 ^ l"
proof -
  have "\<bar>trunc_to k x\<bar> = of_int \<lfloor>\<bar>x\<bar> * 10 ^ k\<rfloor> / 10 ^ k"
    by (cases "x = 0") (simp_all add: trunc_to_def abs_mult sgn_if)
  moreover have "of_int \<lfloor>\<bar>x\<bar> * 10 ^ k\<rfloor> / 10 ^ k < (10 :: real) ^ l \<longleftrightarrow> \<lfloor>\<bar>x\<bar> * 10 ^ k\<rfloor> < 10 ^ (l + k)"
  proof -
    have "of_int f < (10 :: real) ^ (l + k) \<longleftrightarrow> f < 10 ^ (l + k)" for f by (metis of_int_less_iff of_int_numeral of_int_power)
    thus ?thesis by (simp add: pos_divide_less_eq power_add)
  qed
  moreover have "\<lfloor>\<bar>x\<bar> * 10 ^ k\<rfloor> < 10 ^ (l + k) \<longleftrightarrow> \<bar>x\<bar> * 10 ^ k < 10 ^ (l + k)" by (simp add: floor_less_iff)
  ultimately show ?thesis by (simp add: power_add)
qed

lemma fit_trunc: "20 \<le> k \<Longrightarrow> fit (trunc_to k x) = fit x"
  by (simp add: fit_def int_digits_def trunc_less_iff trunc_trunc)

lemma numeric_result_trunc: "20 \<le> k \<Longrightarrow> numeric_result r (trunc_to k x) = numeric_result r x"
  by (simp only: numeric_result_def trunc_less_iff fit_trunc)

subsection \<open>The arithmetic operations\<close>

lemma num_mag_zero: "num_ok n \<Longrightarrow> num_mag n = 0 \<longleftrightarrow> num_int n = 0"
  by (simp add: num_mag_def)

lemma num_add_sign:
  assumes n: "num_norm n1" "num_norm n2" and room: "num_room n1 n2 q" and zeros: "n_neg n1 = n_neg n2 \<Longrightarrow> add_room n1 n2 q"
    and z: "no_minus_zero n1" "no_minus_zero n2" and r: "r = num_add alias block res n1 n2 q" and m: "num_mag r = 0"
  shows "n_neg r = 0"
proof (cases "n_neg n1 = n_neg n2")
  case True
  note ok = num_norm_ok[OF n(1)] num_norm_ok[OF n(2)]
  note s = num_add_int_mag[OF ok zeros[OF True] room refl, of "alias" block res]
  have "num_mag n1 + num_mag n2 = 0" using s m r True by (simp add: num_add_def num_neg_update)
  hence "num_int n1 = 0" using num_mag_nonneg[OF ok(1)] num_mag_nonneg[OF ok(2)] num_mag_zero[OF ok(1)] by simp
  thus ?thesis using z(1) r True by (simp add: no_minus_zero_def num_add_def)
next
  case False
  note ok = num_norm_ok[OF n(1)] num_norm_ok[OF n(2)]
  consider "num_mag n1 < num_mag n2" | "num_mag n1 = num_mag n2" | "num_mag n1 > num_mag n2" by linarith
  thus ?thesis
  proof cases
    case 1
    note s = num_subtract_int_mag[OF n(2,1) _ room[unfolded num_room_comm(1)[of n1]] refl, of "alias" block res]
    show ?thesis using 1 s False r m by (simp add: num_add_def num_compare_mag[OF n] cmp_sign_def num_neg_update)
  next
    case 2
    show ?thesis using 2 False r by (simp add: num_add_def num_compare_mag[OF n] cmp_sign_def NUM_SET_0_def)
  next
    case 3
    note s = num_subtract_int_mag[OF n _ room refl, of "alias" block res]
    show ?thesis using 3 s False r m by (simp add: num_add_def num_compare_mag[OF n] cmp_sign_def num_neg_update)
  qed
qed

lemma num_subtract_sign:
  assumes n: "num_norm n1" "num_norm n2" and room: "num_room n1 n2 q" and zeros: "n_neg n1 \<noteq> n_neg n2 \<Longrightarrow> add_room n1 n2 q"
    and z: "no_minus_zero n1" and r: "r = num_subtract alias block res n1 n2 q" and m: "num_mag r = 0"
  shows "n_neg r = 0"
proof (cases "n_neg n1 \<noteq> n_neg n2")
  case True
  note ok = num_norm_ok[OF n(1)] num_norm_ok[OF n(2)]
  note s = num_add_int_mag[OF ok zeros[OF True] room refl, of "alias" block res]
  have "num_mag n1 + num_mag n2 = 0" using s m r True by (simp add: num_subtract_def num_neg_update)
  hence "num_int n1 = 0" using num_mag_nonneg[OF ok(1)] num_mag_nonneg[OF ok(2)] num_mag_zero[OF ok(1)] by simp
  thus ?thesis using z r True by (simp add: no_minus_zero_def num_subtract_def)
next
  case False
  note ok = num_norm_ok[OF n(1)] num_norm_ok[OF n(2)]
  consider "num_mag n1 < num_mag n2" | "num_mag n1 = num_mag n2" | "num_mag n1 > num_mag n2" by linarith
  thus ?thesis
  proof cases
    case 1
    note s = num_subtract_int_mag[OF n(2,1) _ room[unfolded num_room_comm(1)[of n1]] refl, of "alias" block res]
    show ?thesis using 1 s False r m by (simp add: num_subtract_def num_compare_mag[OF n] cmp_sign_def num_neg_update)
  next
    case 2
    show ?thesis using 2 False r by (simp add: num_subtract_def num_compare_mag[OF n] cmp_sign_def NUM_SET_0_def)
  next
    case 3
    note s = num_subtract_int_mag[OF n _ room refl, of "alias" block res]
    show ?thesis using 3 s False r m by (simp add: num_subtract_def num_compare_mag[OF n] cmp_sign_def num_neg_update)
  qed
qed

lemma num_fin_bounds:
  "num_fin n \<Longrightarrow> 0 \<le> n_len n \<and> n_len n \<le> 40 \<and> 0 \<le> n_scale n \<and> n_scale n \<le> 20 \<and> n_len n + n_scale n \<le> 45"
  using num_okD(1,2)[of n] by (simp add: num_fin_def num_norm_ok numeric_consts)

lemma num_fin_room: "num_fin n1 \<Longrightarrow> num_fin n2 \<Longrightarrow> 0 \<le> q \<Longrightarrow> q \<le> 20 \<Longrightarrow> num_room n1 n2 q"
  using num_fin_bounds[of n1] num_fin_bounds[of n2] by (auto simp: num_room_def numeric_consts max_def)

lemma num_fin_valid: "num_fin n \<Longrightarrow> \<not> num_is_invalid n"
  by (simp add: num_fin_def num_norm_def num_ok_def num_is_invalid_def)

lemma numeric_add_result:
  assumes x: "num_fin x" and y: "num_fin y"
  shows "numeric_result (numeric_add alias block z x y) (num_val x + num_val y)"
proof -
  let ?r = "num_add alias block z x y 0"
  have room: "num_room x y 0" "add_room x y 0" using num_fin_room[OF x y] num_fin_bounds[OF x] by (auto simp: add_room_def)
  note v = num_add_val[OF num_fin_norm[OF x] num_fin_norm[OF y] room(1) room(2) refl, of "alias" block z]
  have s: "num_mag ?r = 0 \<Longrightarrow> n_neg ?r = 0"
    by (rule num_add_sign[OF num_fin_norm[OF x] num_fin_norm[OF y] room(1) room(2) num_fin_no_minus_zero[OF x] num_fin_no_minus_zero[OF y] refl])
  have "numeric_result (numeric_normalize ?r) (num_val ?r)"
    by (rule numeric_normalize_result) (use v s num_is_zero_mag[of ?r] num_norm_ok[of ?r] in simp_all)
  thus ?thesis using v num_fin_valid x y by (simp add: numeric_add_def)
qed

lemma numeric_subtract_result:
  assumes x: "num_fin x" and y: "num_fin y" and room: "n_neg x \<noteq> n_neg y \<Longrightarrow> max (n_len x) (n_len y) \<le> 23"
  shows "numeric_result (numeric_subtract alias block z x y) (num_val x - num_val y)"
proof -
  let ?r = "num_subtract alias block z x y NUMERIC_MAX_SCALE_INT"
  have room: "num_room x y NUMERIC_MAX_SCALE_INT" "n_neg x \<noteq> n_neg y \<Longrightarrow> add_room x y NUMERIC_MAX_SCALE_INT"
    using num_fin_room[OF x y] room by (auto simp: add_room_def numeric_consts)
  note v = num_subtract_val[OF num_fin_norm[OF x] num_fin_norm[OF y] room(1) room(2) refl, of "alias" block z]
  have s: "num_mag ?r = 0 \<Longrightarrow> n_neg ?r = 0"
    by (rule num_subtract_sign[OF num_fin_norm[OF x] num_fin_norm[OF y] room(1) room(2) num_fin_no_minus_zero[OF x] refl])
  have "numeric_result (numeric_normalize ?r) (num_val ?r)"
    by (rule numeric_normalize_result) (use v s num_is_zero_mag[of ?r] num_norm_ok[of ?r] in simp_all)
  thus ?thesis using v num_fin_valid x y by (simp add: numeric_subtract_def)
qed

lemma num_assign_header:
  "n_len (num_assign r n) = n_len n" "n_scale (num_assign r n) = n_scale n" "n_neg (num_assign r n) = n_neg n" "n_invalid (num_assign r n) = n_invalid n"
  by (simp_all add: num_assign_def numeric_copy_def Let_def)

lemma num_multiply_sign: "num_is_zero (num_multiply_digits p n1 n2 scale) \<longrightarrow> n_neg (num_multiply_digits p n1 n2 scale) = 0"
proof -
  have c: "(\<And>v q s. P (f v q s)) \<Longrightarrow> P (case x of (v, q, s) \<Rightarrow> f v q s)" for P :: "numeric \<Rightarrow> bool" and f and x :: "(int \<Rightarrow> int) \<times> int \<times> int"
    by (cases x) auto
  show ?thesis unfolding num_multiply_digits_def Let_def
    by (rule c[where P = "\<lambda>r. num_is_zero r \<longrightarrow> n_neg r = 0"]) (rule zero_sign)
qed

lemma numeric_multiply_result:
  assumes x: "num_fin x" and y: "num_fin y"
  shows "numeric_result (numeric_multiply alias block z x y) (num_val x * num_val y)"
proof -
  let ?r = "num_multiply alias block z x y NUMERIC_MAX_SCALE_INT" and ?p = "prod_scale x y NUMERIC_MAX_SCALE_INT"
  note ok = num_norm_ok[OF num_fin_norm[OF x]] num_norm_ok[OF num_fin_norm[OF y]]
  note b = num_fin_bounds[OF x] num_fin_bounds[OF y]
  have room: "n_len x + n_len y + ?p \<le> NUMERIC_STACK_BYTES" using b by (auto simp: prod_scale_def numeric_consts min_def)
  note v = num_multiply_val[OF ok room refl, of "alias" block z]
  have s: "num_is_zero ?r \<Longrightarrow> n_neg ?r = 0"
    using num_multiply_sign by (cases "alias") (simp_all add: num_multiply_def num_is_zero_def num_assign_header)
  have "numeric_result (numeric_normalize ?r) (num_val ?r)"
    by (rule numeric_normalize_result) (use v s in simp_all)
  hence "numeric_result (numeric_normalize ?r) (trunc_to (nat ?p) (num_val x * num_val y))" using v by simp
  moreover have "numeric_result p (trunc_to (nat ?p) (num_val x * num_val y)) = numeric_result p (num_val x * num_val y)" for p
  proof (cases "n_scale x + n_scale y \<le> 20")
    case True
    hence "nat ?p = dscale x + dscale y" using b num_okD(2)[OF ok(1)] num_okD(2)[OF ok(2)] by (simp add: prod_scale_def numeric_consts)
    moreover obtain zx zy where "num_val x * 10 ^ dscale x = of_int zx" "num_val y * 10 ^ dscale y = of_int zy"
      using num_val_int10[OF ok(1) order_refl] num_val_int10[OF ok(2) order_refl] by blast
    moreover have "(num_val x * num_val y) * 10 ^ (dscale x + dscale y) = (num_val x * 10 ^ dscale x) * (num_val y * 10 ^ dscale y)"
      by (simp add: power_add)
    ultimately have "(num_val x * num_val y) * 10 ^ nat ?p = of_int (zx * zy)" by simp
    hence "trunc_to (nat ?p) (num_val x * num_val y) = num_val x * num_val y" by (rule trunc_to_exact)
    thus ?thesis by simp
  next
    case False
    hence "20 \<le> nat ?p" by (simp add: prod_scale_def numeric_consts)
    thus ?thesis by (rule numeric_result_trunc)
  qed
  ultimately show ?thesis using num_fin_valid x y by (simp add: numeric_multiply_def)
qed

lemma numeric_divide_result:
  assumes x: "num_fin x" and y: "num_fin y" and nz: "num_val y \<noteq> 0"
  shows "\<exists>r. numeric_divide stk1 stk2 mval alias block z x y = Some r \<and> numeric_result r (num_val x / num_val y)"
proof -
  note ok = num_norm_ok[OF num_fin_norm[OF x]] num_norm_ok[OF num_fin_norm[OF y]]
  note b = num_fin_bounds[OF x] num_fin_bounds[OF y]
  have "num_int y \<noteq> 0" using nz by (auto simp: num_val_def num_mag_def split: if_splits)
  moreover have "div_room x y NUMERIC_MAX_SCALE_INT" "n_len x + n_scale y + 1 + NUMERIC_MAX_SCALE_INT \<le> NUMERIC_STACK_BYTES"
    using b by (auto simp: div_room_def numeric_consts)
  ultimately obtain q where q: "num_divide stk1 stk2 mval alias block z x y NUMERIC_MAX_SCALE_INT = Some (0, q)" "num_norm q"
      "num_val q = trunc_to (nat NUMERIC_MAX_SCALE_INT) (num_val x / num_val y)" "num_is_zero q \<longrightarrow> n_neg q = 0"
    using num_divide_val[OF ok] by blast
  have "numeric_result (numeric_normalize q) (num_val q)" by (rule numeric_normalize_result) (use q in simp_all)
  hence "numeric_result (numeric_normalize q) (num_val x / num_val y)"
    using numeric_result_trunc[of "nat NUMERIC_MAX_SCALE_INT"] q(3) by (simp add: numeric_consts)
  thus ?thesis using q(1) num_fin_valid x y by (simp add: numeric_divide_def)
qed

lemma numeric_divide_zero:
  assumes x: "num_fin x" and y: "num_fin y" and z0: "num_val y = 0"
  shows "numeric_divide stk1 stk2 mval alias block z x y = Some (fst (numeric_inf z (n_neg x)), NUMERIC_STS_DIVIDE_ZERO)"
proof -
  have "num_int y = 0" using z0 num_mag_zero[OF num_norm_ok[OF num_fin_norm[OF y]]] by (simp add: num_val_def split: if_splits)
  hence "num_is_zero y" using num_fin_zero[OF y] by simp
  thus ?thesis using num_fin_valid x y by (simp add: numeric_divide_def num_divide_def)
qed

subsection \<open>Rounding\<close>

text \<open>Rounding to a number of decimals, halves away from zero.\<close>

definition round_to :: "nat \<Rightarrow> real \<Rightarrow> real" where
  "round_to k x = sgn x * of_int \<lfloor>\<bar>x\<bar> * 10 ^ k + 1 / 2\<rfloor> / 10 ^ k"

lemma half_number:
  assumes t: "t = (numeric_init_static buf)\<lparr>n_value := (mem_set (n_value (numeric_init_static buf)) 0 0 (int k))(int k := 5),
                      n_scale := int k + 1, n_neg := s\<rparr>" and s: "s = 0 \<or> s = 1"
  shows "num_norm t" "num_mag t = 1 / 2 / 10 ^ k" "n_len t = 0" "n_scale t = int k + 1" "n_neg t = s"
proof -
  show h: "n_len t = 0" "n_scale t = int k + 1" "n_neg t = s" by (simp_all add: t numeric_init_static_def NUM_SET_0_def)
  have v: "n_value t i = (if i = int k then 5 else 0)" if "0 \<le> i" "i < int (Suc k)" for i
    using that by (auto simp: t mem_set_def)
  have d: "dlen t = 0" "dscale t = Suc k" using h by (auto simp: dlen_def dscale_def nat_add_distrib)
  have "digits (n_value t) 0 (Suc k)" using v by (auto simp: digits_def)
  thus "num_norm t" using h s d by (simp add: num_norm_def num_ok_def) (simp add: t numeric_init_static_def NUM_SET_0_def)
  have "dval (n_value t) 0 k = 0" by (rule dval_zeros) (simp add: v)
  hence "num_int t = 5" using v[of "int k"] by (simp add: num_int_def d)
  thus "num_mag t = 1 / 2 / 10 ^ k" by (simp add: num_mag_def d)
qed

lemma trunc_half:
  assumes n: "num_ok n" and k: "k < dscale n" and d: "n_value n (n_len n + int k) < 5"
  shows "\<lfloor>num_mag n * 10 ^ k + 1 / 2\<rfloor> = \<lfloor>num_mag n * 10 ^ k\<rfloor>"
proof -
  let ?v = "n_value n" and ?d = "n_value n (n_len n + int k)"
  have l: "n_len n + int k = int (dlen n + k)" using num_okD(1)[OF n] by simp
  note a = num_mag_split[OF n, of k] and b = num_mag_split[OF n, of "Suc k"]
  have "num_mag n * 10 ^ Suc k < of_int (dval ?v 0 (dlen n + Suc k)) + 1" using b(1,3) k by linarith
  moreover have "dval ?v 0 (dlen n + Suc k) = 10 * dval ?v 0 (dlen n + k) + ?d" by (simp add: l)
  moreover have "?d \<le> 4" using d by simp
  ultimately have "num_mag n * 10 ^ Suc k < 10 * of_int (dval ?v 0 (dlen n + k)) + 5" by (simp del: power_Suc)
  hence lt: "num_mag n * 10 ^ k < of_int (dval ?v 0 (dlen n + k)) + 1 / 2" by simp
  have ge: "of_int (dval ?v 0 (dlen n + k)) \<le> num_mag n * 10 ^ k" using a(1,2) k by linarith
  have "\<lfloor>num_mag n * 10 ^ k + 1 / 2\<rfloor> = dval ?v 0 (dlen n + k)" using lt ge by (intro floor_unique) auto
  moreover have "\<lfloor>num_mag n * 10 ^ k\<rfloor> = dval ?v 0 (dlen n + k)" using lt ge by (intro floor_unique) auto
  ultimately show ?thesis by simp
qed

text \<open>The precision and scale a conversion works with.\<close>

definition eff_prec :: "int \<Rightarrow> int" where
  "eff_prec new_prec = max 0 (min NUMERIC_MAX_PRECISION new_prec)"

definition eff_scale :: "int \<Rightarrow> int \<Rightarrow> numeric \<Rightarrow> nat" where
  "eff_scale new_prec new_scale x = nat (min (max 0 (min NUMERIC_MAX_SCALE new_scale)) (eff_prec new_prec - n_len x))"

lemma round_to_exact: "x * 10 ^ k = of_int z \<Longrightarrow> round_to k x = x"
proof -
  assume z: "x * 10 ^ k = of_int z"
  hence "\<bar>x\<bar> * 10 ^ k = of_int \<bar>z\<bar>" by (metis abs_mult abs_of_nonneg of_int_abs zero_le_numeral zero_le_power)
  hence "\<lfloor>\<bar>x\<bar> * 10 ^ k + 1 / 2\<rfloor> = \<bar>z\<bar>" by (intro floor_unique) auto
  hence "round_to k x = sgn x * (of_int \<bar>z\<bar> / 10 ^ k)" by (simp add: round_to_def)
  also have "of_int \<bar>z\<bar> / 10 ^ k = \<bar>x\<bar>" using \<open>\<bar>x\<bar> * 10 ^ k = of_int \<bar>z\<bar>\<close> by (simp add: field_simps)
  finally show ?thesis by (simp add: sgn_mult_abs)
qed

lemma round_to_val:
  assumes n: "num_ok n" and m: "num_mag r = of_int \<lfloor>num_mag n * 10 ^ k + 1 / 2\<rfloor> / 10 ^ k" and s: "n_neg r = n_neg n"
  shows "num_val r = round_to k (num_val n)"
proof (cases "num_mag n = 0")
  case True
  have "\<lfloor>1 / 2 :: real\<rfloor> = 0" by (intro floor_unique) auto
  thus ?thesis using True m by (simp add: num_val_def round_to_def)
next
  case False
  hence "0 < num_mag n" using num_mag_nonneg[OF n] by simp
  thus ?thesis using m s by (auto simp: num_val_def round_to_def sgn_if)
qed

lemma num_norm_less_pow:
  assumes n: "num_norm n" shows "\<bar>num_val n\<bar> < 10 ^ l \<longleftrightarrow> dlen n \<le> l"
proof
  assume "\<bar>num_val n\<bar> < 10 ^ l"
  thus "dlen n \<le> l" unfolding int_digits_norm[OF n, symmetric] int_digits_def by (rule Least_le)
next
  assume "dlen n \<le> l"
  hence "(10 :: real) ^ dlen n \<le> 10 ^ l" by (intro power_increasing) auto
  thus "\<bar>num_val n\<bar> < 10 ^ l" using num_mag_len(1)[OF n] num_val_abs[OF num_norm_ok[OF n]] by linarith
qed

lemma numeric_rescale_up:
  assumes x: "num_norm x" "n_len x \<le> 40" "n_scale x \<le> 20" and k: "int k < n_scale x" and up: "n_value x (n_len x + int k) \<ge> 5"
    and t: "t = (numeric_init_static buf)\<lparr>n_value := (mem_set (n_value (numeric_init_static buf)) 0 0 (int k))(int k := 5),
                      n_scale := int k + 1, n_neg := n_neg x\<rparr>"
    and r: "r = num_add alias block n x t (int k)"
  shows "num_norm r" "num_mag r = num_mag x + 1 / 2 / 10 ^ k" "n_neg r = n_neg x" "int k < n_scale r"
proof -
  note ok = num_norm_ok[OF x(1)]
  note h = half_number[OF t num_okD(4)[OF ok]]
  have room: "add_room x t (int k)" "num_room x t (int k)" using x(2,3) k h(3,4) num_okD(1)[OF ok] by (auto simp: add_room_def num_room_def numeric_consts)
  note a = num_add_int_mag[OF ok num_norm_ok[OF h(1)] room refl, of "alias" block n]
  have rr: "r = (num_add_int alias block n x t (int k))\<lparr>n_neg := n_neg x\<rparr>" using r h(5) by (simp add: num_add_def)
  show "num_norm r" "num_mag r = num_mag x + 1 / 2 / 10 ^ k" "n_neg r = n_neg x"
    using a h(2) num_neg_update num_okD(4)[OF ok] by (auto simp: rr)
  show "int k < n_scale r" using a k by (simp add: rr)
qed

lemma numeric_rescale_correct_aux:
  assumes x: "num_norm x" "n_len x \<le> 40" "n_scale x \<le> 20" and fits: "n_len x \<le> eff_prec p"
    and k: "k = eff_scale p s x" and r: "r = numeric_rescale alias block buf n x p s"
  shows "(if \<bar>round_to k (num_val x)\<bar> < 10 ^ nat (eff_prec p)
     then snd r = NUMERIC_STS_SUCCESS \<and> num_norm (fst r) \<and> num_val (fst r) = round_to k (num_val x) \<and> n_scale (fst r) \<le> int k
       \<and> (n_scale (fst r) > 0 \<longrightarrow> n_value (fst r) (n_len (fst r) + n_scale (fst r) - 1) \<noteq> 0 \<or> fst r = num_assign n x)
     else num_is_inf (fst r) \<and> n_neg (fst r) = n_neg x)"
proof -
  note ok = num_norm_ok[OF x(1)] note f = num_okD[OF ok]
  have v: "\<not> num_is_invalid x" using f(3) by (simp add: num_is_invalid_def)
  have lead: "(if 1 = n_len x \<and> 0 = n_value x 0 then 1 else 0) = (0 :: int)" using x(1) by (auto simp: num_norm_def)
  have P: "eff_prec p \<le> 40" "0 \<le> eff_prec p" by (auto simp: eff_prec_def numeric_consts)
  have ks: "(if n_len x + max 0 (min NUMERIC_MAX_SCALE s) > eff_prec p + 0 then eff_prec p - n_len x else max 0 (min NUMERIC_MAX_SCALE s)) = int k"
    using fits by (auto simp: k eff_scale_def)
  note ex = r[unfolded numeric_rescale_def Let_def eff_prec_def[symmetric] lead ks]
  have small: "\<bar>num_val y\<bar> < 10 ^ nat (eff_prec p) \<longleftrightarrow> n_len y \<le> eff_prec p" if "num_norm y" for y
    using num_norm_less_pow[OF that, of "nat (eff_prec p)"] P num_okD(1)[OF num_norm_ok[OF that]] by (simp add: le_nat_iff)
  show ?thesis
  proof (cases "n_scale x > int k")
    case False
    have "r = (num_assign n x, NUMERIC_STS_SUCCESS)" using False v fits ex by simp
    moreover have "round_to k (num_val x) = num_val x"
      using num_val_int10[OF ok, of k] False f(2) round_to_exact by auto
    moreover have "n_len x + n_scale x \<le> NUMERIC_STACK_BYTES" using x by (simp add: numeric_consts)
    note as = num_assign_keeps[OF x(1) this refl, of n]
    ultimately show ?thesis using as small[OF x(1)] fits False by auto
  next
    case True
    define t where "t = (numeric_init_static buf)\<lparr>n_value := (mem_set (n_value (numeric_init_static buf)) 0 0 (int k))(int k := 5),
                      n_scale := int k + 1, n_neg := n_neg x\<rparr>"
    define up where "up \<longleftrightarrow> n_value x (n_len x + int k) \<ge> 5"
    define y where "y = (if up then num_add alias block n x t (int k) else num_assign n x)"
    have fitsx: "n_len x + n_scale x \<le> NUMERIC_STACK_BYTES" using x by (simp add: numeric_consts)
    note as = num_assign_keeps[OF x(1) fitsx refl, of n]
    note ru = numeric_rescale_up[OF x True _ t_def refl, of "alias" block n]
    have y: "num_norm y" "n_neg y = n_neg x" "int k < n_scale y"
      "num_mag y = (if up then num_mag x + 1 / 2 / 10 ^ k else num_mag x)"
      using ru as True by (auto simp: y_def up_def)
    define c where "c = y\<lparr>n_scale := int k\<rparr>"
    have kd: "k \<le> dscale y" using y(3) num_okD(2)[OF num_norm_ok[OF y(1)]] by simp
    note cut = num_cut[OF num_norm_ok[OF y(1)] kd c_def]
    have "num_mag c = of_int \<lfloor>num_mag x * 10 ^ k + 1 / 2\<rfloor> / 10 ^ k"
    proof (cases "up")
      case up: True
      have "(num_mag x + 1 / 2 / 10 ^ k) * 10 ^ k = num_mag x * 10 ^ k + 1 / 2" by (simp add: distrib_right)
      thus ?thesis using cut(3) y(4) up num_mag_nonneg[OF ok] by (simp add: trunc_to_nonneg)
    next
      case False
      have "k < dscale x" using True f(2) by simp
      thus ?thesis using trunc_half[OF ok] False cut(3) y(4) num_mag_nonneg[OF ok] by (simp add: up_def trunc_to_nonneg)
    qed
    hence cv: "num_val c = round_to k (num_val x)" using round_to_val[OF ok] y(2) by (simp add: c_def)
    have cn: "num_norm c" "n_len c = n_len y" "n_scale c = int k" "n_neg c = n_neg x" using cut(2)[OF y(1)] y(2) by (simp_all add: c_def)
    define j where "j = strip_zeros (dscale c) (n_value c) (n_len c + n_scale c - 1)"
    note st = num_strip[OF num_norm_ok[OF cn(1)] j_def refl]
    have rr: "r = (if up \<and> n_len y > eff_prec p then numeric_inf y (n_neg y)
        else (if n_scale c \<noteq> 0 then c\<lparr>n_scale := int j\<rparr> else c, NUMERIC_STS_SUCCESS))"
      using True v fits ex unfolding t_def[symmetric] up_def[symmetric] y_def[symmetric] c_def[symmetric] dscale_def[symmetric] j_def[symmetric]
      by simp
    show ?thesis
    proof (cases "n_len y \<le> eff_prec p")
      case le: True
      hence "\<bar>round_to k (num_val x)\<bar> < 10 ^ nat (eff_prec p)" using small[OF cn(1)] cn(2) cv by simp
      moreover have "num_val (c\<lparr>n_scale := int j\<rparr>) = num_val c" using st(4) by (simp add: num_val_def)
      ultimately show ?thesis using rr le st cn cv num_okD(2)[OF num_norm_ok[OF cn(1)]] by auto
    next
      case gt: False
      hence "\<not> \<bar>round_to k (num_val x)\<bar> < 10 ^ nat (eff_prec p)" using small[OF cn(1)] cn(2) cv by simp
      moreover have "up" using gt fits as(4) by (auto simp: y_def split: if_splits)
      ultimately show ?thesis using rr gt y(2) f(4) by (auto simp: numeric_inf_def num_is_inf_def numeric_consts)
    qed
  qed
qed

subsection \<open>Every operation returns a number in its final form\<close>

lemma num_special_cases:
  "num_special n \<Longrightarrow> num_is_invalid n"
  "num_special (fst (numeric_nan z))" "num_special (fst (numeric_inf z s))"
  by (auto simp: num_special_def num_is_invalid_def numeric_nan_def numeric_inf_def NUM_SET_0_def numeric_consts)

lemma numeric_result_ok: "numeric_result r x \<Longrightarrow> numeric_ok (fst r)"
  by (auto simp: numeric_result_def numeric_ok_def split: if_splits)

lemma numeric_ok_cases:
  assumes "numeric_ok n" obtains "num_fin n" "\<not> num_is_invalid n" | "num_special n" "num_is_invalid n"
  using assms num_fin_valid num_special_cases(1) by (auto simp: numeric_ok_def)

lemma num_0_fin: "num_fin (NUM_SET_0 n)"
  using num_0_norm(1)[of n] by (simp add: num_fin_def NUM_SET_0_def numeric_consts)

lemma numeric_add_ok: "numeric_ok x \<Longrightarrow> numeric_ok y \<Longrightarrow> numeric_ok (fst (numeric_add alias block z x y))"
proof (erule numeric_ok_cases, goal_cases)
  case 1
  show ?case
  proof (cases rule: numeric_ok_cases[OF 1(1)])
    case 1
    thus ?thesis using numeric_result_ok[OF numeric_add_result[OF \<open>num_fin x\<close> 1(1)]] by simp
  next
    case 2
    thus ?thesis using \<open>\<not> num_is_invalid x\<close> num_special_cases(2,3) by (auto simp: numeric_add_def numeric_ok_def)
  qed
next
  case 2
  thus ?case using num_special_cases(2,3) by (auto simp: numeric_add_def numeric_ok_def)
qed

lemma numeric_multiply_ok: "numeric_ok x \<Longrightarrow> numeric_ok y \<Longrightarrow> numeric_ok (fst (numeric_multiply alias block z x y))"
proof (erule numeric_ok_cases, goal_cases)
  case 1
  show ?case
  proof (cases rule: numeric_ok_cases[OF 1(1)])
    case 1
    thus ?thesis using numeric_result_ok[OF numeric_multiply_result[OF \<open>num_fin x\<close> 1(1)]] by simp
  next
    case 2
    thus ?thesis using \<open>\<not> num_is_invalid x\<close> num_special_cases(2,3) by (auto simp: numeric_multiply_def numeric_ok_def)
  qed
next
  case 2
  thus ?case using num_special_cases(2,3) by (auto simp: numeric_multiply_def numeric_ok_def)
qed

lemma numeric_divide_ok:
  "numeric_ok x \<Longrightarrow> numeric_ok y \<Longrightarrow> \<exists>r. numeric_divide stk1 stk2 mval alias block z x y = Some r \<and> numeric_ok (fst r)"
proof (erule numeric_ok_cases, goal_cases)
  case 1
  show ?case
  proof (cases rule: numeric_ok_cases[OF 1(1)])
    case 1
    show ?thesis
    proof (cases "num_val y = 0")
      case True
      thus ?thesis using numeric_divide_zero[OF \<open>num_fin x\<close> 1(1)] num_special_cases(3) by (auto simp: numeric_ok_def)
    next
      case False
      thus ?thesis using numeric_divide_result[OF \<open>num_fin x\<close> 1(1)] numeric_result_ok by blast
    qed
  next
    case 2
    thus ?thesis using \<open>\<not> num_is_invalid x\<close> num_special_cases(2) num_0_fin by (auto simp: numeric_divide_def numeric_ok_def)
  qed
next
  case 2
  thus ?case using num_special_cases(2,3) by (auto simp: numeric_divide_def numeric_ok_def)
qed

lemma numeric_negate_fin:
  assumes x: "num_fin x" and r: "r = numeric_negate alias y x"
  shows "num_fin (fst r)" "num_val (fst r) = - num_val x" "snd r = NUMERIC_STS_SUCCESS"
proof -
  note b = num_fin_bounds[OF x]
  have fits: "n_len x + n_scale x \<le> NUMERIC_STACK_BYTES" using b by (simp add: numeric_consts)
  note as = num_assign_keeps[OF num_fin_norm[OF x] fits refl, of y]
  note eq = num_assign_eq[OF fits, of y]
  have r': "r = (if \<not> num_is_zero (num_assign y x) then (num_assign y x)\<lparr>n_neg := 1 - n_neg (num_assign y x)\<rparr> else num_assign y x, NUMERIC_STS_SUCCESS)"
    using num_fin_valid[OF x] by (simp add: r numeric_negate_def Let_def)
  have z: "num_is_zero (num_assign y x) \<longleftrightarrow> num_is_zero x" using as(4,5) by (simp add: num_is_zero_def)
  have last: "n_scale x > 0 \<Longrightarrow> n_value (num_assign y x) (n_len x + n_scale x - 1) = n_value x (n_len x + n_scale x - 1)"
    using eq b by (auto simp: num_eq_def)
  have s: "n_neg x = 0 \<or> n_neg x = 1" using num_okD(4)[OF num_norm_ok[OF num_fin_norm[OF x]]] .
  have nn: "num_norm ((num_assign y x)\<lparr>n_neg := 1 - n_neg x\<rparr>)" using num_neg_update(1)[OF as(1)] s by auto
  show "num_fin (fst r)" using x z as nn last by (auto simp: r' num_fin_def num_is_zero_def)
  show "num_val (fst r) = - num_val x"
  proof (cases "num_is_zero x")
    case True
    hence "num_val x = 0" using num_is_zero_mag num_norm_ok[OF num_fin_norm[OF x]] by (simp add: num_val_def)
    thus ?thesis using True z as(3) by (simp add: r')
  next
    case False
    thus ?thesis using z as s by (auto simp: r' num_neg_update num_val_def)
  qed
  show "snd r = NUMERIC_STS_SUCCESS" by (simp add: r')
qed

lemma numeric_negate_ok: "numeric_ok x \<Longrightarrow> numeric_ok (fst (numeric_negate alias y x))"
proof (erule numeric_ok_cases, goal_cases)
  case 1
  thus ?case using numeric_negate_fin(1)[OF _ refl] by (simp add: numeric_ok_def)
next
  case 2
  thus ?case using num_special_cases(3) by (simp add: numeric_negate_def Let_def numeric_ok_def)
qed

subsection \<open>Properties\<close>

lemma small_num_fin: "num_fin num_1" "num_fin num_2" "num_fin num_0"
  by (simp_all add: num_fin_def num_norm_def num_ok_def num_1_def num_2_def num_0_def digits_def num_is_zero_def dlen_def dscale_def numeric_consts)

lemma small_num_val: "num_val num_1 = 1" "num_val num_2 = 2" "num_val num_0 = 0"
  by (simp_all add: num_val_def num_mag_def num_int_def num_1_def num_2_def num_0_def dlen_def dscale_def)

lemma small_num_sign: "n_neg num_1 = 0" "n_neg num_2 = 0" "n_neg num_0 = 0"
  by (simp_all add: num_1_def num_2_def num_0_def)



text \<open>
  C17. Multiplication. \<^verbatim>\<open>numeric_multiply\<close> of two finite numbers is their product, cut to the
  decimals that fit in the internal precision, or an overflow.
\<close>

theorem numeric_multiply_correct:
  assumes "num_fin x" "num_fin y"
  shows "numeric_result (numeric_multiply alias block z x y) (num_val x * num_val y)"
  by (rule numeric_multiply_result[OF assms])

theorem numeric_multiply_correct_witness:
  "num_fin num_2 \<and> numeric_result (numeric_multiply True num_0 num_2 num_2 num_2) 4"
  using numeric_multiply_correct[OF small_num_fin(2,2), of True num_0 num_2] small_num_fin by (simp add: small_num_val)

text \<open>
  C18. Division. The long division with guessed digits of \<^verbatim>\<open>num_divide\<close> never scans past the divisor
  nor fails an assertion on finite numbers: \<^verbatim>\<open>numeric_divide\<close> returns, the result is the quotient
  truncated to the decimals that fit, or an overflow; a zero divisor gives
  \<^verbatim>\<open>NUMERIC_STS_DIVIDE_ZERO\<close> and an infinity with the sign of the dividend.
\<close>

theorem numeric_divide_correct:
  assumes "num_fin x" "num_fin y"
  shows "\<exists>r. numeric_divide stk1 stk2 mval alias block z x y = Some r
    \<and> (if num_val y = 0 then snd r = NUMERIC_STS_DIVIDE_ZERO \<and> num_is_inf (fst r) \<and> n_neg (fst r) = n_neg x
       else numeric_result r (num_val x / num_val y))"
proof (cases "num_val y = 0")
  case True
  have "n_neg x = 0 \<or> n_neg x = 1" using num_okD(4)[OF num_norm_ok[OF num_fin_norm[OF assms(1)]]] .
  thus ?thesis using numeric_divide_zero[OF assms True] True by (auto simp: numeric_inf_def num_is_inf_def numeric_consts)
next
  case False
  thus ?thesis using numeric_divide_result[OF assms False] by auto
qed

theorem numeric_divide_correct_witness:
  "num_fin num_1 \<and> num_fin num_2 \<and> (\<exists>r. numeric_divide (\<lambda>_. 7) (\<lambda>_. 7) (\<lambda>_. 7) False num_0 num_0 num_1 num_2 = Some r \<and> numeric_result r (1 / 2))"
  using numeric_divide_correct[OF small_num_fin(1,2), of "\<lambda>_. 7" "\<lambda>_. 7" "\<lambda>_. 7" False num_0 num_0] small_num_fin
  by (simp add: small_num_val)

text \<open>
  C19. Comparison. On finite numbers \<^verbatim>\<open>numeric_compare\<close> is the sign of the difference of the values,
  so it is a total order that does not depend on the scale the numbers are stored with.
\<close>

theorem numeric_compare_correct:
  assumes "num_fin x" "num_fin y"
  shows "numeric_compare x y = (if num_val x < num_val y then - 1 else if num_val x > num_val y then 1 else 0)"
  using num_compare_val[OF num_fin_norm[OF assms(1)] num_fin_norm[OF assms(2)] num_fin_no_minus_zero[OF assms(1)] num_fin_no_minus_zero[OF assms(2)]]
    num_fin_valid assms by (simp add: numeric_compare_def cmp_sign_def)

theorem numeric_compare_correct_witness:
  "num_fin num_1 \<and> num_fin num_2 \<and> numeric_compare num_1 num_2 = - 1 \<and> numeric_compare num_2 num_1 = 1"
  using numeric_compare_correct[OF small_num_fin(1,2)] numeric_compare_correct[OF small_num_fin(2,1)] small_num_fin
  by (simp add: small_num_val)







text \<open>
  C23. The zeros that a minimal scale adds. \<^verbatim>\<open>numeric_subtract\<close> asks \<^verbatim>\<open>_num_add_int\<close> for at least 20
  decimals when the signs differ, but \<^verbatim>\<open>NUM_SET_0_REST\<close> clears the digits only up to offset 43: the
  difference of 10 to the 29th and -1 depends on what the memory of the result held before.
\<close>

definition filled :: "int \<Rightarrow> numeric" where
  "filled c = \<lparr>n_len = 0, n_scale = 0, n_invalid = 0, n_neg = 0, n_value = (\<lambda>_. c)\<rparr>"

definition ten_29 :: numeric where
  "ten_29 = \<lparr>n_len = 30, n_scale = 0, n_invalid = 0, n_neg = 0, n_value = (\<lambda>_. 0)(0 := 1)\<rparr>"

definition minus_1 :: numeric where
  "minus_1 = num_1\<lparr>n_neg := 1\<rparr>"


end
