(* ===== verification/Clib.thy ===== *)
theory Clib
  imports Prelude Complex_Main
begin

text \<open>
  What the sources use of C and its library: integers that wrap around, division that rounds
  towards zero, character classes of the C locale, strings as lists of characters without the
  final NUL, buffers as lists of their size.
\<close>

subsection \<open>Integers\<close>

definition INT32_MAX :: int where "INT32_MAX = 2147483647"
definition INT64_MAX :: int where "INT64_MAX = 9223372036854775807"

text \<open>The value a signed variable with largest value \<open>m\<close> holds.\<close>

definition wrap :: "int \<Rightarrow> int \<Rightarrow> int" where
  "wrap m x = (x + m + 1) mod (2 * (m + 1)) - (m + 1)"

lemma wrap_max: "wrap m (m + 1) = - m - 1"
proof -
  have "m + 1 + m + 1 = 2 * (m + 1)" by simp
  thus ?thesis unfolding wrap_def by (simp only: mod_self)
qed

lemma wrap_id: "- m - 1 \<le> x \<Longrightarrow> x \<le> m \<Longrightarrow> wrap m x = x"
  by (simp add: wrap_def)

lemma sdiv_nonneg [simp]: "0 \<le> a \<Longrightarrow> 0 \<le> b \<Longrightarrow> a sdiv b = a div (b :: int)"
  by (cases "a = 0"; cases "b = 0") (simp_all add: signed_divide_int_def)

lemma smod_nonneg [simp]: "0 \<le> a \<Longrightarrow> 0 \<le> b \<Longrightarrow> a smod b = a mod (b :: int)"
  by (cases "a = 0") (simp_all add: smod_int_alt_def)

subsection \<open>Memory and characters\<close>

fun memcmp :: "int list \<Rightarrow> int list \<Rightarrow> int" where
  "memcmp (a # as) (b # bs) = (if a = b then memcmp as bs else a - b)"
| "memcmp as bs = 0"

definition isspace :: "char \<Rightarrow> bool" where
  "isspace c \<longleftrightarrow> c \<in> {CHR '' '', CHR 0x09, CHR 0x0A, CHR 0x0B, CHR 0x0C, CHR 0x0D}"

definition isdigit :: "char \<Rightarrow> bool" where
  "isdigit c \<longleftrightarrow> 48 \<le> (of_char c :: nat) \<and> (of_char c :: nat) \<le> 57"

definition digit_of :: "char \<Rightarrow> int" where
  "digit_of c = of_char c - 48"

definition toupper :: "char \<Rightarrow> char" where
  "toupper c = (if 97 \<le> (of_char c :: nat) \<and> (of_char c :: nat) \<le> 122 then char_of ((of_char c :: nat) - 32) else c)"

definition stricmp_eq :: "string \<Rightarrow> string \<Rightarrow> bool" where
  "stricmp_eq s t \<longleftrightarrow> map toupper s = map toupper t"

definition skip_space :: "string \<Rightarrow> string" where
  "skip_space cp = dropWhile isspace cp"

definition head_is :: "char \<Rightarrow> string \<Rightarrow> bool" where
  "head_is c cp \<longleftrightarrow> cp \<noteq> [] \<and> hd cp = c"

text \<open>The value of a digit string; \<^verbatim>\<open>atoi\<close> reads it as a 64-bit integer that stays at its bounds and keeps 32 bits.\<close>

definition digits_value :: "string \<Rightarrow> int" where
  "digits_value s = foldl (\<lambda>v c. 10 * v + digit_of c) 0 s"

definition atoi :: "string \<Rightarrow> int" where
  "atoi s =
     (let s = skip_space s; neg = head_is (CHR ''-'') s;
          s = (if neg \<or> head_is (CHR ''+'') s then tl s else s);
          v = digits_value (takeWhile isdigit s);
          v = (if neg then max (- INT64_MAX - 1) (- v) else min INT64_MAX v)
      in wrap INT32_MAX v)"

subsection \<open>Strings in buffers\<close>

definition strcpy_size_ck :: "string \<Rightarrow> string \<Rightarrow> nat \<Rightarrow> string" where
  "strcpy_size_ck dest src sz =
     (take (sz - 1) (src @ replicate sz (CHR 0x00)) @ drop (sz - 1) dest)[sz - 1 := CHR 0x00]"

definition cstr :: "string \<Rightarrow> string" where
  "cstr buf = takeWhile (\<lambda>c. c \<noteq> CHR 0x00) buf"

lemma strcpy_size_ck_cstr: "CHR 0x00 \<notin> set s \<Longrightarrow> length s < sz \<Longrightarrow> sz \<le> length str \<Longrightarrow> cstr (strcpy_size_ck str s sz) = s"
proof -
  assume a: "CHR 0x00 \<notin> set s" "length s < sz" "sz \<le> length str"
  let ?l = "take (sz - 1) (s @ replicate sz (CHR 0x00)) @ drop (sz - 1) str"
  let ?u = "?l[sz - 1 := CHR 0x00]"
  have l: "length ?l = length str" using a by simp
  have t: "take (length s) ?u = s" using a by (simp add: take_update_cancel)
  have n: "?u ! length s = CHR 0x00" using a l by (cases "length s = sz - 1") (auto simp: nth_append)
  have "?u = s @ CHR 0x00 # drop (Suc (length s)) ?u" using id_take_nth_drop[of "length s" ?u] t n a l by simp
  hence "strcpy_size_ck str s sz = s @ CHR 0x00 # drop (Suc (length s)) ?u" by (simp only: strcpy_size_ck_def)
  thus ?thesis unfolding cstr_def using a(1) by (simp only:) (subst takeWhile_append2, auto)
qed

end
