(* ===== verification/Num_Conv.thy ===== *)
theory Num_Conv
  imports Num_Api Clib "HOL-Library.Word"
begin

text \<open>
  Conversions of \<^verbatim>\<open>libsrc/Wi/numeric.c\<close>: machine integers, the marshalled form (tag, length, flags, number
  of bytes before the decimal point, packed decimal digits) and the hash code. Signed machine
  arithmetic that may overflow is written with its wrap-around.
\<close>

unbundle bit_operations_syntax

subsection \<open>From machine integers\<close>

function extract_digits :: "int \<Rightarrow> int list \<Rightarrow> int list" where
  "extract_digits val buffer =
     (if val \<le> 0 then buffer else extract_digits (val div 10) (val mod 10 # buffer))"
  by auto
termination by (relation "measure (\<lambda>(val, buffer). nat val)") auto

declare extract_digits.simps [simp del]

definition store_digits :: "(int \<Rightarrow> int) \<Rightarrow> int list \<Rightarrow> int \<Rightarrow> int" where
  "store_digits v ds = (\<lambda>i. if 0 \<le> i \<and> i < int (length ds) then ds ! nat i else v i)"

text \<open>
  The part of the conversions after the special cases; the buffer the source fills from its start
  and reads from its end is a list with the last digit stored first.
\<close>

definition numeric_from_magnitude :: "numeric \<Rightarrow> int \<Rightarrow> numeric" where
  "numeric_from_magnitude num val =
     (let neg = (if val < 0 then 1 else 0);
          val = (if val < 0 then - val else val);
          buffer = extract_digits (val div 10) [val mod 10]
      in num\<lparr>n_len := int (length buffer), n_scale := 0, n_invalid := 0, n_neg := neg,
             n_value := store_digits (n_value num) buffer\<rparr>)"

definition numeric_from_int32 :: "numeric \<Rightarrow> int \<Rightarrow> numeric \<times> int" where
  "numeric_from_int32 num val =
     (if val = - 1 then ((NUM_SET_1 num)\<lparr>n_neg := 1\<rparr>, NUMERIC_STS_SUCCESS)
      else if val = 0 then (NUM_SET_0 num, NUMERIC_STS_SUCCESS)
      else if val = 1 then (NUM_SET_1 num, NUMERIC_STS_SUCCESS)
      else if val = - INT32_MAX - 1 then
        let num = numeric_from_magnitude num (val + 1)
        in (num\<lparr>n_value := (n_value num)(n_len num - 1 := n_value num (n_len num - 1) + 1)\<rparr>, NUMERIC_STS_SUCCESS)
      else (numeric_from_magnitude num val, NUMERIC_STS_SUCCESS))"

definition numeric_from_int64 :: "numeric \<Rightarrow> int \<Rightarrow> numeric \<times> int" where
  "numeric_from_int64 num val =
     (if val = - 1 then ((NUM_SET_1 num)\<lparr>n_neg := 1\<rparr>, NUMERIC_STS_SUCCESS)
      else if val = 0 then (NUM_SET_0 num, NUMERIC_STS_SUCCESS)
      else if val = 1 then (NUM_SET_1 num, NUMERIC_STS_SUCCESS)
      else if val = - INT64_MAX - 1 then
        let num = numeric_from_magnitude num (val + 1)
        in (num\<lparr>n_value := (n_value num)(n_len num - 1 := n_value num (n_len num - 1) + 1)\<rparr>, NUMERIC_STS_SUCCESS)
      else (numeric_from_magnitude num val, NUMERIC_STS_SUCCESS))"

subsection \<open>To machine integers\<close>

text \<open>The accumulation of digits in an integer with largest value \<open>m\<close>.\<close>

fun to_int_loop :: "int \<Rightarrow> nat \<Rightarrow> (int \<Rightarrow> int) \<Rightarrow> int \<Rightarrow> int \<Rightarrow> int \<times> nat" where
  "to_int_loop m 0 v nptr val = (val, 0)"
| "to_int_loop m (Suc index) v nptr val =
     (if val \<le> m div 10 then to_int_loop m index v (nptr + 1) (wrap m (10 * val + v nptr))
      else (val, Suc index))"

definition numeric_to_int :: "int \<Rightarrow> numeric \<Rightarrow> int \<times> int" where
  "numeric_to_int m n =
     (case to_int_loop m (nat (n_len n)) (n_value n) 0 0 of
        (val, index) \<Rightarrow>
          if index > 0 then (0, NUMERIC_STS_MARSHALLING)
          else if val = - m - 1 then
            let val = wrap m (- val) in (if n_neg n \<noteq> 0 then wrap m (- val) else val, NUMERIC_STS_SUCCESS)
          else if val < 0 then (0, NUMERIC_STS_MARSHALLING)
          else (if n_neg n \<noteq> 0 then - val else val, NUMERIC_STS_SUCCESS))"

definition numeric_to_int32 :: "numeric \<Rightarrow> int \<times> int" where
  "numeric_to_int32 n = numeric_to_int INT32_MAX n"

definition numeric_to_int64 :: "numeric \<Rightarrow> int \<times> int" where
  "numeric_to_int64 n = numeric_to_int INT64_MAX n"

subsection \<open>The marshalled form\<close>

definition DV_NUMERIC :: int where "DV_NUMERIC = 219"
definition NDF_LEAD0 :: int where "NDF_LEAD0 = 4"
definition NDF_TRAIL0 :: int where "NDF_TRAIL0 = 2"
definition NDF_NEG :: int where "NDF_NEG = 1"
definition NDV_TAG :: nat where "NDV_TAG = 0"
definition NDV_LEN :: nat where "NDV_LEN = 1"
definition NDV_FLAGS :: nat where "NDV_FLAGS = 2"
definition NDV_L :: nat where "NDV_L = 3"
definition NDV_DATA :: nat where "NDV_DATA = 4"

lemmas numeric_dv_consts = DV_NUMERIC_def NDF_LEAD0_def NDF_TRAIL0_def NDF_NEG_def NDV_TAG_def NDV_LEN_def
  NDV_FLAGS_def NDV_L_def NDV_DATA_def

fun dv_pack :: "nat \<Rightarrow> (int \<Rightarrow> int) \<Rightarrow> int \<Rightarrow> int \<Rightarrow> int list" where
  "dv_pack 0 v cp ep = []"
| "dv_pack (Suc k) v cp ep =
     (let hi = (if cp \<ge> ep then 0 else push_bit 4 (v cp)); cp = (if cp \<ge> ep then cp else cp + 1);
          lo = (if cp \<ge> ep then 0 else v cp); cp = (if cp \<ge> ep then cp else cp + 1)
      in (hi OR lo) # dv_pack k v cp ep)"

text \<open>The bytes written, from the tag on, and the status.\<close>

definition numeric_to_dv :: "numeric \<Rightarrow> int list \<times> int" where
  "numeric_to_dv n =
     (let n1 = n_len n; n2 = n_scale n; ep = n1 + n2;
          flags = (if n_neg n \<noteq> 0 then NDF_NEG else 0) OR (if odd n1 then NDF_LEAD0 else 0)
                    OR (if odd n2 then NDF_TRAIL0 else 0) OR n_invalid n;
          l = (n1 + 1) div 2;
          lead = (if odd n1 then [n_value n 0] else []);
          cp = (if odd n1 then 1 else 0);
          n1 = (if odd n1 then n1 - 1 else n1);
          body = dv_pack (nat ((n1 + n2 + 1) div 2)) (n_value n) cp ep;
          bytes = int (length lead + length body) + 2
      in (DV_NUMERIC # (bytes mod 256) # flags # l # lead @ body,
          if bytes > 255 then NUMERIC_STS_MARSHALLING else NUMERIC_STS_SUCCESS))"

definition numeric_dv_len :: "numeric \<Rightarrow> int" where
  "numeric_dv_len n = 2 + fst (numeric_to_dv n) ! NDV_LEN"

fun dv_unpack :: "nat \<Rightarrow> int list \<Rightarrow> nat \<Rightarrow> (int \<Rightarrow> int) \<Rightarrow> int \<Rightarrow> int \<Rightarrow> int" where
  "dv_unpack 0 buf rp v dp = v"
| "dv_unpack (Suc k) buf rp v dp =
     dv_unpack k buf (rp + 1) (v(dp := drop_bit 4 (buf ! rp), dp + 1 := buf ! rp AND 15)) (dp + 2)"

text \<open>The length and the scale are of type \<^verbatim>\<open>char\<close>, which holds -128 to 127.\<close>

definition dv_header :: "numeric \<Rightarrow> int list \<Rightarrow> numeric" where
  "dv_header n buf =
     n\<lparr>n_len := wrap 127 (2 * buf ! NDV_L), n_scale := wrap 127 (2 * (buf ! NDV_LEN - buf ! NDV_L - 2)),
       n_neg := (if buf ! NDV_FLAGS AND NDF_NEG \<noteq> 0 then 1 else 0),
       n_invalid := buf ! NDV_FLAGS AND (NDF_NAN OR NDF_INF)\<rparr>"

definition dv_digits :: "numeric \<Rightarrow> int list \<Rightarrow> numeric" where
  "dv_digits n buf =
     (let rp = NDV_DATA; ep = int NDV_FLAGS + buf ! NDV_LEN;
          lead = (buf ! NDV_FLAGS AND NDF_LEAD0 \<noteq> 0);
          v = (if lead then (n_value n)(0 := buf ! rp AND 15) else n_value n);
          dp = (if lead then 1 else 0);
          rp = (if lead then rp + 1 else rp);
          n = (if lead then n\<lparr>n_len := n_len n - 1\<rparr> else n);
          n = (if buf ! NDV_FLAGS AND NDF_TRAIL0 \<noteq> 0 then n\<lparr>n_scale := n_scale n - 1\<rparr> else n)
      in n\<lparr>n_value := dv_unpack (nat (ep - int rp)) buf rp v dp\<rparr>)"

text \<open>
  The size check of \<^verbatim>\<open>numeric_from_dv\<close> subtracts the size of a pointer, 8, and adds that of the digits
  in the structure, 4. The result is \<^const>\<open>None\<close> when the assertion on the tag fails.
\<close>

definition numeric_from_dv :: "numeric \<Rightarrow> int list \<Rightarrow> int \<Rightarrow> (numeric \<times> int) option" where
  "numeric_from_dv n buf n_bytes =
     (if buf ! 0 \<noteq> DV_NUMERIC then None
      else
        let n = dv_header n buf; ep = int NDV_FLAGS + buf ! NDV_LEN in
        if (ep - int NDV_DATA) * 2 \<ge> n_bytes - 8 + 4 then Some (n, NUMERIC_STS_MARSHALLING)
        else Some (dv_digits n buf, NUMERIC_STS_SUCCESS))"

definition numeric_from_buf :: "numeric \<Rightarrow> int list \<Rightarrow> numeric \<times> int" where
  "numeric_from_buf n buf = (let buf = 0 # buf in (dv_digits (dv_header n buf) buf, NUMERIC_STS_SUCCESS))"

subsection \<open>Comparison of marshalled numbers\<close>

definition numeric_dv_compare :: "int list \<Rightarrow> int list \<Rightarrow> int option" where
  "numeric_dv_compare x y =
     (if x ! 0 \<noteq> DV_NUMERIC \<or> y ! 0 \<noteq> DV_NUMERIC then None else
      let nx = (x ! NDV_FLAGS AND NDF_NEG \<noteq> 0); ny = (y ! NDV_FLAGS AND NDF_NEG \<noteq> 0) in
      if nx \<and> \<not> ny then Some (- 1)
      else if \<not> nx \<and> ny then Some 1
      else
        let n1 = drop 3 x; n2 = drop 3 y; k = 1 + nat (min (hd n1) (hd n2));
            i = memcmp (take k n1) (take k n2) in
        if i \<noteq> 0 then Some (if i > 0 then 1 else - 1)
        else
          let l1 = nat (1 + hd n1); l2 = nat (1 + hd n2);
              f1 = int 2 + x ! NDV_LEN - int (3 + l1); f2 = int 2 + y ! NDV_LEN - int (3 + l2);
              k = nat (min f1 f2);
              i = memcmp (take k (drop l1 n1)) (take k (drop l2 n2)) in
          if i \<noteq> 0 then Some (if i > 0 then 1 else - 1)
          else if f1 - f2 \<noteq> 0 then Some (if f1 - f2 > 0 then 1 else - 1)
          else Some 0)"

subsection \<open>Attributes and hash code\<close>

definition numeric_precision :: "numeric \<Rightarrow> int" where
  "numeric_precision n = (let i = n_len n + n_scale n in if i \<noteq> 0 then i else 1)"

definition numeric_raw_precision :: "numeric \<Rightarrow> int" where
  "numeric_raw_precision n = n_len n + n_scale n"

definition numeric_scale :: "numeric \<Rightarrow> int" where
  "numeric_scale n = n_scale n"

definition numeric_sign :: "numeric \<Rightarrow> int" where
  "numeric_sign n = n_neg n"

fun hash_loop :: "nat \<Rightarrow> (int \<Rightarrow> int) \<Rightarrow> int \<Rightarrow> 32 word \<Rightarrow> 32 word" where
  "hash_loop 0 v inx code = code"
| "hash_loop (Suc k) v inx code =
     hash_loop k v (inx + 1) ((code * (word_of_int (v inx) + 3 + word_of_int inx)) XOR drop_bit 24 code)"

definition numeric_hash :: "numeric \<Rightarrow> 32 word" where
  "numeric_hash n = hash_loop (nat (n_len n + n_scale n)) (n_value n) 0 0xa3e2731b"

subsection \<open>Integers become the number with their value\<close>

definition lval :: "int list \<Rightarrow> int" where
  "lval ds = dval (\<lambda>i. ds ! nat i) 0 (length ds)"

lemma lval_Nil [simp]: "lval [] = 0"
  by (simp add: lval_def)

lemma lval_Cons [simp]: "lval (d # ds) = d * 10 ^ length ds + lval ds"
proof -
  have "dval (\<lambda>i. (d # ds) ! nat i) 1 (length ds) = dval (\<lambda>i. ds ! nat i) (1 + (- 1)) (length ds)"
    by (rule dval_cong) (simp add: nat_diff_distrib')
  thus ?thesis unfolding lval_def length_Cons dval_Cons by simp
qed

lemma lval_store: "dval (store_digits v ds) 0 (length ds) = lval ds"
  unfolding lval_def by (rule dval_same) (simp add: store_digits_def)

lemma digits_store: "(\<forall>d\<in>set ds. 0 \<le> d \<and> d \<le> 9) \<Longrightarrow> digits (store_digits v ds) 0 (length ds)"
  by (auto simp: digits_def store_digits_def)

lemma extract_digits_spec:
  "0 \<le> val \<Longrightarrow> \<forall>d\<in>set buf. 0 \<le> d \<and> d \<le> 9 \<Longrightarrow> buf \<noteq> [] \<Longrightarrow>
   lval (extract_digits val buf) = val * 10 ^ length buf + lval buf
   \<and> (\<forall>d\<in>set (extract_digits val buf). 0 \<le> d \<and> d \<le> 9) \<and> extract_digits val buf \<noteq> []
   \<and> (0 < val \<or> hd buf \<noteq> 0 \<longrightarrow> hd (extract_digits val buf) \<noteq> 0)"
proof (induction val buf rule: extract_digits.induct)
  case (1 val buf)
  show ?case
  proof (cases "val \<le> 0")
    case True
    thus ?thesis using 1(2-) by (subst (1 2 3 4) extract_digits.simps) auto
  next
    case False
    have m: "0 \<le> val mod 10" "val mod 10 \<le> 9" "0 \<le> val div 10" using False by auto
    have "\<forall>d\<in>set (val mod 10 # buf). 0 \<le> d \<and> d \<le> 9" using 1(3) m by simp
    note IH = 1(1)[OF False m(3) this list.distinct(2)]
    have eq: "extract_digits val buf = extract_digits (val div 10) (val mod 10 # buf)" using False by (subst extract_digits.simps) simp
    have nz: "0 < val div 10 \<or> hd (val mod 10 # buf) \<noteq> 0" unfolding list.sel using False by presburger
    have "val div 10 * 10 ^ Suc (length buf) + (val mod 10 * 10 ^ length buf) = (val div 10 * 10 + val mod 10) * 10 ^ length buf"
      by (simp only: distrib_right power_Suc mult.assoc)
    hence "val div 10 * 10 ^ length (val mod 10 # buf) + lval (val mod 10 # buf) = val * 10 ^ length buf + lval buf"
      unfolding lval_Cons length_Cons div_mult_mod_eq by linarith
    thus ?thesis using IH nz unfolding eq by argo
  qed
qed

lemma numeric_from_magnitude_spec:
  assumes v: "val \<noteq> 0" "\<bar>val\<bar> < 10 ^ 40" and r: "r = numeric_from_magnitude num val"
  shows "num_fin r" "num_val r = of_int val" "n_scale r = 0" "0 < n_len r" "n_neg r = (if val < 0 then 1 else 0)"
proof -
  let ?a = "\<bar>val\<bar>" define ds where "ds = extract_digits (?a div 10) [?a mod 10]"
  have r': "r = num\<lparr>n_len := int (length ds), n_scale := 0, n_invalid := 0, n_neg := (if val < 0 then 1 else 0),
             n_value := store_digits (n_value num) ds\<rparr>"
    by (simp add: r numeric_from_magnitude_def Let_def ds_def abs_if)
  have nz: "0 < ?a div 10 \<or> hd [?a mod 10] \<noteq> 0" unfolding list.sel using v(1) by presburger
  have "0 \<le> ?a div 10" "\<forall>d\<in>set [?a mod 10]. 0 \<le> d \<and> d \<le> 9" by auto
  note sp = extract_digits_spec[OF this list.distinct(2), folded ds_def]
  have "?a div 10 * 10 ^ length [?a mod 10] + lval [?a mod 10] = ?a" by simp
  hence s: "lval ds = ?a" "\<forall>d\<in>set ds. 0 \<le> d \<and> d \<le> 9" "ds \<noteq> []" "hd ds \<noteq> 0"
    using sp nz by argo+
  have d: "dlen r = length ds" "dscale r = 0" by (simp_all add: r' dlen_def dscale_def)
  have ok: "num_ok r" using digits_store[OF s(2)] d by (simp add: num_ok_def) (simp add: r')
  have nn: "num_norm r" using ok s(3,4) by (simp add: num_norm_def) (simp add: r' store_digits_def hd_conv_nth)
  have i: "num_int r = ?a" using lval_store[of "n_value num" ds] s(1) d by (simp add: num_int_def) (simp add: r')
  show val: "num_val r = of_int val" using i d by (simp add: num_val_def num_mag_def) (simp add: r')
  have "\<bar>num_val r\<bar> < 10 ^ 40" using v(2) unfolding val by (metis of_int_abs of_int_less_iff of_int_numeral of_int_power)
  hence "dlen r \<le> 40" using num_norm_less_pow[OF nn, of 40] by simp
  thus "num_fin r" using nn d s(3) by (simp add: num_fin_def num_is_zero_def numeric_consts) (simp add: r')
  show "n_scale r = 0" "0 < n_len r" "n_neg r = (if val < 0 then 1 else 0)" using s(3) by (simp_all add: r')
qed

lemma extract_digits_append: "extract_digits val (xs @ ys) = extract_digits val xs @ ys"
proof (induction val xs rule: extract_digits.induct)
  case (1 val xs)
  thus ?case by (subst (1 2) extract_digits.simps) auto
qed

lemma numeric_from_magnitude_min:
  assumes m: "0 < m" "m mod 10 = 7" and r: "r = numeric_from_magnitude num (- m)"
  shows "r\<lparr>n_value := (n_value r)(n_len r - 1 := n_value r (n_len r - 1) + 1)\<rparr> = numeric_from_magnitude num (- m - 1)"
proof -
  define ds where "ds = extract_digits (m div 10) []"
  have e: "extract_digits (m div 10) [d] = ds @ [d]" for d
    using extract_digits_append[of "m div 10" "[]" "[d]"] by (simp add: ds_def)
  have q: "(1 + m) div 10 = m div 10" "(1 + m) mod 10 = 8" using m(2) by presburger+
  have v: "(store_digits w (ds @ [7]))(int (length ds) := 8) = store_digits w (ds @ [8])" for w
    by (rule ext) (auto simp: store_digits_def nth_append)
  have "store_digits w (ds @ [7]) (int (length ds)) = 7" for w by (simp add: store_digits_def)
  thus ?thesis using m by (simp add: r numeric_from_magnitude_def Let_def e q v)
qed

lemma numeric_from_one: "num_fin (NUM_SET_1 num)" "num_fin ((NUM_SET_1 num)\<lparr>n_neg := 1\<rparr>)"
    "num_val (NUM_SET_1 num) = 1" "num_val ((NUM_SET_1 num)\<lparr>n_neg := 1\<rparr>) = - 1" "n_scale (NUM_SET_1 num) = 0"
  by (simp_all add: NUM_SET_1_def num_1_def num_fin_def num_norm_def num_ok_def digits_def dlen_def dscale_def num_is_zero_def
      numeric_consts num_val_def num_mag_def num_int_def mem_copy_def)

lemma numeric_from_int_cases:
  "numeric_from_int32 num val = (if val = - 1 then ((NUM_SET_1 num)\<lparr>n_neg := 1\<rparr>, NUMERIC_STS_SUCCESS)
      else if val = 0 then (NUM_SET_0 num, NUMERIC_STS_SUCCESS)
      else if val = 1 then (NUM_SET_1 num, NUMERIC_STS_SUCCESS)
      else (numeric_from_magnitude num val, NUMERIC_STS_SUCCESS))"
  "numeric_from_int64 num val = numeric_from_int32 num val"
  using numeric_from_magnitude_min[of INT32_MAX _ num, OF _ _ refl] numeric_from_magnitude_min[of INT64_MAX _ num, OF _ _ refl]
  by (simp_all add: numeric_from_int32_def numeric_from_int64_def INT32_MAX_def INT64_MAX_def Let_def)

lemma numeric_from_int_val:
  assumes "\<bar>val\<bar> < 10 ^ 40"
  shows "num_fin (fst (numeric_from_int32 num val)) \<and> num_val (fst (numeric_from_int32 num val)) = of_int val
    \<and> snd (numeric_from_int32 num val) = NUMERIC_STS_SUCCESS \<and> n_scale (fst (numeric_from_int32 num val)) = 0"
  using numeric_from_magnitude_spec[OF _ assms refl, of num] numeric_from_one[of num] num_0_norm[of num] num_0_fin[of num]
  by (auto simp: numeric_from_int_cases NUM_SET_0_def)

subsection \<open>Numbers become the integer they contain\<close>

lemma to_int_loop_exact:
  "digits v p k \<Longrightarrow> 0 \<le> val \<Longrightarrow> val * 10 ^ k + dval v p k \<le> m \<Longrightarrow>
   to_int_loop m k v p val = (val * 10 ^ k + dval v p k, 0)"
proof (induction k arbitrary: p val)
  case (Suc k)
  have d: "0 \<le> v p" "digits v (p + 1) k" using digitsD[OF Suc.prems(1), of p] digits_sub[OF Suc.prems(1), of "p + 1" k] by auto
  have e: "val * 10 ^ Suc k + dval v p (Suc k) = (10 * val + v p) * 10 ^ k + dval v (p + 1) k"
    unfolding dval_Cons by (simp add: algebra_simps)
  have p: "0 \<le> 10 * val + v p" "0 \<le> dval v (p + 1) k" using d Suc.prems(2) dval_bounds[OF d(2)] by auto
  have grow: "0 \<le> x \<Longrightarrow> x \<le> x * 10 ^ k" for x :: int using mult_left_mono[of 1 "10 ^ k" x] by simp
  have le: "10 * val + v p \<le> m" using grow[OF p(1)] Suc.prems(3) p(2) unfolding e by (meson add_increasing2 order_trans)
  hence "wrap m (10 * val + v p) = 10 * val + v p" using p(1) by (simp add: wrap_def mod_pos_pos_trivial)
  moreover have "val \<le> m div 10" using le d(1) by linarith
  ultimately show ?case using Suc.IH[OF d(2) p(1)] Suc.prems(3) unfolding e by simp
qed simp

lemma to_int_loop_min:
  assumes "digits v p (Suc k)" "dval v p (Suc k) = m + 1" "m mod 10 = 7" "0 < m"
  shows "to_int_loop m (Suc k) v p 0 = (- m - 1, 0)"
proof -
  have append: "to_int_loop m (a + b) v q val = (case to_int_loop m a v q val of (x, 0) \<Rightarrow> to_int_loop m b v (q + int a) x | (x, i) \<Rightarrow> (x, i + b))" for a b q val
    by (induction a arbitrary: q val) (auto split: nat.splits simp: algebra_simps)
  have d: "digits v p k" "0 \<le> v (p + int k)" "v (p + int k) \<le> 9" using assms(1) by (auto simp: digits_Suc)
  have e: "10 * dval v p k + v (p + int k) = m + 1" using assms(2) by simp
  hence le: "dval v p k \<le> m div 10" using d assms(3) by presburger
  moreover have "m div 10 \<le> m" using assms(4) by linarith
  ultimately have "to_int_loop m k v p 0 = (dval v p k, 0)" using to_int_loop_exact[OF d(1), of 0 m] by simp
  moreover have "wrap m (m + 1) = - m - 1" by (rule wrap_max)
  ultimately show ?thesis using append[of k 1 p 0] le e by simp
qed

definition int_part :: "numeric \<Rightarrow> int" where
  "int_part n = (if n_neg n \<noteq> 0 then - dval (n_value n) 0 (dlen n) else dval (n_value n) 0 (dlen n))"

lemma int_part_trunc: "num_ok n \<Longrightarrow> of_int (int_part n) = trunc_to 0 (num_val n)"
  using num_cut(3)[of n 0, OF _ _ refl] trunc_to_minus[of 0 "num_mag n"]
  by (simp add: int_part_def num_val_def num_mag_def num_int_def dlen_def dscale_def)

lemma numeric_to_int_val:
  assumes n: "num_ok n" and m: "m mod 10 = 7" "0 < m" and r: "- m - 1 \<le> int_part n" "int_part n \<le> m"
  shows "numeric_to_int m n = (int_part n, NUMERIC_STS_SUCCESS)"
proof -
  let ?d = "dval (n_value n) 0 (dlen n)"
  have dg: "digits (n_value n) 0 (dlen n)" using digits_sub[OF num_okD(5)[OF n], of 0 "dlen n"] by simp
  note b = dval_bounds[OF dg]
  show ?thesis
  proof (cases "?d \<le> m")
    case True
    hence "to_int_loop m (dlen n) (n_value n) 0 0 = (?d, 0)" using to_int_loop_exact[OF dg, of 0 m] by simp
    thus ?thesis using b m(2) by (auto simp: numeric_to_int_def int_part_def simp flip: dlen_def)
  next
    case False
    hence neg: "n_neg n \<noteq> 0" and d: "?d = m + 1" using r by (auto simp: int_part_def split: if_splits)
    then obtain k where k: "dlen n = Suc k" using m(2) by (cases "dlen n") auto
    have w: "wrap m (1 + m) = - 1 - m" using wrap_max[of m] by (simp add: algebra_simps)
    have "to_int_loop m (dlen n) (n_value n) 0 0 = (- m - 1, 0)"
      using to_int_loop_min[of "n_value n" 0 k m] dg d m unfolding k by simp
    thus ?thesis using neg d by (simp add: numeric_to_int_def int_part_def w algebra_simps flip: dlen_def)
  qed
qed

subsection \<open>The marshalled form gives the number back\<close>

lemma nibbles:
  assumes "0 \<le> a" "a \<le> 9" "0 \<le> b" "b \<le> (9 :: int)"
  shows "drop_bit 4 (push_bit 4 a OR b) = a" "(push_bit 4 a OR b) AND 15 = b" "0 \<le> push_bit 4 a OR b" "push_bit 4 a OR b < 256"
proof -
  have b: "drop_bit 4 b = 0" "take_bit 4 b = b" using assms by (simp_all add: drop_bit_eq_div take_bit_eq_mod)
  show "drop_bit 4 (push_bit 4 a OR b) = a" by (simp add: b drop_bit_or drop_bit_push_bit)
  have "(push_bit 4 a OR b) AND 15 = take_bit 4 (push_bit 4 a OR b)" by (simp add: take_bit_eq_mask mask_eq_exp_minus_1)
  thus "(push_bit 4 a OR b) AND 15 = b" by (simp add: take_bit_or take_bit_push_bit b)
  show "0 \<le> push_bit 4 a OR b" using assms by simp
  have "push_bit 4 a OR b < 2 ^ 8" using assms by (intro OR_upper) (simp_all add: push_bit_eq_mult)
  thus "push_bit 4 a OR b < 256" by simp
qed

definition padded :: "(int \<Rightarrow> int) \<Rightarrow> int \<Rightarrow> int \<Rightarrow> int" where
  "padded v ep i = (if i < ep then v i else 0)"

lemma length_dv_pack [simp]: "length (dv_pack k v cp ep) = k"
  by (induction k arbitrary: cp) (simp_all add: Let_def)

lemma dv_pack_nth:
  "j < k \<Longrightarrow> dv_pack k v cp ep ! j = push_bit 4 (padded v ep (cp + 2 * int j)) OR padded v ep (cp + 2 * int j + 1)"
proof (induction k arbitrary: cp j)
  case (Suc k)
  let ?cp = "if cp \<ge> ep then cp else if cp + 1 \<ge> ep then cp + 1 else cp + 2"
  have t: "dv_pack (Suc k) v cp ep = (push_bit 4 (padded v ep cp) OR padded v ep (cp + 1)) # dv_pack k v ?cp ep"
    by (auto simp: Let_def padded_def ac_simps)
  show ?case
  proof (cases j)
    case 0 thus ?thesis unfolding t by simp
  next
    case (Suc i)
    have "padded v ep (?cp + x) = padded v ep (cp + 2 + x)" if "0 \<le> x" for x using that by (auto simp: padded_def)
    from this[of "2 * int i"] this[of "2 * int i + 1"] show ?thesis
      using Suc.IH[of i ?cp] Suc.prems \<open>j = Suc i\<close> unfolding t by (simp add: algebra_simps)
  qed
qed simp

lemma dv_unpack_nth:
  "dv_unpack k buf rp v dp i =
   (if dp \<le> i \<and> i < dp + 2 * int k
    then (if even (i - dp) then drop_bit 4 (buf ! (rp + nat ((i - dp) div 2))) else buf ! (rp + nat ((i - dp) div 2)) AND 15)
    else v i)"
proof (induction k arbitrary: rp v dp)
  case (Suc k)
  show ?case
  proof (cases "dp + 2 \<le> i")
    case True
    have "(i - dp) div 2 = (i - (dp + 2)) div 2 + 1" by presburger
    hence "nat ((i - dp) div 2) = Suc (nat ((i - (dp + 2)) div 2))" using True by linarith
    moreover have "even (i - dp) = even (i - (dp + 2))" by presburger
    ultimately show ?thesis using Suc.IH[of "rp + 1" _ "dp + 2"] True by simp
  next
    case False
    hence "i = dp \<or> i = dp + 1 \<or> i < dp" by linarith
    thus ?thesis using Suc.IH[of "rp + 1" _ "dp + 2"] by auto
  qed
qed simp

lemma dv_flags:
  assumes "neg = 0 \<or> neg = 1" "iv = 0 \<or> iv = NDF_NAN \<or> iv = NDF_INF"
    and f: "f = (if neg \<noteq> 0 then NDF_NEG else 0) OR (if a then NDF_LEAD0 else 0) OR (if b then NDF_TRAIL0 else 0) OR iv"
  shows "(if f AND NDF_NEG \<noteq> 0 then 1 else 0) = neg" "f AND NDF_LEAD0 \<noteq> 0 \<longleftrightarrow> a" "f AND NDF_TRAIL0 \<noteq> 0 \<longleftrightarrow> b"
    "f AND (NDF_NAN OR NDF_INF) = iv" "0 \<le> f" "f < 256"
  using assms(1,2) unfolding f by (auto simp: numeric_dv_consts numeric_consts)

text \<open>The bytes of a number: how many digits and data bytes there are before and after the point.\<close>

lemma numeric_to_dv_bytes:
  assumes n: "0 \<le> n_len n" "n_len n \<le> 63" "0 \<le> n_scale n" "n_scale n \<le> 63" and o: "o1 = (if odd (n_len n) then 1 else 0 :: nat)"
    and k: "k = nat (n_len n div 2 + (n_scale n + 1) div 2)"
    and f: "f = (if n_neg n \<noteq> 0 then NDF_NEG else 0) OR (if odd (n_len n) then NDF_LEAD0 else 0) OR (if odd (n_scale n) then NDF_TRAIL0 else 0) OR n_invalid n"
  shows "numeric_to_dv n = (DV_NUMERIC # (int (o1 + k) + 2) # f # ((n_len n + 1) div 2) #
           (if o1 = 1 then [n_value n 0] else []) @ dv_pack k (n_value n) (int o1) (n_len n + n_scale n), NUMERIC_STS_SUCCESS)"
    "o1 + k \<le> 64" "int (o1 + k) = (n_len n + 1) div 2 + (n_scale n + 1) div 2"
proof -
  have q: "((if odd (n_len n) then n_len n - 1 else n_len n) + n_scale n + 1) div 2 = n_len n div 2 + (n_scale n + 1) div 2"
    by (auto elim!: oddE evenE)
  show b: "o1 + k \<le> 64" unfolding k o using n by (auto elim!: oddE evenE)
  show "int (o1 + k) = (n_len n + 1) div 2 + (n_scale n + 1) div 2" unfolding k o using n by (auto elim!: oddE evenE)
  show "numeric_to_dv n = (DV_NUMERIC # (int (o1 + k) + 2) # f # ((n_len n + 1) div 2) #
           (if o1 = 1 then [n_value n 0] else []) @ dv_pack k (n_value n) (int o1) (n_len n + n_scale n), NUMERIC_STS_SUCCESS)"
    using b unfolding numeric_to_dv_def Let_def q k[symmetric] f by (simp add: o)
qed

lemma dv_unpack_pack:
  assumes dg: "\<And>i. 0 \<le> i \<Longrightarrow> i < ep \<Longrightarrow> 0 \<le> v i \<and> v i \<le> 9" and pk: "\<And>j. j < k \<Longrightarrow> buf ! (rp + j) = dv_pack k v cp ep ! j"
    and i: "0 \<le> cp" "cp \<le> i" "i < ep" "ep \<le> cp + 2 * int k"
  shows "dv_unpack k buf rp w cp i = v i"
proof -
  let ?j = "nat ((i - cp) div 2)" and ?p = "padded v ep"
  have pd: "0 \<le> ?p i \<and> ?p i \<le> 9" if "0 \<le> i" for i using dg[OF that] by (simp add: padded_def)
  have j: "?j < k" using i by linarith
  have e: "?p i = v i" using i by (simp add: padded_def)
  have nn: "0 \<le> cp + 2 * int ?j" "0 \<le> cp + 2 * int ?j + 1" using i(1) by simp_all
  note nb = nibbles[OF pd[OF nn(1), THEN conjunct1] pd[OF nn(1), THEN conjunct2] pd[OF nn(2), THEN conjunct1] pd[OF nn(2), THEN conjunct2]]
  have c: "cp \<le> i \<and> i < cp + 2 * int k" using i by linarith
  show ?thesis
  proof (cases "even (i - cp)")
    case True
    hence "?p (cp + 2 * int ?j) = v i" using i(2) e by simp
    thus ?thesis using True nb(1) c unfolding dv_unpack_nth pk[OF j] dv_pack_nth[OF j] by simp
  next
    case False
    hence "2 * ((i - cp) div 2) + 1 = i - cp" by presburger
    hence "cp + 2 * int ?j + 1 = i" using i(2) by simp
    hence "?p (cp + 2 * int ?j + 1) = v i" using e by simp
    thus ?thesis using False nb(2) c unfolding dv_unpack_nth pk[OF j] dv_pack_nth[OF j] by simp
  qed
qed

lemma numeric_to_dv_roundtrip:
  assumes n: "numeric_ok n" and bs: "numeric_to_dv n = (bs, st)" and b0: "bs' = x # tl bs"
  shows "num_eq (dv_digits (dv_header z bs') bs') n"
proof -
  define o1 where "o1 = (if odd (n_len n) then 1 else 0 :: nat)"
  define k where "k = nat (n_len n div 2 + (n_scale n + 1) div 2)"
  define f where "f = (if n_neg n \<noteq> 0 then NDF_NEG else 0) OR (if odd (n_len n) then NDF_LEAD0 else 0) OR (if odd (n_scale n) then NDF_TRAIL0 else 0) OR n_invalid n"
  let ?ep = "n_len n + n_scale n"
  define l where "l = (if o1 = 1 then [n_value n 0] else []) @ dv_pack k (n_value n) (int o1) ?ep"
  have r: "0 \<le> n_len n" "n_len n \<le> 63" "0 \<le> n_scale n" "n_scale n \<le> 63" "n_neg n = 0 \<or> n_neg n = 1" "n_invalid n = 0 \<or> n_invalid n = NDF_NAN \<or> n_invalid n = NDF_INF"
    and dg: "0 \<le> i \<Longrightarrow> i < ?ep \<Longrightarrow> 0 \<le> n_value n i \<and> n_value n i \<le> 9" for i
    using n num_okD[of n] digitsD[of "n_value n" 0 "dlen n + dscale n" i]
    by (auto simp: numeric_ok_def num_fin_def num_norm_def num_special_def numeric_consts)
  note b = numeric_to_dv_bytes[OF r(1-4) o1_def k_def f_def]
  have e: "bs' = x # (int (o1 + k) + 2) # f # ((n_len n + 1) div 2) # l" using bs[unfolded b(1) l_def[symmetric]] unfolding b0 by auto
  note fl = dv_flags[OF r(5,6) f_def]
  have ix: "bs' ! NDV_LEN = int (o1 + k) + 2" "bs' ! NDV_FLAGS = f" "bs' ! NDV_L = (n_len n + 1) div 2" "bs' ! (NDV_DATA + j) = l ! j" for j
    by (simp_all add: e NDV_LEN_def NDV_FLAGS_def NDV_L_def NDV_DATA_def numeral_eq_Suc)
  have w: "wrap 127 y = y" if "0 \<le> y" "y \<le> 127" for y using that by (simp add: wrap_def)
  have h: "dv_header z bs' = z\<lparr>n_len := 2 * ((n_len n + 1) div 2), n_scale := 2 * ((n_scale n + 1) div 2), n_neg := n_neg n, n_invalid := n_invalid n\<rparr>"
    unfolding dv_header_def ix fl(1,4) b(3) using r(1-4) by (simp add: w)
  have lead: "l ! 0 AND 15 = n_value n 0" if "odd (n_len n)"
  proof -
    have "0 \<le> n_value n 0 \<and> n_value n 0 \<le> 9" using dg[of 0] that r by (cases "n_len n = 0") auto
    thus ?thesis using that nibbles(2)[of 0 "n_value n 0"] by (simp add: l_def o1_def)
  qed
  have pk: "bs' ! (NDV_DATA + o1 + j) = dv_pack k (n_value n) (int o1) ?ep ! j" if "j < k" for j
    using that unfolding add.assoc ix(4) by (simp add: l_def o1_def)
  define v where "v = dv_unpack k bs' (NDV_DATA + o1) (if o1 = 1 then (n_value z)(0 := l ! 0 AND 15) else n_value z) (int o1)"
  have vi: "v i = n_value n i" if i: "0 \<le> i" "i < ?ep" for i
  proof (cases "int o1 \<le> i")
    case False
    hence "i = 0" "o1 = 1" "odd (n_len n)" using i by (auto simp: o1_def split: if_splits)
    thus ?thesis using lead by (simp add: v_def dv_unpack_nth)
  next
    case True
    have "?ep \<le> int o1 + 2 * int k" using r b(3) unfolding o1_def by (auto elim!: oddE evenE)
    thus ?thesis unfolding v_def using dv_unpack_pack[OF dg pk _ True i(2)] by simp
  qed
  have "dv_digits (dv_header z bs') bs' = (dv_header z bs')\<lparr>n_len := n_len n, n_scale := n_scale n, n_value := v\<rparr>"
    unfolding dv_digits_def Let_def ix fl(2,3) ix(4)[of 0, simplified] v_def h by (auto simp: o1_def NDV_FLAGS_def NDV_DATA_def algebra_simps elim!: oddE evenE)
  thus ?thesis unfolding h using vi by (simp add: num_eq_def)
qed

subsection \<open>The representation of a value is unique\<close>

lemma dval_inj: "digits v a n \<Longrightarrow> digits w a n \<Longrightarrow> dval v a n = dval w a n \<Longrightarrow> a \<le> i \<Longrightarrow> i < a + int n \<Longrightarrow> v i = w i"
proof (induction n)
  case (Suc n)
  have d: "digits v a n" "digits w a n" "0 \<le> v (a + int n)" "v (a + int n) \<le> 9" "0 \<le> w (a + int n)" "w (a + int n) \<le> 9"
    using Suc.prems(1,2) by (auto simp: digits_Suc)
  have "dval v a n = dval w a n" "v (a + int n) = w (a + int n)" using d(3-6) Suc.prems(3) unfolding dval.simps by presburger+
  thus ?case using Suc.IH[OF d(1,2)] Suc.prems(4,5) by (cases "i = a + int n") auto
qed simp

lemma num_fin_last: "num_fin n \<Longrightarrow> 0 < dscale n \<Longrightarrow> num_int n mod 10 \<noteq> 0"
proof -
  assume n: "num_fin n" "0 < dscale n"
  note k = num_okD[OF num_norm_ok[OF num_fin_norm[OF n(1)]]]
  obtain j where j: "dlen n + dscale n = Suc j" using n(2) by (cases "dlen n + dscale n") auto
  have "int j = n_len n + n_scale n - 1" using j k(1,2) by linarith
  hence "n_value n (int j) \<noteq> 0" using n k(2) by (simp add: num_fin_def)
  moreover have "0 \<le> n_value n (int j) \<and> n_value n (int j) \<le> 9" using digitsD[OF k(5), of "int j"] j by simp
  ultimately show ?thesis unfolding num_int_def j dval.simps add_0 by presburger
qed

lemma num_fin_scale_le:
  assumes n: "num_fin x" "num_fin y" "num_mag x = num_mag y"
  shows "dscale y \<le> dscale x"
proof (rule ccontr)
  assume "\<not> dscale y \<le> dscale x"
  then obtain j where j: "dscale y = dscale x + Suc j" using less_imp_Suc_add[of "dscale x" "dscale y"] by auto
  have "real_of_int (num_int y) = real_of_int (num_int x * 10 ^ Suc j)"
    using n(3) by (simp add: num_mag_def j power_add field_simps)
  hence "num_int y = num_int x * 10 ^ Suc j" by (simp only: of_int_eq_iff)
  hence "num_int y mod 10 = 0" by simp
  thus False using num_fin_last[OF n(2)] j by simp
qed

lemma num_fin_unique:
  assumes n: "num_fin x" "num_fin y" "num_val x = num_val y"
  shows "num_eq x y"
proof -
  note nx = num_fin_norm[OF n(1)] and ny = num_fin_norm[OF n(2)]
  note kx = num_okD[OF num_norm_ok[OF nx]] and ky = num_okD[OF num_norm_ok[OF ny]]
  have m: "num_mag x = num_mag y" using n(3) num_val_abs num_norm_ok nx ny by metis
  have s: "dscale x = dscale y" using num_fin_scale_le[OF n(1,2) m] num_fin_scale_le[OF n(2,1)] m by simp
  have l: "dlen x = dlen y" using num_mag_less_len[OF nx ny] num_mag_less_len[OF ny nx] m by (cases "dlen x" "dlen y" rule: linorder_cases) auto
  have i: "num_int x = num_int y" using m s by (simp add: num_mag_def)
  have g: "n_neg x = n_neg y"
  proof (cases "num_int x = 0")
    case True
    thus ?thesis using i num_fin_no_minus_zero n(1,2) by (simp add: no_minus_zero_def)
  next
    case False
    hence "0 < num_mag x" using num_mag_pos num_norm_ok[OF nx] by blast
    thus ?thesis using n(3) m kx(4) ky(4) by (auto simp: num_val_def)
  qed
  have "n_value x i = n_value y i" if "0 \<le> i" "i < int (dlen y + dscale y)" for i
    using dval_inj[of "n_value x" 0 "dlen y + dscale y" "n_value y"] kx(5) ky(5) i that unfolding num_int_def s l by simp
  thus ?thesis using kx(1-3) ky(1-3) s l g by (auto simp: num_eq_def)
qed

lemma hash_loop_cong: "(\<And>i. p \<le> i \<Longrightarrow> i < p + int k \<Longrightarrow> v i = w i) \<Longrightarrow> hash_loop k v p c = hash_loop k w p c"
  by (induction k arbitrary: p c) auto

lemma numeric_hash_eq: "num_eq x y \<Longrightarrow> numeric_hash x = numeric_hash y"
  unfolding numeric_hash_def num_eq_def by (auto intro!: hash_loop_cong split: if_splits)

lemma numeric_to_dv_sizes:
  assumes n: "numeric_ok n" and bs: "numeric_to_dv n = (bs, st)"
  shows "st = NUMERIC_STS_SUCCESS" "numeric_dv_len n = int (length bs)" "length bs \<le> 34" "bs ! 0 = DV_NUMERIC"
    "bs ! 1 = int (length bs) - 2" "hd bs # tl bs = bs"
proof -
  have r: "0 \<le> n_len n" "n_len n \<le> 40" "0 \<le> n_scale n" "n_scale n \<le> 20"
    using n num_okD[of n] by (auto simp: numeric_ok_def num_fin_def num_norm_def num_special_def numeric_consts)
  define k where "k = nat (n_len n div 2 + (n_scale n + 1) div 2)"
  have "n_len n \<le> 63" "n_scale n \<le> 63" using r by simp_all
  note b = numeric_to_dv_bytes[OF r(1) this(1) r(3) this(2) refl k_def refl]
  have k: "(if odd (n_len n) then 1 else 0) + k \<le> 30" 
  proof -
    have "(n_len n + 1) div 2 \<le> 20" "(n_scale n + 1) div 2 \<le> 10" using r by linarith+
    thus ?thesis using b(3) by linarith
  qed
  show "st = NUMERIC_STS_SUCCESS" "length bs \<le> 34" "bs ! 0 = DV_NUMERIC" "bs ! 1 = int (length bs) - 2" "hd bs # tl bs = bs"
    using bs[unfolded b(1)] k by (auto split: if_splits)
  thus "numeric_dv_len n = int (length bs)" unfolding numeric_dv_len_def bs by (simp add: NDV_LEN_def)
qed

lemma numeric_from_to_int:
  assumes "m mod 10 = 7" "0 < m" "- m - 1 \<le> val \<and> val \<le> m" "m < 10 ^ 39"
  shows "num_fin (fst (numeric_from_int32 num val)) \<and> num_val (fst (numeric_from_int32 num val)) = of_int val
    \<and> numeric_to_int m (fst (numeric_from_int32 num val)) = (val, NUMERIC_STS_SUCCESS)"
proof -
  let ?n = "fst (numeric_from_int32 num val)"
  have "\<bar>val\<bar> < 10 ^ 40" using assms(3,4) by (simp add: abs_if)
  note v = numeric_from_int_val[OF this, of num]
  have ok: "num_ok ?n" using v num_norm_ok num_fin_norm by blast
  have "trunc_to 0 (num_val ?n) = of_int val" using v trunc_to_exact[of "num_val ?n" 0 val] by simp
  hence "int_part ?n = val" using int_part_trunc[OF ok] by simp
  thus ?thesis using numeric_to_int_val[OF ok assms(1,2)] assms(3) v by simp
qed

subsection \<open>Properties\<close>

text \<open>
  C24. Machine integers survive. For every value of the type, the smallest included,
  \<^verbatim>\<open>numeric_from_int32\<close> and \<^verbatim>\<open>numeric_from_int64\<close> give the number with that value in final form,
  whatever the number held before, and \<^verbatim>\<open>numeric_to_int32\<close> and \<^verbatim>\<open>numeric_to_int64\<close> give the integer back.
\<close>

theorem numeric_int_roundtrip:
  "(- INT32_MAX - 1 \<le> val \<and> val \<le> INT32_MAX \<longrightarrow>
      num_fin (fst (numeric_from_int32 num val)) \<and> num_val (fst (numeric_from_int32 num val)) = of_int val
      \<and> numeric_to_int32 (fst (numeric_from_int32 num val)) = (val, NUMERIC_STS_SUCCESS))
   \<and> (- INT64_MAX - 1 \<le> val \<and> val \<le> INT64_MAX \<longrightarrow>
      num_fin (fst (numeric_from_int64 num val)) \<and> num_val (fst (numeric_from_int64 num val)) = of_int val
      \<and> numeric_to_int64 (fst (numeric_from_int64 num val)) = (val, NUMERIC_STS_SUCCESS))"
  using numeric_from_to_int[of INT32_MAX val num] numeric_from_to_int[of INT64_MAX val num]
  by (simp add: numeric_from_int_cases(2) numeric_to_int32_def numeric_to_int64_def INT32_MAX_def INT64_MAX_def)

theorem numeric_int_roundtrip_witness:
  "- INT32_MAX - 1 \<le> (-2147483648 :: int) \<and> (-2147483648 :: int) \<le> INT32_MAX
   \<and> numeric_to_int32 (fst (numeric_from_int32 num_0 (-2147483648))) = (-2147483648, NUMERIC_STS_SUCCESS)
   \<and> numeric_to_int64 (fst (numeric_from_int64 num_0 4000000000)) = (4000000000, NUMERIC_STS_SUCCESS)"
  using numeric_int_roundtrip[of "-2147483648" num_0] numeric_int_roundtrip[of 4000000000 num_0]
  by (simp add: INT32_MAX_def INT64_MAX_def)

text \<open>
  C26. Conversion to machine integers. When the integer part of a finite number is a value of the type,
  \<^verbatim>\<open>numeric_to_int32\<close> and \<^verbatim>\<open>numeric_to_int64\<close> return it, the fraction cut off towards zero. Outside
  the type the overflow test misses numbers: with the wrap-around of 32-bit arithmetic 2147483648
  becomes -2147483648, and 21474836485, whose accumulation wraps before its last digit, becomes 5,
  both reported as a success, where 4294967296 is refused.
\<close>

theorem numeric_to_int_correct:
  assumes "num_fin n" "trunc_to 0 (num_val n) = of_int i"
  shows "(- INT32_MAX - 1 \<le> i \<and> i \<le> INT32_MAX \<longrightarrow> numeric_to_int32 n = (i, NUMERIC_STS_SUCCESS))
    \<and> (- INT64_MAX - 1 \<le> i \<and> i \<le> INT64_MAX \<longrightarrow> numeric_to_int64 n = (i, NUMERIC_STS_SUCCESS))
    \<and> numeric_to_int32 (fst (numeric_from_int64 num_0 2147483648)) = (-2147483648, NUMERIC_STS_SUCCESS)
    \<and> numeric_to_int32 (fst (numeric_from_int64 num_0 21474836485)) = (5, NUMERIC_STS_SUCCESS)
    \<and> numeric_to_int32 (fst (numeric_from_int64 num_0 4294967296)) = (0, NUMERIC_STS_MARSHALLING)"
proof -
  have "numeric_to_int32 (fst (numeric_from_int64 num_0 2147483648)) = (-2147483648, NUMERIC_STS_SUCCESS)
    \<and> numeric_to_int32 (fst (numeric_from_int64 num_0 21474836485)) = (5, NUMERIC_STS_SUCCESS)
    \<and> numeric_to_int32 (fst (numeric_from_int64 num_0 4294967296)) = (0, NUMERIC_STS_MARSHALLING)" by code_simp
  note w = this
  have ok: "num_ok n" using num_norm_ok num_fin_norm assms(1) by blast
  have "int_part n = i" using int_part_trunc[OF ok] assms(2) by simp
  hence "(- INT32_MAX - 1 \<le> i \<and> i \<le> INT32_MAX \<longrightarrow> numeric_to_int32 n = (i, NUMERIC_STS_SUCCESS))
    \<and> (- INT64_MAX - 1 \<le> i \<and> i \<le> INT64_MAX \<longrightarrow> numeric_to_int64 n = (i, NUMERIC_STS_SUCCESS))"
    using numeric_to_int_val[OF ok, of INT32_MAX] numeric_to_int_val[OF ok, of INT64_MAX]
    by (simp add: numeric_to_int32_def numeric_to_int64_def INT32_MAX_def INT64_MAX_def)
  thus ?thesis using w by blast
qed

theorem numeric_to_int_correct_witness:
  "num_fin num_2 \<and> trunc_to 0 (num_val num_2) = of_int 2 \<and> numeric_to_int32 num_2 = (2, NUMERIC_STS_SUCCESS)"
proof -
  have "trunc_to 0 (num_val num_2) = of_int 2" by (simp add: small_num_val trunc_to_def)
  thus ?thesis using numeric_to_int_correct[OF small_num_fin(2), of 2] small_num_fin(2) by (simp add: INT32_MAX_def)
qed

text \<open>
  C25. Marshalling. Every number in final form, infinity and NaN is written in at most 34 bytes whose
  length byte is right, and \<^verbatim>\<open>numeric_from_dv\<close> (for the 98 bytes of an allocated number) and
  \<^verbatim>\<open>numeric_from_buf\<close> (behind the tag) read back the same number, whatever the target held before.
\<close>

theorem numeric_dv_roundtrip:
  assumes "numeric_ok n" "numeric_to_dv n = (bs, st)"
  shows "st = NUMERIC_STS_SUCCESS \<and> int (length bs) = numeric_dv_len n \<and> numeric_dv_len n \<le> 34
    \<and> (\<exists>r. numeric_from_dv z bs 98 = Some (r, NUMERIC_STS_SUCCESS) \<and> num_eq r n)
    \<and> num_eq (fst (numeric_from_buf z (tl bs))) n"
  using numeric_to_dv_sizes[OF assms] numeric_to_dv_roundtrip[OF assms refl, of z "hd bs"] numeric_to_dv_roundtrip[OF assms refl, of z 0]
  by (simp add: numeric_from_dv_def numeric_from_buf_def Let_def NDV_FLAGS_def NDV_DATA_def NDV_LEN_def)

theorem numeric_dv_roundtrip_witness:
  "numeric_ok num_2 \<and> numeric_to_dv num_2 = ([219, 3, 4, 1, 2], NUMERIC_STS_SUCCESS)
   \<and> num_eq (fst (numeric_from_buf (filled 7) [3, 4, 1, 2])) num_2"
proof -
  have e: "numeric_to_dv num_2 = ([219, 3, 4, 1, 2], NUMERIC_STS_SUCCESS)" by code_simp
  have "numeric_ok num_2" using small_num_fin(2) by (simp add: numeric_ok_def)
  thus ?thesis using numeric_dv_roundtrip[OF _ e, of "filled 7"] e by simp
qed



end
