(* ===== verification/Num_Str.thy ===== *)
theory Num_Str
  imports Num_Conv
begin

text \<open>
  Numbers and text: \<^verbatim>\<open>numeric_from_string\<close>, \<^verbatim>\<open>numeric_from_string_is_ok\<close>, \<^verbatim>\<open>numeric_to_string\<close> and
  \<^verbatim>\<open>numeric_error\<close> of \<^verbatim>\<open>libsrc/Wi/numeric.c\<close>. A string that is read is the list of its characters
  without the final NUL; a buffer that is written is a list of the size the caller gives. The
  character classes are those of the C locale.
\<close>

subsection \<open>Reading a number\<close>

text \<open>
  The loop over the characters: whether a dot was seen, whether only zeros were seen, whether a digit
  was seen, the next digit to store, and the number; it returns the number, the error and the exponent.
\<close>

fun scan_loop :: "string \<Rightarrow> int \<Rightarrow> bool \<Rightarrow> bool \<Rightarrow> bool \<Rightarrow> int \<Rightarrow> numeric \<Rightarrow> numeric \<times> int \<times> int" where
  "scan_loop [] neg dot first has_digit dp n = (n, NUMERIC_STS_SUCCESS, 0)"
| "scan_loop (c # cp) neg dot first has_digit dp n =
     (if has_digit \<and> toupper c = CHR ''E'' then (n, NUMERIC_STS_SUCCESS, atoi cp)
      else if c = CHR ''.'' then
        if dot then (n, NUMERIC_STS_INVALID_STR, 0) else scan_loop cp neg True first has_digit dp n
      else if isdigit c then
        let has_digit = first \<or> has_digit in
        if first \<and> c = CHR ''0'' \<and> \<not> dot then scan_loop cp neg dot first has_digit dp n
        else
          let first = (first \<and> c = CHR ''0'') in
          if dp < NUMERIC_MAX_DATA_BYTES then
            let n = n\<lparr>n_value := (n_value n)(dp := digit_of c)\<rparr>;
                n = (if dot then n\<lparr>n_scale := n_scale n + 1\<rparr> else n\<lparr>n_len := n_len n + 1\<rparr>)
            in scan_loop cp neg dot first has_digit (dp + 1) n
          else if \<not> dot then (let (n, error) = numeric_inf n neg in (n, error, 0))
          else scan_loop cp neg dot first has_digit dp n
      else (n, if isspace c then NUMERIC_STS_SUCCESS else NUMERIC_STS_INVALID_STR, 0))"

text \<open>The exponent moves the decimal point; the fields for length and scale are of type \<^verbatim>\<open>char\<close>.\<close>

definition apply_exponent :: "numeric \<Rightarrow> int \<Rightarrow> int \<Rightarrow> numeric \<times> int" where
  "apply_exponent n neg expn =
     (if expn > 0 then
        if n_scale n \<ge> expn then (n\<lparr>n_scale := n_scale n - expn, n_len := n_len n + expn\<rparr>, NUMERIC_STS_SUCCESS)
        else
          let expn = expn - n_scale n; n = n\<lparr>n_len := n_len n + n_scale n, n_scale := 0\<rparr> in
          if n_len n + expn > NUMERIC_MAX_PRECISION then numeric_inf n neg
          else (n\<lparr>n_value := mem_set (n_value n) (n_len n) 0 expn, n_len := n_len n + expn\<rparr>, NUMERIC_STS_SUCCESS)
      else
        let expn = wrap INT32_MAX (- expn) in
        if n_len n \<ge> expn then
          (n\<lparr>n_len := wrap 127 (n_len n - expn), n_scale := wrap 127 (n_scale n + expn)\<rparr>, NUMERIC_STS_SUCCESS)
        else
          let expn = expn - n_len n; n = n\<lparr>n_scale := n_scale n + n_len n, n_len := 0\<rparr> in
          if expn \<ge> NUMERIC_MAX_SCALE_INT then (NUM_SET_0 n, NUMERIC_STS_SUCCESS)
          else (n\<lparr>n_value := mem_set (mem_copy (n_value n) expn (n_value n) 0 (n_scale n)) 0 0 expn,
                  n_scale := n_scale n + expn\<rparr>, NUMERIC_STS_SUCCESS))"

definition skip_dollar :: "string \<Rightarrow> string" where
  "skip_dollar s = (let cp = skip_space s in if head_is (CHR ''$'') cp then skip_space (tl cp) else cp)"

definition numeric_from_string :: "numeric \<Rightarrow> string \<Rightarrow> numeric \<times> int" where
  "numeric_from_string n s =
     (let cp = skip_dollar s;
          neg = (if head_is (CHR ''-'') cp then 1 else 0);
          cp = (if head_is (CHR ''-'') cp \<or> head_is (CHR ''+'') cp then tl cp else cp);
          cp = skip_space cp;
          word = \<not> (cp \<noteq> [] \<and> isdigit (hd cp)) in
      if word \<and> (stricmp_eq cp ''INF'' \<or> stricmp_eq cp ''Infinity'') then (fst (numeric_inf n neg), NUMERIC_STS_SUCCESS)
      else if word \<and> cp = ''NaN'' then (fst (numeric_nan n), NUMERIC_STS_SUCCESS)
      else
        case scan_loop cp neg False True False 0 (NUM_SET_0 n) of
          (n, error, expn) \<Rightarrow>
            let (n, rc) = (if error = NUMERIC_STS_SUCCESS then numeric_normalize n else (n, error));
                n = (if neg = 1 \<and> \<not> num_is_zero n then n\<lparr>n_neg := 1\<rparr> else n);
                (n, error) = (if expn \<noteq> 0 \<and> error = NUMERIC_STS_SUCCESS \<and> rc = NUMERIC_STS_SUCCESS
                              then apply_exponent n neg expn else (n, error))
            in (n, if error = NUMERIC_STS_SUCCESS then rc else error))"

text \<open>The result is the first significant character and what follows it, or \<^const>\<open>None\<close> for a null pointer.\<close>

definition numeric_from_string_is_ok :: "string \<Rightarrow> string option" where
  "numeric_from_string_is_ok s =
     (let cp = skip_dollar s; first_significant_char = cp;
          cp = (if head_is (CHR ''-'') cp \<or> head_is (CHR ''+'') cp then tl cp else cp);
          cp = skip_space cp in
      if \<not> (cp \<noteq> [] \<and> isdigit (hd cp)) \<and> (stricmp_eq cp ''INF'' \<or> stricmp_eq cp ''Infinity'' \<or> stricmp_eq cp ''NaN'')
      then Some first_significant_char
      else
        let plain_digits = length (takeWhile isdigit cp); cp = dropWhile isdigit cp;
            dot = head_is (CHR ''.'') cp;
            plain_digits = (if dot then plain_digits + length (takeWhile isdigit (tl cp)) else plain_digits);
            cp = (if dot then dropWhile isdigit (tl cp) else cp) in
        if plain_digits = 0 then None
        else
          let expo = head_is (CHR ''E'') cp \<or> head_is (CHR ''e'') cp;
              ep = (if expo then tl cp else cp);
              ep = (if expo \<and> (head_is (CHR ''-'') ep \<or> head_is (CHR ''+'') ep) then tl ep else ep) in
          if expo \<and> takeWhile isdigit ep = [] then None
          else
            let cp = skip_space (if expo then dropWhile isdigit ep else cp) in
            if cp \<noteq> [] then None else Some first_significant_char)"

subsection \<open>Writing a number\<close>

definition NUMERIC_MAX_STRING_BYTES :: nat where "NUMERIC_MAX_STRING_BYTES = 43"

text \<open>One guarded store: the buffer, the position and the digit read next; the size is unsigned and 64 bits wide.\<close>

definition put :: "nat \<Rightarrow> char \<Rightarrow> string \<times> nat \<Rightarrow> string \<times> nat" where
  "put max_str c = (\<lambda>(str, cp). if int cp < (int max_str - 1) mod 2 ^ 64 then (str[cp := c], cp + 1) else (str, cp))"

fun put_digits :: "nat \<Rightarrow> nat \<Rightarrow> (int \<Rightarrow> int) \<Rightarrow> int \<Rightarrow> string \<times> nat \<Rightarrow> (string \<times> nat) \<times> int" where
  "put_digits max_str 0 v nptr st = (st, nptr)"
| "put_digits max_str (Suc index) v nptr st =
     (if int (snd st) < (int max_str - 1) mod 2 ^ 64
      then put_digits max_str index v (nptr + 1) (put max_str (char_of (v nptr + 48)) st)
      else put_digits max_str index v nptr st)"

definition failed_string :: "numeric \<Rightarrow> string \<Rightarrow> nat \<Rightarrow> string \<times> int" where
  "failed_string n str max_str =
     (if num_is_nan n then (strcpy_size_ck str ''NaN'' max_str, NUMERIC_STS_INVALID_NUM)
      else if num_is_plus_inf n then (strcpy_size_ck str ''INF'' max_str, NUMERIC_STS_OVERFLOW)
      else (strcpy_size_ck str ''-INF'' max_str, NUMERIC_STS_UNDERFLOW))"

definition write_digits :: "numeric \<Rightarrow> string \<Rightarrow> nat \<Rightarrow> string" where
  "write_digits n str max_str =
     (let st = (if n_neg n \<noteq> 0 then put max_str (CHR ''-'') (str, 0) else (str, 0));
          (st, nptr) = (if n_len n = 0 then (put max_str (CHR ''0'') st, 0)
                        else put_digits max_str (nat (n_len n)) (n_value n) 0 st);
          st = (if n_scale n > 0
                then fst (put_digits max_str (nat (n_scale n)) (n_value n) nptr (put max_str (CHR ''.'') st)) else st)
      in (case st of (str, cp) \<Rightarrow> if int cp < (int max_str - 1) mod 2 ^ 64 then str[cp := CHR 0x00] else str))"

text \<open>The stack buffer, the temporary in it and the memory the addition allocates are arguments.\<close>

definition numeric_to_string_prec ::
  "numeric \<Rightarrow> numeric \<Rightarrow> numeric \<Rightarrow> numeric \<Rightarrow> string \<Rightarrow> nat \<Rightarrow> int \<Rightarrow> string \<times> int" where
  "numeric_to_string_prec block buf2 buf n str max_str new_prec =
     (if num_is_invalid n then failed_string n str max_str
      else if new_prec \<noteq> 0 then
        case numeric_rescale False block buf2 (numeric_init_static buf) n NUMERIC_MAX_PRECISION NUMERIC_MAX_SCALE of
          (temp, rc) \<Rightarrow>
            if rc \<noteq> NUMERIC_STS_SUCCESS then failed_string n str max_str
            else (write_digits temp str max_str, NUMERIC_STS_SUCCESS)
      else (write_digits n str max_str, NUMERIC_STS_SUCCESS))"

definition numeric_to_string :: "numeric \<Rightarrow> numeric \<Rightarrow> numeric \<Rightarrow> numeric \<Rightarrow> string \<Rightarrow> nat \<Rightarrow> string \<times> int" where
  "numeric_to_string block buf2 buf n pvalue max_pvalue =
     numeric_to_string_prec block buf2 buf n pvalue max_pvalue NUMERIC_MAX_PRECISION"

subsection \<open>Error codes as SQL states\<close>

definition error_texts :: "int \<Rightarrow> string \<times> string" where
  "error_texts code =
     (if code = NUMERIC_STS_SUCCESS then (''S0000'', ''Success'')
      else if code = NUMERIC_STS_OVERFLOW \<or> code = NUMERIC_STS_UNDERFLOW \<or> code = NUMERIC_STS_INVALID_NUM
      then (''22003'', ''Numeric value out of range'')
      else if code = NUMERIC_STS_INVALID_STR then (''37000'', ''Syntax error'')
      else if code = NUMERIC_STS_DIVIDE_ZERO then (''22012'', ''Division by zero'')
      else if code = NUMERIC_STS_MARSHALLING then (''S1107'', ''Row value out of range'')
      else (''S1000'', ''General error''))"

text \<open>Each buffer may be a null pointer.\<close>

definition numeric_error :: "int \<Rightarrow> string option \<Rightarrow> nat \<Rightarrow> string option \<Rightarrow> nat \<Rightarrow> (string option \<times> string option) \<times> int" where
  "numeric_error code sqlstate state_len sqlerror error_length =
     (case error_texts code of
        (state, error) \<Rightarrow>
          ((map_option (\<lambda>s. strcpy_size_ck s state state_len) sqlstate,
            if error_length \<noteq> 0
            then map_option (\<lambda>s. (take error_length (error @ replicate error_length (CHR 0x00)) @ drop error_length s)
                                   [error_length - 1 := CHR 0x00]) sqlerror
            else sqlerror), NUMERIC_STS_SUCCESS))"

subsection \<open>Scanning digits\<close>

definition digit_string :: "string \<Rightarrow> bool" where
  "digit_string s \<longleftrightarrow> (\<forall>c\<in>set s. isdigit c)"

lemma digit_string_simps [simp]: "digit_string []" "digit_string (c # s) \<longleftrightarrow> isdigit c \<and> digit_string s"
    "digit_string (s @ t) \<longleftrightarrow> digit_string s \<and> digit_string t"
  by (auto simp: digit_string_def)

lemma toupper_digit: "isdigit c \<Longrightarrow> toupper c = c" "isdigit c \<Longrightarrow> c \<noteq> CHR ''E'' \<and> c \<noteq> CHR ''.'' \<and> c \<noteq> CHR ''-'' \<and> c \<noteq> CHR ''+'' \<and> c \<noteq> CHR ''$''"
  by (auto simp: isdigit_def toupper_def)

lemma isdigit_not_space: "isdigit c \<Longrightarrow> \<not> isspace c"
  by (auto simp: isdigit_def isspace_def)

lemma digit_of_bounds: "isdigit c \<Longrightarrow> 0 \<le> digit_of c \<and> digit_of c \<le> 9"
  using of_nat_of_char[of c, where ?'a = int] unfolding isdigit_def digit_of_def by linarith

text \<open>The digit buffer after characters have been stored from an offset on.\<close>

definition store_at :: "(int \<Rightarrow> int) \<Rightarrow> int \<Rightarrow> string \<Rightarrow> int \<Rightarrow> int" where
  "store_at v dp s = (\<lambda>i. if dp \<le> i \<and> i < dp + int (length s) then digit_of (s ! nat (i - dp)) else v i)"

lemma store_at_Nil [simp]: "store_at v dp [] = v"
  by (auto simp: store_at_def)

lemma store_at_Cons: "store_at (v(dp := digit_of c)) (dp + 1) s = store_at v dp (c # s)"
  by (rule ext) (auto simp: store_at_def nth_Cons' nat_diff_distrib' intro!: arg_cong[where f = "\<lambda>n. digit_of (s ! n)"])

lemma store_at_append: "store_at (store_at v dp s) (dp + int (length s)) t = store_at v dp (s @ t)"
  by (rule ext) (auto simp: store_at_def nth_append intro!: arg_cong[where f = "\<lambda>n. digit_of (t ! n)"])

lemma store_at_0: "store_at v 0 s = store_digits v (map digit_of s)"
  by (auto simp: store_at_def store_digits_def fun_eq_iff)

definition stored :: "bool \<Rightarrow> string \<Rightarrow> int \<Rightarrow> numeric \<Rightarrow> numeric" where
  "stored dot s dp n = n\<lparr>n_len := n_len n + (if dot then 0 else int (length s)), n_scale := n_scale n + (if dot then int (length s) else 0),
     n_value := store_at (n_value n) dp s\<rparr>"

lemma stored_Nil [simp]: "stored dot [] dp n = n"
  by (simp add: stored_def)

lemma scan_stored:
  "digit_string s \<Longrightarrow> dp + int (length s) \<le> NUMERIC_MAX_DATA_BYTES \<Longrightarrow> dot \<or> \<not> first \<Longrightarrow>
   scan_loop (s @ rest) neg dot first hg dp n =
   scan_loop rest neg dot (first \<and> set s \<subseteq> {CHR ''0''}) (hg \<or> first \<and> s \<noteq> []) (dp + int (length s)) (stored dot s dp n)"
proof (induction s arbitrary: dp n first hg)
  case (Cons c s)
  let ?n = "if dot then (n\<lparr>n_value := (n_value n)(dp := digit_of c)\<rparr>)\<lparr>n_scale := n_scale n + 1\<rparr>
            else (n\<lparr>n_value := (n_value n)(dp := digit_of c)\<rparr>)\<lparr>n_len := n_len n + 1\<rparr>"
  have n: "stored dot s (dp + 1) ?n = stored dot (c # s) dp n"
    using store_at_Cons[of "n_value n" dp c s] by (simp add: stored_def algebra_simps)
  have "scan_loop ((c # s) @ rest) neg dot first hg dp n = scan_loop (s @ rest) neg dot (first \<and> c = CHR ''0'') (first \<or> hg) (dp + 1) ?n"
    using Cons.prems toupper_digit[of c] by (auto simp: Let_def)
  also have "\<dots> = scan_loop rest neg dot ((first \<and> c = CHR ''0'') \<and> set s \<subseteq> {CHR ''0''})
      ((first \<or> hg) \<or> (first \<and> c = CHR ''0'') \<and> s \<noteq> []) (dp + 1 + int (length s)) (stored dot s (dp + 1) ?n)"
    by (rule Cons.IH) (use Cons.prems in auto)
  also have "((first \<or> hg) \<or> (first \<and> c = CHR ''0'') \<and> s \<noteq> []) = (hg \<or> first \<and> c # s \<noteq> [])" by auto
  finally show ?case unfolding n by (simp add: algebra_simps)
qed simp

lemma scan_leading_zeros:
  "set z \<subseteq> {CHR ''0''} \<Longrightarrow> scan_loop (z @ rest) neg False True hg dp n = scan_loop rest neg False True (hg \<or> z \<noteq> []) dp n"
  by (induction z arbitrary: hg) (auto simp: toupper_def isdigit_def Let_def)

definition strip0 :: "string \<Rightarrow> string" where
  "strip0 s = dropWhile (\<lambda>c. c = CHR ''0'') s"

lemma strip0_split: obtains z where "s = z @ strip0 s" "set z \<subseteq> {CHR ''0''}"
proof
  show "s = takeWhile (\<lambda>c. c = CHR ''0'') s @ strip0 s" by (simp add: strip0_def)
  show "set (takeWhile (\<lambda>c. c = CHR ''0'') s) \<subseteq> {CHR ''0''}" by (auto dest: set_takeWhileD)
qed

lemma strip0_head: "strip0 s \<noteq> [] \<Longrightarrow> hd (strip0 s) \<noteq> CHR ''0''"
  using hd_dropWhile[of "\<lambda>c. c = CHR ''0''" s] unfolding strip0_def by blast

text \<open>The integer part.\<close>

lemma scan_integer:
  assumes s: "digit_string s" "int (length (strip0 s)) \<le> NUMERIC_MAX_DATA_BYTES"
  shows "scan_loop (s @ rest) neg False True False 0 n =
    scan_loop rest neg False (strip0 s = []) (s \<noteq> []) (int (length (strip0 s))) (stored False (strip0 s) 0 n)"
proof -
  obtain z where z: "s = z @ strip0 s" "set z \<subseteq> {CHR ''0''}" by (rule strip0_split)
  have lead: "scan_loop (s @ rest) neg False True False 0 n = scan_loop (strip0 s @ rest) neg False True (z \<noteq> []) 0 n"
    using scan_leading_zeros[OF z(2), of "strip0 s @ rest" neg False 0 n] z(1) by (metis append.assoc)
  show ?thesis
  proof (cases "strip0 s")
    case Nil
    thus ?thesis using lead z(1) by simp
  next
    case (Cons c t)
    have c: "isdigit c" "c \<noteq> CHR ''0''" "digit_string t"
      using s(1) strip0_head[of s] digit_string_simps(3)[of z "strip0 s", folded z(1)] unfolding Cons by simp_all
    have "scan_loop (strip0 s @ rest) neg False True (z \<noteq> []) 0 n = scan_loop (c # (t @ rest)) neg False False True 0 n"
      using c toupper_digit[of c] unfolding Cons by (auto simp: Let_def)
    also have "\<dots> = scan_loop (strip0 s @ rest) neg False False True 0 n" unfolding Cons by simp
    also have "\<dots> = scan_loop rest neg False False True (int (length (strip0 s))) (stored False (strip0 s) 0 n)"
      using scan_stored[of "strip0 s" 0 False False rest neg True n] s(2) c unfolding Cons by simp
    finally show ?thesis using lead z(1) Cons by auto
  qed
qed

subsection \<open>The value of a scanned number\<close>

lemma digits_value_lval: "digits_value s = lval (map digit_of s)"
proof -
  have "foldl (\<lambda>v c. 10 * v + digit_of c) a s = a * 10 ^ length s + lval (map digit_of s)" for a
    by (induction s arbitrary: a) (simp_all add: algebra_simps)
  thus ?thesis by (simp add: digits_value_def)
qed

lemma digits_value_append: "digits_value (s @ t) = digits_value s * 10 ^ length t + digits_value t"
proof -
  have "lval (a @ b) = lval a * 10 ^ length b + lval b" for a b by (induction a) (simp_all add: algebra_simps power_add)
  thus ?thesis by (simp add: digits_value_lval)
qed

lemma digits_value_zeros: "set z \<subseteq> {CHR ''0''} \<Longrightarrow> digits_value z = 0"
  unfolding digits_value_lval by (induction z) (auto simp: digit_of_def)

lemma digits_value_strip0: "digits_value (strip0 s @ t) = digits_value (s @ t)"
proof -
  obtain z where z: "s = z @ strip0 s" "set z \<subseteq> {CHR ''0''}" by (rule strip0_split)
  have "digits_value (z @ strip0 s @ t) = digits_value (strip0 s @ t)"
    unfolding digits_value_append[of z] digits_value_zeros[OF z(2)] by simp
  thus ?thesis using z(1) by (metis append.assoc)
qed

lemma digit_string_strip0: "digit_string s \<Longrightarrow> digit_string (strip0 s)"
  by (auto simp: digit_string_def strip0_def dest: set_dropWhileD)

text \<open>The number built from an integer part and a fraction.\<close>

definition scanned :: "string \<Rightarrow> string \<Rightarrow> numeric \<Rightarrow> numeric" where
  "scanned s t n = stored True t (int (length (strip0 s))) (stored False (strip0 s) 0 (NUM_SET_0 n))"

lemma scanned_fields:
  "n_len (scanned s t n) = int (length (strip0 s))" "n_scale (scanned s t n) = int (length t)"
  "n_invalid (scanned s t n) = 0" "n_neg (scanned s t n) = 0"
  "n_value (scanned s t n) = store_digits (n_value (NUM_SET_0 n)) (map digit_of (strip0 s @ t))"
  "dlen (scanned s t n) = length (strip0 s)" "dscale (scanned s t n) = length t"
  using store_at_append[of "n_value (NUM_SET_0 n)" 0 "strip0 s" t]
  by (simp_all add: scanned_def stored_def NUM_SET_0_def store_at_0 dlen_def dscale_def)

lemma scanned_norm:
  assumes "digit_string s" "digit_string t"
  shows "num_norm (scanned s t n)" "num_val (scanned s t n) = of_int (digits_value (s @ t)) / 10 ^ length t"
proof -
  let ?d = "map digit_of (strip0 s @ t)"
  have d: "\<forall>x\<in>set ?d. 0 \<le> x \<and> x \<le> 9" using digit_string_strip0[OF assms(1)] assms(2) digit_of_bounds by (auto simp: digit_string_def)
  have ok: "num_ok (scanned s t n)" using digits_store[OF d] by (simp add: num_ok_def scanned_fields)
  have "n_value (scanned s t n) 0 \<noteq> 0" if "strip0 s \<noteq> []"
  proof -
    have h: "n_value (scanned s t n) 0 = digit_of (hd (strip0 s))" using that by (cases "strip0 s") (simp_all add: scanned_fields store_digits_def)
    have "isdigit (hd (strip0 s))" using that digit_string_strip0[OF assms(1)] by (simp add: digit_string_def)
    moreover have "of_char (hd (strip0 s)) \<noteq> (48 :: int)" using strip0_head[OF that] of_char_eq_iff[of "hd (strip0 s)" "CHR ''0''", where ?'a = int] by simp
    ultimately show ?thesis unfolding h digit_of_def by simp
  qed
  thus "num_norm (scanned s t n)" using ok by (auto simp: num_norm_def scanned_fields)
  have "num_int (scanned s t n) = digits_value (s @ t)"
    using lval_store[of "n_value (NUM_SET_0 n)" ?d] digits_value_strip0[of s t] by (simp add: num_int_def scanned_fields digits_value_lval)
  thus "num_val (scanned s t n) = of_int (digits_value (s @ t)) / 10 ^ length t" by (simp add: num_val_def num_mag_def scanned_fields)
qed

text \<open>The text of a decimal number, and what the loop makes of it.\<close>

definition decimal :: "string \<Rightarrow> string \<Rightarrow> string" where
  "decimal s t = s @ (if t = [] then [] else CHR ''.'' # t)"

lemma scan_decimal:
  assumes "digit_string s" "digit_string t" "int (length (strip0 s) + length t) \<le> NUMERIC_MAX_DATA_BYTES"
  obtains first hg dp dot where "scan_loop (decimal s t @ rest) neg False True False 0 (NUM_SET_0 n) =
      scan_loop rest neg dot first hg dp (scanned s t n)" "hg \<longleftrightarrow> s \<noteq> [] \<or> t \<noteq> []" "dot \<longleftrightarrow> t \<noteq> []"
proof -
  have i: "scan_loop (decimal s t @ rest) neg False True False 0 (NUM_SET_0 n) =
      scan_loop ((if t = [] then [] else CHR ''.'' # t) @ rest) neg False (strip0 s = []) (s \<noteq> []) (int (length (strip0 s)))
        (stored False (strip0 s) 0 (NUM_SET_0 n))"
    unfolding decimal_def append.assoc by (rule scan_integer) (use assms in auto)
  show ?thesis
  proof (cases "t = []")
    case True
    thus ?thesis using i that[of False "strip0 s = []" "s \<noteq> []" "int (length (strip0 s))"] by (simp add: scanned_def)
  next
    case False
    have "toupper (CHR ''.'') \<noteq> CHR ''E''" by (simp add: toupper_def)
    hence "scan_loop (decimal s t @ rest) neg False True False 0 (NUM_SET_0 n) =
        scan_loop (t @ rest) neg True (strip0 s = []) (s \<noteq> []) (int (length (strip0 s))) (stored False (strip0 s) 0 (NUM_SET_0 n))"
      using False unfolding i by simp
    also have "\<dots> = scan_loop rest neg True (strip0 s = [] \<and> set t \<subseteq> {CHR ''0''}) (s \<noteq> [] \<or> strip0 s = [] \<and> t \<noteq> [])
        (int (length (strip0 s)) + int (length t)) (scanned s t n)"
      unfolding scanned_def by (rule scan_stored) (use assms in auto)
    finally show ?thesis by (rule that) (use False in \<open>auto simp: strip0_def\<close>)
  qed
qed

subsection \<open>Parsing a decimal number\<close>

definition blank :: "string \<Rightarrow> bool" where
  "blank s \<longleftrightarrow> (\<forall>c\<in>set s. isspace c)"

lemma skip_space_blank: "blank p \<Longrightarrow> b = [] \<or> \<not> isspace (hd b) \<Longrightarrow> skip_space (p @ b) = b"
  by (cases b) (auto simp: skip_space_def blank_def dropWhile_append2)

definition sign_text :: "string \<Rightarrow> bool" where
  "sign_text sg \<longleftrightarrow> sg = [] \<or> sg = ''+'' \<or> sg = ''-''"

lemma not_word: "b \<noteq> [] \<Longrightarrow> isdigit (hd b) \<or> hd b = CHR ''.'' \<Longrightarrow> \<not> stricmp_eq b ''INF'' \<and> \<not> stricmp_eq b ''Infinity'' \<and> b \<noteq> ''NaN''"
  by (cases b) (auto simp: stricmp_eq_def toupper_def isdigit_def)

lemma from_string_body:
  assumes p: "blank p" "sign_text sg" and b: "b \<noteq> []" "isdigit (hd b) \<or> hd b = CHR ''.''"
    and neg: "neg = (if sg = ''-'' then 1 else 0)" and sc: "scan_loop b neg False True False 0 (NUM_SET_0 n) = (m, NUMERIC_STS_SUCCESS, e)"
  shows "numeric_from_string n (p @ sg @ b) =
    (let (k, rc) = numeric_normalize m; k = (if neg = 1 \<and> \<not> num_is_zero k then k\<lparr>n_neg := 1\<rparr> else k);
         (k, error) = (if e \<noteq> 0 \<and> rc = NUMERIC_STS_SUCCESS then apply_exponent k neg e else (k, NUMERIC_STS_SUCCESS))
     in (k, if error = NUMERIC_STS_SUCCESS then rc else error))"
proof -
  have h: "\<not> isspace (hd b)" "hd b \<noteq> CHR ''$''" "hd b \<noteq> CHR ''-''" "hd b \<noteq> CHR ''+''" using b(2) isdigit_not_space toupper_digit(2) by (auto simp: isspace_def)
  have "hd (sg @ b) \<in> {hd b, CHR ''+'', CHR ''-''}" "sg @ b \<noteq> []" using p(2) b(1) by (auto simp: sign_text_def)
  hence s: "\<not> isspace (hd (sg @ b)) \<and> hd (sg @ b) \<noteq> CHR ''$''" using h by (auto simp: isspace_def)
  hence d: "skip_dollar (p @ sg @ b) = sg @ b" using skip_space_blank[OF p(1), of "sg @ b"] by (simp add: skip_dollar_def head_is_def)
  have t: "(if head_is (CHR ''-'') (sg @ b) \<or> head_is (CHR ''+'') (sg @ b) then tl (sg @ b) else sg @ b) = b"
      "(if head_is (CHR ''-'') (sg @ b) then 1 else 0) = neg"
    using p(2) h b(1) by (auto simp: sign_text_def head_is_def neg)
  have b': "skip_space b = b" using skip_space_blank[of "[]" b] h(1) by (simp add: blank_def)
  show ?thesis
    unfolding numeric_from_string_def Let_def d t b' sc using not_word[OF b] by (simp split: prod.split)
qed

lemma fit_minus: "fit (- x) = - fit x"
  by (simp add: fit_def int_digits_def trunc_to_minus)

lemma numeric_result_negate:
  assumes r: "numeric_result (k, rc) v" and v: "0 \<le> v"
  shows "numeric_result (if \<not> num_is_zero k then k\<lparr>n_neg := 1\<rparr> else k, rc) (- v)"
proof (cases "\<bar>v\<bar> < 10 ^ 40")
  case True
  hence k: "num_fin k" "num_val k = fit v" "rc = NUMERIC_STS_SUCCESS" using r by (auto simp: numeric_result_def)
  have ok: "num_ok k" using num_norm_ok num_fin_norm k(1) by blast
  have "0 \<le> fit v" using v by (simp add: fit_def trunc_to_nonneg)
  hence m: "num_mag k = fit v" using num_val_abs[OF ok] k(2) by simp
  show ?thesis
  proof (cases "num_is_zero k")
    case z: True
    hence "num_mag k = 0" using num_fin_zero[OF k(1)] by (simp add: num_mag_def)
    thus ?thesis using True k m z by (simp add: numeric_result_def fit_minus)
  next
    case False
    have n: "num_norm (k\<lparr>n_neg := 1\<rparr>)" "num_val (k\<lparr>n_neg := 1\<rparr>) = - num_mag k"
      using num_fin_norm[OF k(1)] by (simp_all add: num_neg_update)
    moreover have "num_fin (k\<lparr>n_neg := 1\<rparr>)" using n(1) k(1) False by (auto simp: num_fin_def num_is_zero_def)
    ultimately show ?thesis using True False k(3) m by (simp add: numeric_result_def fit_minus)
  qed
next
  case False
  hence "num_special k" using r by (simp add: numeric_result_def)
  hence "num_is_zero k" by (simp add: num_special_def num_is_zero_def)
  thus ?thesis using r False by (simp add: numeric_result_def)
qed

lemma decimal_head: "digit_string s \<Longrightarrow> s \<noteq> [] \<or> t \<noteq> [] \<Longrightarrow> decimal s t \<noteq> [] \<and> (isdigit (hd (decimal s t)) \<or> hd (decimal s t) = CHR ''.'')"
  by (cases s) (auto simp: decimal_def)

lemma numeric_from_string_decimal:
  assumes p: "blank p" "sign_text sg" and s: "digit_string s" "digit_string t" "s \<noteq> [] \<or> t \<noteq> []"
    and l: "int (length (strip0 s) + length t) \<le> NUMERIC_MAX_DATA_BYTES" and q: "q = [] \<or> isspace (hd q)"
  shows "numeric_result (numeric_from_string n (p @ sg @ decimal s t @ q))
    ((if sg = ''-'' then - 1 else 1) * (of_int (digits_value (s @ t)) / 10 ^ length t))"
proof -
  let ?neg = "if sg = ''-'' then 1 else 0 :: int" and ?m = "scanned s t n"
  have q': "scan_loop q ?neg dot first hg dp ?m = (?m, NUMERIC_STS_SUCCESS, 0)" for dot first hg dp
  proof (cases q)
    case (Cons c q')
    hence "isspace c" using q by simp
    hence "toupper c \<noteq> CHR ''E''" "c \<noteq> CHR ''.''" "\<not> isdigit c" "isspace c" using isdigit_not_space by (auto simp: isspace_def toupper_def)
    thus ?thesis unfolding Cons by simp
  qed simp
  obtain first hg dp dot where "scan_loop (decimal s t @ q) ?neg False True False 0 (NUM_SET_0 n) = scan_loop q ?neg dot first hg dp ?m"
    using scan_decimal[OF s(1,2) l] by metis
  hence sc: "scan_loop (decimal s t @ q) ?neg False True False 0 (NUM_SET_0 n) = (?m, NUMERIC_STS_SUCCESS, 0)" unfolding q' .
  have hd: "decimal s t @ q \<noteq> []" "isdigit (hd (decimal s t @ q)) \<or> hd (decimal s t @ q) = CHR ''.''" using decimal_head[OF s(1,3)] by auto
  obtain k rc where k: "numeric_normalize ?m = (k, rc)" by fastforce
  have f: "numeric_from_string n (p @ sg @ decimal s t @ q) = (if sg = ''-'' \<and> \<not> num_is_zero k then k\<lparr>n_neg := 1\<rparr> else k, rc)"
    using from_string_body[OF p hd refl sc] k by (simp add: Let_def)
  have r: "numeric_result (k, rc) (num_val ?m)" using numeric_normalize_result[OF scanned_norm(1)[OF s(1,2)], of n] k by (simp add: scanned_fields)
  have "0 \<le> num_val ?m" using num_mag_nonneg[OF num_norm_ok[OF scanned_norm(1)[OF s(1,2)]], of n] by (simp add: num_val_def scanned_fields)
  from numeric_result_negate[OF r this] r show ?thesis unfolding f scanned_norm(2)[OF s(1,2)] by auto
qed

subsection \<open>The text that is written\<close>

definition digit_chars :: "(int \<Rightarrow> int) \<Rightarrow> int \<Rightarrow> nat \<Rightarrow> string" where
  "digit_chars v a k = map (\<lambda>i. char_of (v (a + int i) + 48)) [0..<k]"

definition int_text :: "numeric \<Rightarrow> string" where
  "int_text n = (if n_len n = 0 then ''0'' else digit_chars (n_value n) 0 (dlen n))"

definition number_text :: "numeric \<Rightarrow> string" where
  "number_text n = (if n_neg n \<noteq> 0 then ''-'' else []) @ decimal (int_text n) (digit_chars (n_value n) (n_len n) (dscale n))"

lemma length_digit_chars [simp]: "length (digit_chars v a k) = k" "digit_chars v a 0 = []" "digit_chars v a k = [] \<longleftrightarrow> k = 0"
  by (simp_all add: digit_chars_def)

lemma digit_char: "0 \<le> x \<Longrightarrow> x \<le> 9 \<Longrightarrow> digit_of (char_of (x + 48 :: int)) = x \<and> isdigit (char_of (x + 48 :: int))"
proof -
  assume x: "0 \<le> x" "x \<le> (9 :: int)"
  define c :: char where "c = char_of (x + 48)"
  have "of_char c = x + 48" using x by (simp add: c_def)
  thus ?thesis using x of_nat_of_char[of c, where ?'a = int] unfolding digit_of_def isdigit_def c_def[symmetric] by linarith
qed

lemma digit_chars_string: "digits v a k \<Longrightarrow> digit_string (digit_chars v a k)"
  using digit_char by (auto simp: digit_string_def digit_chars_def digits_def)

lemma digit_chars_append: "digit_chars v a (k + m) = digit_chars v a k @ digit_chars v (a + int k) m"
proof -
  have "[0..<k + m] = [0..<k] @ map (\<lambda>i. k + i) [0..<m]" by (rule nth_equalityI) (auto simp: nth_append)
  thus ?thesis by (simp add: digit_chars_def algebra_simps)
qed

lemma digits_value_chars: "digits v a k \<Longrightarrow> digits_value (digit_chars v a k) = dval v a k"
proof (induction k)
  case 0 thus ?case by (simp add: digits_value_def)
next
  case (Suc k)
  have "digit_chars v a (Suc k) = digit_chars v a k @ [char_of (v (a + int k) + 48)]" by (simp add: digit_chars_def)
  moreover have "digits_value [char_of (v (a + int k) + 48)] = v (a + int k)"
    using Suc.prems digit_char[of "v (a + int k)"] by (simp add: digits_value_def digits_Suc)
  ultimately show ?case using Suc by (simp add: digits_value_append digits_Suc)
qed

text \<open>A state of the writer: the text stored so far is the start of the buffer.\<close>

definition written :: "nat \<Rightarrow> string \<Rightarrow> string \<times> nat \<Rightarrow> bool" where
  "written L s = (\<lambda>(str, cp). cp = length s \<and> take cp str = s \<and> length str = L)"

lemma room_mod: "0 < max_str \<Longrightarrow> max_str < 2 ^ 63 \<Longrightarrow> (int max_str - 1) mod 2 ^ 64 = int max_str - 1"
  by (rule mod_pos_pos_trivial) (auto simp: of_nat_diff)

lemma put_written:
  assumes w: "written L s st" and r: "length s + 1 < max_str" "max_str \<le> L" "max_str < 2 ^ 63"
  shows "written L (s @ [c]) (put max_str c st)"
proof -
  obtain str cp where st: "st = (str, cp)" by fastforce
  have "cp < length str" "int cp < int max_str - 1" using w r by (auto simp: st written_def)
  thus ?thesis using w r room_mod[of max_str] by (auto simp: st written_def put_def take_Suc_conv_app_nth)
qed

lemma put_digits_written:
  assumes r: "max_str \<le> L" "max_str < 2 ^ 63"
  shows "written L s st \<Longrightarrow> length s + k < max_str \<Longrightarrow>
    written L (s @ digit_chars v p k) (fst (put_digits max_str k v p st)) \<and> snd (put_digits max_str k v p st) = p + int k"
proof (induction k arbitrary: s st p)
  case (Suc k)
  have "int (snd st) < (int max_str - 1) mod 2 ^ 64" using Suc.prems room_mod[of max_str] r by (auto simp: written_def)
  moreover have "written L (s @ [char_of (v p + 48)]) (put max_str (char_of (v p + 48)) st)"
    using put_written[OF Suc.prems(1) _ r] Suc.prems(2) by simp
  moreover have "digit_chars v p (Suc k) = char_of (v p + 48) # digit_chars v (p + 1) k"
    using digit_chars_append[of v p 1 k] by (simp add: digit_chars_def)
  ultimately show ?case using Suc.IH[of "s @ [char_of (v p + 48)]" "put max_str (char_of (v p + 48)) st" "p + 1"] Suc.prems(2) by simp
qed simp

lemma digit_string_no_nul: "digit_string s \<Longrightarrow> CHR 0x00 \<notin> set s"
  by (auto simp: digit_string_def isdigit_def)

lemma int_text_string: "num_ok n \<Longrightarrow> digit_string (int_text n)"
  using num_okD(1)[of n] digits_sub[OF num_okD(5), of n 0 "dlen n"] digit_chars_string
  by (auto simp: int_text_def) (simp add: isdigit_def)

lemma frac_text_string: "num_ok n \<Longrightarrow> digit_string (digit_chars (n_value n) (n_len n) (dscale n))"
  using num_okD(1)[of n] digits_sub[OF num_okD(5), of n "n_len n" "dscale n"] digit_chars_string by auto

lemma write_digits_text:
  assumes n: "num_ok n" and r: "length (number_text n) + 1 < max_str" "max_str \<le> length str" "max_str < 2 ^ 63"
  shows "cstr (write_digits n str max_str) = number_text n"
proof -
  note k = num_okD[OF n]
  have nt: "nat (n_len n) = dlen n" "nat (n_scale n) = dscale n" by (simp_all add: dlen_def dscale_def)
  let ?L = "length str" and ?s0 = "if n_neg n \<noteq> 0 then ''-'' else []" and ?f = "digit_chars (n_value n) (n_len n) (dscale n)"
  define st0 where "st0 = (if n_neg n \<noteq> 0 then put max_str (CHR ''-'') (str, 0) else (str, 0))"
  have len: "length ?s0 + length (int_text n) + (if dscale n = 0 then 0 else 1 + dscale n) + 1 < max_str"
    using r(1) unfolding number_text_def decimal_def by (simp split: if_splits)
  have w0: "written ?L ?s0 st0" using put_written[of ?L "[]" "(str, 0)" max_str] len r by (auto simp: st0_def written_def)
  define st1 where "st1 = (if n_len n = 0 then (put max_str (CHR ''0'') st0, 0) else put_digits max_str (nat (n_len n)) (n_value n) 0 st0)"
  have w1: "written ?L (?s0 @ int_text n) (fst st1) \<and> snd st1 = n_len n"
    using put_written[OF w0 _ r(2,3)] put_digits_written[OF r(2,3) w0, of "dlen n" "n_value n" 0] len k(1)
    unfolding st1_def nt int_text_def by (auto split: if_splits)
  define st2 where "st2 = (if n_scale n > 0 then fst (put_digits max_str (nat (n_scale n)) (n_value n) (snd st1) (put max_str (CHR ''.'') (fst st1))) else fst st1)"
  have w2: "written ?L (number_text n) st2"
  proof (cases "dscale n = 0")
    case True
    thus ?thesis using w1 k(2) by (simp add: st2_def number_text_def decimal_def)
  next
    case False
    have "written ?L (?s0 @ int_text n @ ''.'') (put max_str (CHR ''.'') (fst st1))"
      using put_written[OF w1[THEN conjunct1] _ r(2,3), of "CHR ''.''"] len False by simp
    from put_digits_written[OF r(2,3) this, of "dscale n" "n_value n" "n_len n"] show ?thesis
      using w1 len False k(2) unfolding st2_def nt by (simp add: number_text_def decimal_def)
  qed
  obtain str' cp where st: "st2 = (str', cp)" by fastforce
  have "write_digits n str max_str = str'[cp := CHR 0x00]"
    using w2 r room_mod[of max_str] unfolding write_digits_def Let_def st0_def[symmetric] st1_def[symmetric]
    by (simp add: st2_def[symmetric] st written_def case_prod_unfold)
  also have "\<dots> = number_text n @ CHR 0x00 # drop (Suc cp) str'" using w2 r by (auto simp: st written_def upd_conv_take_nth_drop)
  finally have e: "write_digits n str max_str = number_text n @ CHR 0x00 # drop (Suc cp) str'" .
  have "CHR 0x00 \<notin> set (number_text n)"
    using digit_string_no_nul[OF int_text_string[OF n]] digit_string_no_nul[OF frac_text_string[OF n]] by (auto simp: number_text_def decimal_def)
  thus ?thesis unfolding cstr_def e by (subst takeWhile_append2) auto
qed

subsection \<open>Reading back what was written\<close>

lemma fit_exact: "num_norm n \<Longrightarrow> n_len n \<le> 40 \<Longrightarrow> n_scale n \<le> 20 \<Longrightarrow> n_len n + n_scale n \<le> 45 \<Longrightarrow> fit (num_val n) = num_val n"
proof -
  assume n: "num_norm n" "n_len n \<le> 40" "n_scale n \<le> 20" "n_len n + n_scale n \<le> 45"
  note k = num_okD[OF num_norm_ok[OF n(1)]]
  have "dscale n \<le> min 20 (45 - dlen n)" using n k(1,2) by simp
  from num_val_int10[OF num_norm_ok[OF n(1)] this] show ?thesis unfolding fit_def int_digits_norm[OF n(1)] using trunc_to_exact by blast
qed

lemma number_text_value: "num_ok n \<Longrightarrow> digits_value (int_text n @ digit_chars (n_value n) (n_len n) (dscale n)) = num_int n"
proof -
  assume n: "num_ok n"
  note k = num_okD[OF n]
  show ?thesis
  proof (cases "dlen n = 0")
    case True
    hence e: "int_text n = ''0''" "n_len n = 0" using k(1) by (simp_all add: int_text_def)
    have "digits_value (''0'' @ s) = digits_value s" for s unfolding digits_value_append by (simp add: digits_value_zeros)
    thus ?thesis using k(5) True unfolding e by (simp add: num_int_def digits_value_chars)
  next
    case False
    hence "int_text n = digit_chars (n_value n) 0 (dlen n)" using k(1) by (simp add: int_text_def)
    thus ?thesis using digit_chars_append[of "n_value n" 0 "dlen n" "dscale n"] digits_value_chars[OF k(5)] k(1) by (simp add: num_int_def)
  qed
qed

lemma number_text_length: "num_ok n \<Longrightarrow> length (number_text n) \<le> 3 + dlen n + dscale n"
  using num_okD(1)[of n] by (auto simp: number_text_def decimal_def int_text_def)

lemma numeric_from_number_text:
  assumes n: "num_norm n" "n_len n \<le> 40" "n_scale n \<le> 20" "n_len n + n_scale n \<le> 45"
  shows "\<exists>r. numeric_from_string z (number_text n) = (r, NUMERIC_STS_SUCCESS) \<and> num_fin r \<and> num_val r = num_val n"
proof -
  note ok = num_norm_ok[OF n(1)] note k = num_okD[OF ok]
  let ?t = "digit_chars (n_value n) (n_len n) (dscale n)" and ?sg = "if n_neg n \<noteq> 0 then ''-'' else []"
  have l: "length (strip0 (int_text n)) \<le> length (int_text n)" by (simp add: strip0_def length_dropWhile_le)
  have ln: "int_text n \<noteq> []" "length (int_text n) \<le> dlen n + 1" using k(1) by (auto simp: int_text_def)
  have r: "numeric_result (numeric_from_string z ([] @ ?sg @ decimal (int_text n) ?t @ []))
    ((if ?sg = ''-'' then - 1 else 1) * (of_int (digits_value (int_text n @ ?t)) / 10 ^ length ?t))"
    using l ln n k(1,2) int_text_string[OF ok] frac_text_string[OF ok]
    by (intro numeric_from_string_decimal) (auto simp: blank_def sign_text_def numeric_consts)
  have v: "(if ?sg = ''-'' then - 1 else 1) * (of_int (digits_value (int_text n @ ?t)) / 10 ^ length ?t) = num_val n"
    unfolding number_text_value[OF ok] by (simp add: num_val_def num_mag_def)
  have "\<bar>num_val n\<bar> < 10 ^ 40" using num_norm_less_pow[OF n(1), of 40] n(2) k(1) by simp
  moreover have "[] @ ?sg @ decimal (int_text n) ?t @ [] = number_text n" by (simp add: number_text_def)
  ultimately show ?thesis using r fit_exact[OF n] unfolding v by (cases "numeric_from_string z (number_text n)") (auto simp: numeric_result_def)
qed

lemma eff_scale_40: "eff_scale NUMERIC_MAX_PRECISION NUMERIC_MAX_SCALE x = nat (min 15 (40 - n_len x))" "eff_prec NUMERIC_MAX_PRECISION = 40"
  by (simp_all add: eff_scale_def eff_prec_def numeric_consts)

lemma round_to_bound: "\<bar>round_to k x\<bar> \<le> \<bar>x\<bar> + 1"
proof -
  let ?f = "of_int \<lfloor>\<bar>x\<bar> * 10 ^ k + 1 / 2\<rfloor> :: real"
  have "?f \<le> \<bar>x\<bar> * 10 ^ k + 1 / 2" by simp
  hence "?f / 10 ^ k \<le> (\<bar>x\<bar> * 10 ^ k + 1 / 2) / 10 ^ k" by (rule divide_right_mono) simp
  also have "\<dots> = \<bar>x\<bar> + 1 / 2 / 10 ^ k" by (simp add: add_divide_distrib)
  also have "1 / 2 / 10 ^ k \<le> (1 :: real)"
  proof -
    have "1 \<le> 2 * (10 :: real) ^ k" using one_le_power[of "10 :: real" k] by linarith
    thus ?thesis by (simp add: field_simps)
  qed
  finally have "?f / 10 ^ k \<le> \<bar>x\<bar> + 1" by simp
  moreover have "\<bar>round_to k x\<bar> = \<bar>sgn x\<bar> * (?f / 10 ^ k)" by (simp add: round_to_def abs_mult)
  moreover have "\<bar>sgn x\<bar> = 0 \<or> \<bar>sgn x\<bar> = 1" by (simp add: sgn_if)
  ultimately show ?thesis by auto
qed

lemma numeric_to_from_string:
  assumes x: "num_fin x" and v: "v = round_to (nat (min 15 (40 - n_len x))) (num_val x)" "\<bar>v\<bar> < 10 ^ 40"
    and r: "46 < max_str" "max_str \<le> length str" "max_str < 2 ^ 63" and p: "numeric_to_string block b2 b x str max_str = (str', st)"
  shows "st = NUMERIC_STS_SUCCESS" "\<exists>y. numeric_from_string z (cstr str') = (y, NUMERIC_STS_SUCCESS) \<and> num_fin y \<and> num_val y = v"
proof -
  note b = num_fin_bounds[OF x]
  note k = num_okD[OF num_norm_ok[OF num_fin_norm[OF x]]]
  obtain temp rc where t: "numeric_rescale False block b2 (numeric_init_static b) x NUMERIC_MAX_PRECISION NUMERIC_MAX_SCALE = (temp, rc)" by fastforce
  have s: "rc = NUMERIC_STS_SUCCESS" "num_norm temp" "num_val temp = v" "n_scale temp \<le> min 15 (40 - n_len x)"
    using numeric_rescale_correct_aux[OF num_fin_norm[OF x] _ _ _ refl t[symmetric]] b v by (auto simp: eff_scale_40)
  note kt = num_okD[OF num_norm_ok[OF s(2)]]
  have "\<bar>num_val x\<bar> < 10 ^ dlen x" using num_norm_less_pow[OF num_fin_norm[OF x]] by blast
  hence "\<bar>v\<bar> < 10 ^ dlen x + 1" using round_to_bound[of "nat (min 15 (40 - n_len x))" "num_val x"] v(1) by linarith
  also have "(10 :: real) ^ dlen x + 1 \<le> 10 ^ Suc (dlen x)" using one_le_power[of "10 :: real" "dlen x"] unfolding power_Suc by linarith
  finally have "\<bar>num_val temp\<bar> < 10 ^ Suc (dlen x)" "\<bar>num_val temp\<bar> < 10 ^ 40" unfolding s(3) using v(2) by blast+
  hence d: "dlen temp \<le> Suc (dlen x)" "dlen temp \<le> 40" unfolding num_norm_less_pow[OF s(2)] by blast+
  hence f: "n_len temp \<le> 40" "n_scale temp \<le> 20" "n_len temp + n_scale temp \<le> 45" "dlen temp + dscale temp \<le> 41" using s(4) kt(1,2) k(1) by auto
  have e: "(str', st) = (write_digits temp str max_str, NUMERIC_STS_SUCCESS)"
    using p num_fin_valid[OF x] s(1) t unfolding numeric_to_string_def numeric_to_string_prec_def by (simp add: numeric_consts)
  thus "st = NUMERIC_STS_SUCCESS" by simp
  have "cstr str' = number_text temp"
    using write_digits_text[OF num_norm_ok[OF s(2)] _ r(2,3)] number_text_length[OF num_norm_ok[OF s(2)]] f(4) r(1) e by simp
  thus "\<exists>y. numeric_from_string z (cstr str') = (y, NUMERIC_STS_SUCCESS) \<and> num_fin y \<and> num_val y = v"
    using numeric_from_number_text[OF s(2) f(1-3), of z] s(3) by simp
qed

subsection \<open>Exponents\<close>

text \<open>Moving the decimal point by less than the number of digits keeps the digits.\<close>

lemma num_shift:
  assumes k: "num_ok k" and r: "n_len r = l" "n_scale r = s" "n_neg r = n_neg k" "n_invalid r = n_invalid k"
    and v: "\<And>i. 0 \<le> i \<Longrightarrow> i < l + s \<Longrightarrow> n_value r i = (if a \<le> i \<and> i < a + n_len k + n_scale k then n_value k (i - a) else 0)"
    and ls: "0 \<le> l" "0 \<le> s" "0 \<le> a" "l + s = a + n_len k + n_scale k + b" "0 \<le> b" and e: "n_scale k - s = e - b"
  shows "num_ok r \<and> num_val r = num_val k * 10 powi e"
proof -
  note f = num_okD[OF k]
  let ?m = "dlen k + dscale k" and ?v = "n_value r"
  have nr: "dlen r = nat l" "dscale r = nat s" using r by (simp_all add: dlen_def dscale_def)
  have d: "dlen r + dscale r = nat a + ?m + nat b" unfolding nr using ls f(1,2) by linarith
  have v0: "?v i = 0" if "0 \<le> i" "i < a" for i using v[of i] that ls f(1,2) by simp
  have v1: "?v i = n_value k (i + - a)" if "a \<le> i" "i < a + int ?m" for i using v[of i] that ls f(1,2) by simp
  have v2: "?v i = 0" if "a + int ?m \<le> i" "i < a + int ?m + b" for i using v[of i] that ls f(1,2) by simp
  have dg1: "digits ?v a ?m" by (rule digits_cong[of _ _ _ _ "- a"]) (use v1 f(5) in auto)
  have z: "digits ?v 0 (nat a)" "digits ?v (a + int ?m) (nat b)" using v0 v2 ls by (auto simp: digits_def)
  have dg: "digits ?v 0 (dlen r + dscale r)" unfolding d
    by (rule digits_append[OF digits_append[OF z(1)]]) (use z(2) dg1 ls in simp_all)
  have "dval ?v a ?m = dval (n_value k) (a + - a) ?m" by (rule dval_cong) (use v1 in auto)
  moreover have "dval ?v 0 (nat a) = 0" "dval ?v (a + int ?m) (nat b) = 0" using v0 v2 ls by (auto intro!: dval_zeros)
  ultimately have "num_int r = num_int k * 10 ^ nat b"
    using ls unfolding num_int_def d dval_append by (simp add: add.commute)
  moreover have "(10 :: real) ^ nat b * 10 ^ dscale k = 10 powi e * 10 ^ dscale r"
  proof -
    have "int (nat b) + int (dscale k) = e + int (dscale r)" using e ls f(2) nr by simp
    hence "(10 :: real) powi (int (nat b) + int (dscale k)) = 10 powi (e + int (dscale r))" by simp
    thus ?thesis by (simp add: power_int_add del: int_nat_eq)
  qed
  ultimately have "num_mag r = num_mag k * 10 powi e" by (simp add: num_mag_def field_simps)
  moreover have "num_ok r" using dg r ls f(3,4) by (simp add: num_ok_def)
  ultimately show ?thesis using r(3) by (simp add: num_val_def)
qed

lemma apply_exponent_val:
  assumes k: "num_fin k" and e: "e \<noteq> 0" "\<bar>e\<bar> \<le> 1000000" and l: "n_len k + e \<le> 40" and r: "apply_exponent k neg e = (r, st)"
  shows "st = NUMERIC_STS_SUCCESS \<and> num_ok r \<and> num_val r = (if n_len k + e \<le> - 20 then 0 else num_val k * 10 powi e)"
proof -
  note ok = num_norm_ok[OF num_fin_norm[OF k]] note f = num_okD[OF ok] note b = num_fin_bounds[OF k]
  have w: "wrap INT32_MAX (- e) = - e" "wrap 127 (n_len k + e) = n_len k + e" "wrap 127 (n_scale k - e) = n_scale k - e" if "e < 0" "- e \<le> n_len k"
    using that b e f(1,2) by (simp_all add: wrap_def INT32_MAX_def)
  have w': "wrap INT32_MAX (- e) = - e" using e by (simp add: wrap_def INT32_MAX_def)
  note d = r[symmetric, unfolded apply_exponent_def Let_def w']
  consider "e > 0" "n_scale k \<ge> e" | "e > 0" "n_scale k < e" | "e < 0" "n_len k \<ge> - e" | "e < 0" "n_len k < - e" "n_len k + e \<le> - 20"
    | "e < 0" "n_len k < - e" "- 20 < n_len k + e" using e(1) by linarith
  thus ?thesis
  proof cases
    case 1
    thus ?thesis using d num_shift[OF ok, of r "n_len k + e" "n_scale k - e" 0 0 e] f(1,2) by simp
  next
    case 2
    thus ?thesis using d num_shift[OF ok, of r "n_len k + e" 0 0 "e - n_scale k" e] f(1,2) l by (simp add: numeric_consts mem_set_def)
  next
    case 3
    thus ?thesis using d num_shift[OF ok, of r "n_len k + e" "n_scale k - e" 0 0 e] f(1,2) w by simp
  next
    case 4
    thus ?thesis using d num_0_norm num_norm_ok by (simp add: numeric_consts)
  next
    case 5
    thus ?thesis using d num_shift[OF ok, of r 0 "n_scale k - e" "- e - n_len k" 0 e] f(1,2) b by (simp add: numeric_consts mem_set_def mem_copy_def algebra_simps)
  qed
qed

lemma numeric_from_string_exp:
  assumes p: "blank p" "sign_text sg" and s: "digit_string s" "digit_string t" "s \<noteq> [] \<or> t \<noteq> []"
    and l: "int (length (strip0 s) + length t) \<le> NUMERIC_MAX_DATA_BYTES" and c: "c = CHR ''e'' \<or> c = CHR ''E''"
    and m: "numeric_from_string n (p @ sg @ decimal s t) = (k, NUMERIC_STS_SUCCESS)" and e: "atoi es \<noteq> 0"
  shows "numeric_from_string n (p @ sg @ decimal s t @ c # es) =
    (let (r, st) = apply_exponent k (if sg = ''-'' then 1 else 0) (atoi es) in (r, st))"
proof -
  let ?neg = "if sg = ''-'' then 1 else 0 :: int" and ?m = "scanned s t n"
  have "toupper (CHR ''e'') = CHR ''E''" "toupper (CHR ''E'') = CHR ''E''" by code_simp+
  hence c': "toupper c = CHR ''E''" using c by auto
  have sc: "scan_loop (decimal s t @ c # es) ?neg False True False 0 (NUM_SET_0 n) = (?m, NUMERIC_STS_SUCCESS, atoi es)"
    "scan_loop (decimal s t @ []) ?neg False True False 0 (NUM_SET_0 n) = (?m, NUMERIC_STS_SUCCESS, 0)"
    by (rule scan_decimal[OF s(1,2) l, of "c # es" ?neg n], use s(3) c' in simp)
       (rule scan_decimal[OF s(1,2) l, of "[]" ?neg n], simp)
  have hd: "decimal s t @ q \<noteq> []" "isdigit (hd (decimal s t @ q)) \<or> hd (decimal s t @ q) = CHR ''.''" for q using decimal_head[OF s(1,3)] by auto
  obtain k0 rc where k0: "numeric_normalize ?m = (k0, rc)" by fastforce
  show ?thesis
    using from_string_body[OF p hd refl sc(1)] from_string_body[OF p hd refl sc(2)] m e k0
    by (auto simp: Let_def split: prod.splits if_splits)
qed

subsection \<open>The check before parsing\<close>

text \<open>After at least one digit the rest of the text does not make the loop report a syntax error.\<close>

definition passes :: "int \<Rightarrow> bool \<Rightarrow> string \<Rightarrow> bool" where
  "passes neg dot rest \<longleftrightarrow> (\<forall>first dp n. fst (snd (scan_loop rest neg dot first True dp n)) \<noteq> NUMERIC_STS_INVALID_STR)"

lemma sts_success: "NUMERIC_STS_SUCCESS \<noteq> NUMERIC_STS_INVALID_STR"
  by (simp add: NUMERIC_STS_SUCCESS_def NUMERIC_STS_INVALID_STR_def)

lemma numeric_inf_status: "snd (numeric_inf n neg) \<noteq> NUMERIC_STS_INVALID_STR"
  by (simp add: numeric_inf_def NUMERIC_STS_OVERFLOW_def NUMERIC_STS_UNDERFLOW_def NUMERIC_STS_INVALID_STR_def)

lemma passes_digit:
  assumes c: "isdigit c" and p: "passes neg dot rest" and h: "first \<or> hg"
  shows "fst (snd (scan_loop (c # rest) neg dot first hg dp n)) \<noteq> NUMERIC_STS_INVALID_STR"
proof -
  have t: "toupper c \<noteq> CHR ''E''" "c \<noteq> CHR ''.''" using toupper_digit[OF c] by auto
  have p': "fst (snd (scan_loop rest neg dot f True d m)) \<noteq> NUMERIC_STS_INVALID_STR" for f d m using p by (simp add: passes_def)
  have h': "(first \<or> hg) = True" using h by simp
  show ?thesis
    unfolding scan_loop.simps Let_def h' using t c p' numeric_inf_status by (cases dot) (simp_all add: case_prod_unfold)
qed

lemma passes_digits: "digit_string s \<Longrightarrow> passes neg dot rest \<Longrightarrow> passes neg dot (s @ rest)"
proof (induction s)
  case (Cons c s)
  hence "isdigit c" "passes neg dot (s @ rest)" by simp_all
  hence "fst (snd (scan_loop (c # s @ rest) neg dot f True d m)) \<noteq> NUMERIC_STS_INVALID_STR" for f d m by (rule passes_digit) simp
  thus ?case unfolding passes_def append_Cons by (intro allI)
qed simp

lemma passes_digits_start:
  assumes "digit_string s" "s \<noteq> []" "passes neg dot rest"
  shows "fst (snd (scan_loop (s @ rest) neg dot True False dp n)) \<noteq> NUMERIC_STS_INVALID_STR"
proof (cases s)
  case (Cons c t)
  hence "isdigit c" "passes neg dot (t @ rest)" using assms passes_digits by simp_all
  thus ?thesis unfolding Cons append_Cons by (rule passes_digit) simp
qed (simp add: assms)

lemma toupper_E: "toupper (CHR ''E'') = CHR ''E''" "toupper (CHR ''e'') = CHR ''E''" "toupper (CHR ''.'') \<noteq> CHR ''E''"
  by code_simp+

lemma passes_tail:
  "passes neg dot []" "head_is (CHR ''E'') q \<or> head_is (CHR ''e'') q \<Longrightarrow> passes neg dot q" "q \<noteq> [] \<Longrightarrow> isspace (hd q) \<Longrightarrow> passes neg dot q"
    "passes neg True q \<Longrightarrow> passes neg False (CHR ''.'' # q)"
proof -
  show "passes neg dot []" by (simp add: passes_def sts_success)
  show "head_is (CHR ''E'') q \<or> head_is (CHR ''e'') q \<Longrightarrow> passes neg dot q"
  proof (cases q)
    case (Cons c q')
    assume "head_is (CHR ''E'') q \<or> head_is (CHR ''e'') q"
    hence "toupper c = CHR ''E''" using toupper_E unfolding Cons head_is_def by auto
    thus ?thesis unfolding Cons by (simp add: passes_def sts_success)
  qed (simp add: head_is_def)
  show "q \<noteq> [] \<Longrightarrow> isspace (hd q) \<Longrightarrow> passes neg dot q"
  proof (cases q)
    case (Cons c q')
    assume "isspace (hd q)"
    hence "c \<noteq> CHR ''.''" "\<not> isdigit c" "isspace c" using isdigit_not_space Cons by (auto simp: isspace_def)
    thus ?thesis unfolding Cons by (simp add: passes_def sts_success)
  qed simp
  show "passes neg True q \<Longrightarrow> passes neg False (CHR ''.'' # q)" by (simp add: passes_def toupper_E)
qed

lemma number_status: "snd (numeric_normalize n) \<noteq> NUMERIC_STS_INVALID_STR" "snd (apply_exponent n neg e) \<noteq> NUMERIC_STS_INVALID_STR"
  using numeric_inf_status by (auto simp: numeric_normalize_def apply_exponent_def Let_def sts_success)

lemma numeric_from_string_status:
  assumes cp: "cp = skip_space (if head_is (CHR ''-'') (skip_dollar s) \<or> head_is (CHR ''+'') (skip_dollar s) then tl (skip_dollar s) else skip_dollar s)"
    and e: "\<And>neg. fst (snd (scan_loop cp neg False True False 0 (NUM_SET_0 n))) \<noteq> NUMERIC_STS_INVALID_STR"
  shows "snd (numeric_from_string n s) \<noteq> NUMERIC_STS_INVALID_STR"
proof -
  let ?neg = "if head_is (CHR ''-'') (skip_dollar s) then 1 else 0 :: int"
  obtain m er ex where m: "scan_loop cp ?neg False True False 0 (NUM_SET_0 n) = (m, er, ex)" using prod_cases3 by blast
  have er: "er \<noteq> NUMERIC_STS_INVALID_STR" using e[of ?neg] unfolding m by simp
  obtain k rc where k: "numeric_normalize m = (k, rc)" by fastforce
  have rc: "rc \<noteq> NUMERIC_STS_INVALID_STR" using number_status(1)[of m] unfolding k by simp
  show ?thesis
    unfolding numeric_from_string_def Let_def cp[symmetric] m k prod.case
    using er rc sts_success number_status(2) by (auto simp: case_prod_unfold k)
qed

lemma is_ok_passes:
  assumes "dot = head_is (CHR ''.'') (dropWhile isdigit cp)"
    and "t = (if dot then takeWhile isdigit (tl (dropWhile isdigit cp)) else [])" and "q = (if dot then dropWhile isdigit (tl (dropWhile isdigit cp)) else dropWhile isdigit cp)"
    and ne: "length (takeWhile isdigit cp) + length t \<noteq> 0" and q: "\<And>d. passes neg d q"
  shows "fst (snd (scan_loop cp neg False True False 0 n)) \<noteq> NUMERIC_STS_INVALID_STR"
proof -
  let ?s = "takeWhile isdigit cp"
  have ds: "digit_string ?s" "digit_string t" using assms(2) by (auto simp: digit_string_def dest: set_takeWhileD)
  have cp: "cp = ?s @ (if dot then CHR ''.'' # t @ q else q)"
  proof (cases dot)
    case True
    hence "dropWhile isdigit cp = CHR ''.'' # t @ q" using assms(1-3) by (cases "dropWhile isdigit cp") (auto simp: head_is_def)
    thus ?thesis using takeWhile_dropWhile_id[of isdigit cp] True by simp
  next
    case False
    thus ?thesis using takeWhile_dropWhile_id[of isdigit cp] assms(3) by simp
  qed
  have p: "passes neg True (t @ q)" "passes neg False (CHR ''.'' # t @ q)" "passes neg False q" using passes_digits[OF ds(2) q] passes_tail(4) q by auto
  show ?thesis
  proof (cases "?s = []")
    case False
    thus ?thesis using passes_digits_start[OF ds(1) False, of neg False "if dot then CHR ''.'' # t @ q else q" 0 n] p unfolding cp[symmetric] by simp
  next
    case True
    hence t: "t \<noteq> []" dot using ne assms(2) by (auto split: if_splits)
    thus ?thesis using passes_digits_start[OF ds(2) t(1) q, of True 0 n] cp True by (subst cp) (simp add: toupper_E)
  qed
qed

lemma numeric_from_string_is_ok_sound:
  assumes ok: "numeric_from_string_is_ok s = Some f"
  shows "snd (numeric_from_string n s) \<noteq> NUMERIC_STS_INVALID_STR
    \<or> stricmp_eq (skip_space (if head_is (CHR ''-'') f \<or> head_is (CHR ''+'') f then tl f else f)) ''NaN''"
proof -
  define cp where "cp = skip_space (if head_is (CHR ''-'') (skip_dollar s) \<or> head_is (CHR ''+'') (skip_dollar s) then tl (skip_dollar s) else skip_dollar s)"
  have f: "f = skip_dollar s" using ok by (auto simp: numeric_from_string_is_ok_def Let_def split: if_splits)
  show ?thesis
  proof (cases "\<not> (cp \<noteq> [] \<and> isdigit (hd cp)) \<and> (stricmp_eq cp ''INF'' \<or> stricmp_eq cp ''Infinity'' \<or> stricmp_eq cp ''NaN'')")
    case True
    show ?thesis
    proof (cases "stricmp_eq cp ''NaN''")
      case False
      hence "snd (numeric_from_string n s) = NUMERIC_STS_SUCCESS"
        using True unfolding numeric_from_string_def Let_def cp_def[symmetric] by auto
      thus ?thesis by (simp add: sts_success)
    next
      case True
      thus ?thesis unfolding f cp_def by blast
    qed
  next
    case False
    define dot where "dot = head_is (CHR ''.'') (dropWhile isdigit cp)"
    define t where "t = (if dot then takeWhile isdigit (tl (dropWhile isdigit cp)) else [])"
    define q where "q = (if dot then dropWhile isdigit (tl (dropWhile isdigit cp)) else dropWhile isdigit cp)"
    have g: "length (takeWhile isdigit cp) + length t \<noteq> 0" "head_is (CHR ''E'') q \<or> head_is (CHR ''e'') q \<or> skip_space q = []"
      using ok False unfolding numeric_from_string_is_ok_def Let_def cp_def[symmetric] dot_def[symmetric] q_def[symmetric]
      by (auto simp: t_def split: if_splits)
    have "passes neg d q" for neg d
    proof (cases "q = []")
      case False
      hence "head_is (CHR ''E'') q \<or> head_is (CHR ''e'') q \<or> isspace (hd q)" using g(2) by (cases q) (auto simp: skip_space_def split: if_splits)
      thus ?thesis using passes_tail(2,3) False by blast
    qed (simp add: passes_tail(1))
    from is_ok_passes[OF dot_def t_def q_def g(1) this] have "fst (snd (scan_loop cp neg False True False 0 (NUM_SET_0 n))) \<noteq> NUMERIC_STS_INVALID_STR" for neg by blast
    from numeric_from_string_status[OF cp_def this] show ?thesis by blast
  qed
qed

lemma numeric_special_string:
  assumes x: "num_special x" and r: "46 < max_str" "max_str \<le> length str" and p: "numeric_to_string block b2 b x str max_str = (str', st)"
  shows "\<exists>y. numeric_from_string z (cstr str') = (y, NUMERIC_STS_SUCCESS) \<and> n_invalid y = n_invalid x \<and> n_neg y = n_neg x"
proof -
  have f: "str' = fst (failed_string x str max_str)"
    using p num_special_cases(1)[OF x] by (simp add: numeric_to_string_def numeric_to_string_prec_def)
  have w: "numeric_from_string z ''NaN'' = (fst (numeric_nan z), NUMERIC_STS_SUCCESS)"
      "numeric_from_string z ''INF'' = (fst (numeric_inf z 0), NUMERIC_STS_SUCCESS)" "numeric_from_string z ''-INF'' = (fst (numeric_inf z 1), NUMERIC_STS_SUCCESS)"
    by (simp_all add: numeric_from_string_def skip_dollar_def skip_space_def head_is_def isspace_def isdigit_def stricmp_eq_def Let_def toupper_def)
  consider "n_invalid x = NDF_NAN" "n_neg x = 0" | "n_invalid x = NDF_INF" "n_neg x = 0" | "n_invalid x = NDF_INF" "n_neg x = 1"
    using x by (auto simp: num_special_def)
  thus ?thesis
  proof cases
    case 1
    hence "cstr str' = ''NaN''" using f r strcpy_size_ck_cstr[of "''NaN''" max_str str] by (simp add: failed_string_def num_is_nan_def numeric_consts)
    thus ?thesis using w(1) 1 by (simp add: numeric_nan_def NUM_SET_0_def)
  next
    case 2
    hence "cstr str' = ''INF''" using f r strcpy_size_ck_cstr[of "''INF''" max_str str] by (simp add: failed_string_def num_is_nan_def num_is_plus_inf_def num_is_inf_def numeric_consts)
    thus ?thesis using w(2) 2 by (simp add: numeric_inf_def NUM_SET_0_def)
  next
    case 3
    hence "cstr str' = ''-INF''" using f r strcpy_size_ck_cstr[of "''-INF''" max_str str] by (simp add: failed_string_def num_is_nan_def num_is_plus_inf_def num_is_inf_def numeric_consts)
    thus ?thesis using w(3) 3 by (simp add: numeric_inf_def NUM_SET_0_def)
  qed
qed

subsection \<open>Properties\<close>

text \<open>
  C29. Reading decimal text. A text made of blanks, a sign, digits with an optional fraction and then
  nothing or a blank is read as the number it denotes: exactly up to the decimals that fit, or an
  overflow for more than 40 integer digits. Leading zeros are skipped; at most 94 digits are counted.
\<close>

theorem numeric_from_string_correct:
  assumes "blank p" "sign_text sg" "digit_string s" "digit_string t" "s \<noteq> [] \<or> t \<noteq> []"
    and "int (length (strip0 s) + length t) \<le> NUMERIC_MAX_DATA_BYTES" "q = [] \<or> isspace (hd q)"
  shows "numeric_result (numeric_from_string n (p @ sg @ decimal s t @ q))
    ((if sg = ''-'' then - 1 else 1) * (of_int (digits_value (s @ t)) / 10 ^ length t))"
  by (rule numeric_from_string_decimal[OF assms])

theorem numeric_from_string_correct_witness:
  "numeric_result (numeric_from_string num_0 '' -0012.50 '') (- 25 / 2)"
proof -
  have b: "blank '' ''" "sign_text ''-''" "digit_string ''0012''" "digit_string ''50''" "strip0 ''0012'' = ''12''"
    "isspace (CHR '' '')" "digits_value ''001250'' = 1250" "'' '' @ ''-'' @ decimal ''0012'' ''50'' @ '' '' = '' -0012.50 ''"
    by code_simp+
  have "numeric_result (numeric_from_string num_0 ('' '' @ ''-'' @ decimal ''0012'' ''50'' @ '' ''))
    ((if ''-'' = ''-'' then - 1 else 1) * (of_int (digits_value (''0012'' @ ''50'')) / 10 ^ length ''50''))"
    by (rule numeric_from_string_correct) (use b in \<open>simp_all add: numeric_consts\<close>)
  thus ?thesis unfolding b(8) using b(7) by simp
qed



text \<open>
  C30. Exponents. A number that is read as \<open>k\<close> and followed by an exponent within a million is read as
  \<open>k\<close> times the power of ten, exactly, when it has at most 40 integer digits, and as zero when
  its first digit would come after the twentieth decimal.
\<close>

theorem numeric_from_string_exponent:
  assumes "blank p" "sign_text sg" "digit_string s" "digit_string t" "s \<noteq> [] \<or> t \<noteq> []"
    and "int (length (strip0 s) + length t) \<le> NUMERIC_MAX_DATA_BYTES" "c = CHR ''e'' \<or> c = CHR ''E''"
    and "numeric_from_string n (p @ sg @ decimal s t) = (k, NUMERIC_STS_SUCCESS)" "num_fin k"
    and "atoi es = e" "e \<noteq> 0" "\<bar>e\<bar> \<le> 1000000" "n_len k + e \<le> 40"
  shows "\<exists>r. numeric_from_string n (p @ sg @ decimal s t @ c # es) = (r, NUMERIC_STS_SUCCESS)
    \<and> num_ok r \<and> num_val r = (if n_len k + e \<le> - 20 then 0 else num_val k * 10 powi e)"
proof -
  obtain r st where r: "apply_exponent k (if sg = ''-'' then 1 else 0) e = (r, st)" by fastforce
  show ?thesis using numeric_from_string_exp[OF assms(1-8), of es] apply_exponent_val[OF assms(9,11-13) r] assms(10,11) r by simp
qed

theorem numeric_from_string_exponent_witness:
  "\<exists>r. numeric_from_string num_0 ''2e3'' = (r, NUMERIC_STS_SUCCESS) \<and> num_ok r \<and> num_val r = 2000"
proof -
  have b: "blank []" "sign_text []" "digit_string ''2''" "digit_string []" "strip0 ''2'' = ''2''" "atoi ''3'' = 3"
    "[] @ [] @ decimal ''2'' [] @ CHR ''e'' # ''3'' = ''2e3''" "[] @ [] @ decimal ''2'' [] = ''2''" by code_simp+
  obtain y rc where y: "numeric_from_string num_0 ''2'' = (y, rc)" by fastforce
  have f: "rc = NUMERIC_STS_SUCCESS" "num_fin y" "num_val y = 2"
  proof -
    have "numeric_result (numeric_from_string num_0 ([] @ [] @ decimal ''2'' [] @ [])) ((if [] = ''-'' then - 1 else 1) * (of_int (digits_value (''2'' @ [])) / 10 ^ length ([] :: string)))"
      by (rule numeric_from_string_decimal) (use b in \<open>simp_all add: numeric_consts\<close>)
    moreover have "digits_value (''2'' @ []) = 2" "decimal ''2'' [] = ''2''" by code_simp+
    moreover have "fit 2 = 2" using fit_exact[OF num_fin_norm[OF small_num_fin(2)]] small_num_val by (simp add: num_2_def)
    ultimately show "rc = NUMERIC_STS_SUCCESS" "num_fin y" "num_val y = 2" using y by (simp_all add: numeric_result_def)
  qed
  have l: "n_len y = 1" using num_fin_unique[OF f(2) small_num_fin(2)] f(3) small_num_val by (simp add: num_eq_def num_2_def)
  have "\<exists>r. numeric_from_string num_0 ([] @ [] @ decimal ''2'' [] @ CHR ''e'' # ''3'') = (r, NUMERIC_STS_SUCCESS)
    \<and> num_ok r \<and> num_val r = (if n_len y + 3 \<le> - 20 then 0 else num_val y * 10 powi 3)"
    by (rule numeric_from_string_exponent[where es = "''3''"]) (use b f y l in \<open>simp_all add: numeric_consts\<close>)
  thus ?thesis unfolding b(7) l f(3) by simp
qed




end
