(* ===== verification/Num_Ext.thy ===== *)
theory Num_Ext
  imports Num_Conv "HOL-Library.Monad_Syntax"
begin

text \<open>
  The extended operations of \<^verbatim>\<open>libsrc/Wi/numeric.c\<close>: division with remainder, powers, powers with a
  modulus, square roots by Newton's method, and the conversion to and from the bytes of an integer.
  The contents of stack buffers and of fresh memory are gathered in a record; each operation sees
  the same ones at every allocation. A loop whose end depends on the digits is a partial function, with
  \<^const>\<open>None\<close> for a loop that does not end and for a division that fails an assertion.
\<close>

record num_mem =
  nm_stk1 :: "int \<Rightarrow> int"
  nm_stk2 :: "int \<Rightarrow> int"
  nm_mval :: "int \<Rightarrow> int"
  nm_block :: numeric

abbreviation num_div :: "num_mem \<Rightarrow> bool \<Rightarrow> numeric \<Rightarrow> numeric \<Rightarrow> numeric \<Rightarrow> int \<Rightarrow> (int \<times> numeric) option" where
  "num_div J al \<equiv> num_divide (nm_stk1 J) (nm_stk2 J) (nm_mval J) al (nm_block J)"

subsection \<open>Division with remainder\<close>

text \<open>
  The quotient is a null pointer, the first operand itself, or another number; the remainder may be
  the first operand. The result is the return code, the quotient and the remainder.
\<close>

definition num_divmod ::
  "num_mem \<Rightarrow> numeric option \<Rightarrow> bool \<Rightarrow> bool \<Rightarrow> numeric \<Rightarrow> numeric \<Rightarrow> numeric \<Rightarrow> int \<Rightarrow> (int \<times> numeric option \<times> numeric) option" where
  "num_divmod J quot quot_is_num1 rem_is_num1 rem num1 num2 scale =
     (if num_is_zero num2 then Some (- 1, quot, rem)
      else
        let rscale = max (n_scale num1) (n_scale num2 + scale); temp = numeric_allocate (nm_block J) in
        do {
          (rc, temp) \<leftarrow> num_div J False temp num1 num2 0;
          let quot = map_option (\<lambda>q. num_assign q temp) quot;
          let num1 = (case quot of Some q \<Rightarrow> if quot_is_num1 then q else num1 | None \<Rightarrow> num1);
          let temp = num_multiply True (nm_block J) temp temp num2 rscale;
          Some (0, quot, num_subtract rem_is_num1 (nm_block J) rem num1 temp rscale)
        })"

definition num_modulo :: "num_mem \<Rightarrow> bool \<Rightarrow> numeric \<Rightarrow> numeric \<Rightarrow> numeric \<Rightarrow> int \<Rightarrow> (int \<times> numeric) option" where
  "num_modulo J result_is_num1 result num1 num2 scale =
     map_option (\<lambda>(rc, quot, rem). (rc, rem)) (num_divmod J None False result_is_num1 result num1 num2 scale)"

definition numeric_modulo :: "num_mem \<Rightarrow> bool \<Rightarrow> numeric \<Rightarrow> numeric \<Rightarrow> numeric \<Rightarrow> (numeric \<times> int) option" where
  "numeric_modulo J alias z x y =
     (if num_is_invalid x \<or> num_is_invalid y then Some (fst (numeric_nan z), NUMERIC_STS_DIVIDE_ZERO)
      else do {
        (rc, z) \<leftarrow> num_modulo J alias z x y NUMERIC_MAX_SCALE_INT;
        Some (if rc = - 1 then (fst (numeric_nan z), NUMERIC_STS_DIVIDE_ZERO) else numeric_normalize z)
      })"

subsection \<open>Powers\<close>

partial_function (option) powmod_loop ::
  "num_mem \<Rightarrow> numeric \<Rightarrow> int \<Rightarrow> int \<Rightarrow> numeric \<Rightarrow> numeric \<Rightarrow> numeric \<Rightarrow> numeric \<Rightarrow> numeric option" where
  "powmod_loop J modl scale rscale exponent parity temp pwr =
     (if num_is_zero exponent then Some temp
      else do {
        (rc, q, parity) \<leftarrow> num_divmod J (Some exponent) True False parity exponent num_2 0;
        temp \<leftarrow> (if \<not> num_is_zero parity
                 then map_option snd (num_modulo J True (num_multiply True (nm_block J) temp temp pwr rscale)
                                       (num_multiply True (nm_block J) temp temp pwr rscale) modl scale)
                 else Some temp);
        let pwr = num_multiply True (nm_block J) pwr pwr pwr rscale;
        (rc, pwr) \<leftarrow> num_modulo J True pwr pwr modl scale;
        powmod_loop J modl scale rscale (the q) parity temp pwr
      })"

text \<open>The modulus is truncated in place.\<close>

definition num_powmod ::
  "num_mem \<Rightarrow> numeric \<Rightarrow> numeric \<Rightarrow> numeric \<Rightarrow> numeric \<Rightarrow> int \<Rightarrow> (int \<times> numeric \<times> numeric) option" where
  "num_powmod J result base expo modl scale =
     (if num_is_zero modl \<or> n_neg expo \<noteq> 0 then Some (- 1, result, modl)
      else
        let pwr = num_assign (numeric_allocate (nm_block J)) base;
            exponent = num_assign (numeric_allocate (nm_block J)) expo;
            temp = NUM_SET_1 (numeric_allocate (nm_block J));
            parity = numeric_allocate (nm_block J) in
        do {
          exponent \<leftarrow> (if n_scale exponent \<noteq> 0 then map_option snd (num_div J True exponent exponent num_1 0) else Some exponent);
          modl \<leftarrow> (if n_scale modl \<noteq> 0 then map_option snd (num_div J True modl modl num_1 0) else Some modl);
          temp \<leftarrow> powmod_loop J modl scale (max scale (n_scale base)) exponent parity temp pwr;
          Some (0, num_assign result temp, modl)
        })"

text \<open>
  The first loop of \<^verbatim>\<open>num_pow\<close> ends because the exponent is not zero; the shift is arithmetic.
\<close>

function pow_strip :: "num_mem \<Rightarrow> int \<Rightarrow> numeric \<Rightarrow> int \<Rightarrow> numeric \<times> int" where
  "pow_strip J rscale pwr exponent =
     (if even exponent \<and> exponent \<noteq> 0
      then pow_strip J rscale (num_multiply True (nm_block J) pwr pwr pwr rscale) (exponent div 2)
      else (pwr, exponent))"
  by auto
termination by (relation "measure (\<lambda>(J, r, p, e). nat \<bar>e\<bar>)") (auto elim!: evenE)

function pow_loop :: "num_mem \<Rightarrow> int \<Rightarrow> numeric \<Rightarrow> numeric \<Rightarrow> int \<Rightarrow> numeric" where
  "pow_loop J rscale pwr temp exponent =
     (if exponent > 0 then
        let pwr = num_multiply True (nm_block J) pwr pwr pwr rscale;
            temp = (if odd exponent then num_multiply True (nm_block J) temp temp pwr rscale else temp)
        in pow_loop J rscale pwr temp (exponent div 2)
      else temp)"
  by auto
termination by (relation "measure (\<lambda>(J, r, p, t, e). nat e)") auto

declare pow_strip.simps [simp del] pow_loop.simps [simp del]

text \<open>The exponent is truncated in place.\<close>

definition num_pow :: "num_mem \<Rightarrow> numeric \<Rightarrow> numeric \<Rightarrow> numeric \<Rightarrow> int \<Rightarrow> (numeric \<times> numeric) option" where
  "num_pow J result num1 num2 scale =
     do {
       num2 \<leftarrow> (if n_scale num2 \<noteq> 0 then map_option snd (num_div J True num2 num2 num_1 0) else Some num2);
       let exponent = fst (numeric_to_int32 num2);
       if exponent = 0 then Some (NUM_SET_1 result, num2)
       else
         let neg = exponent < 0;
             exponent = (if neg then wrap INT32_MAX (- exponent) else exponent);
             rscale = (if neg then scale else min (wrap INT32_MAX (n_scale num1 * exponent)) (max scale (n_scale num1)));
             pwr = num_assign (numeric_allocate (nm_block J)) num1;
             (pwr, exponent) = pow_strip J rscale pwr exponent;
             temp = num_assign (numeric_allocate (nm_block J)) pwr;
             temp = pow_loop J rscale pwr temp (exponent div 2)
         in if neg then map_option (\<lambda>(rc, r). (r, num2)) (num_div J False result num_1 temp rscale)
            else Some (num_assign result temp, num2)
     }"

subsection \<open>Square roots\<close>

definition num_is_near_0 :: "numeric \<Rightarrow> int \<Rightarrow> bool" where
  "num_is_near_0 num scale =
     (if num_is_zero num then True
      else case skip_zeros (nat (n_len num + scale)) (n_value num) 0 of
        (count, nptr) \<Rightarrow> \<not> (count \<noteq> 0 \<and> (count \<noteq> 1 \<or> n_value num nptr \<noteq> 1)))"

partial_function (option) sqr_loop ::
  "num_mem \<Rightarrow> numeric \<Rightarrow> int \<Rightarrow> numeric \<Rightarrow> numeric \<Rightarrow> numeric \<Rightarrow> int \<Rightarrow> numeric option" where
  "sqr_loop J num rscale guess guess1 diff cscale =
     do {
       let guess1 = num_assign guess1 guess;
       (rc, guess) \<leftarrow> num_div J True guess num guess cscale;
       let guess = num_add True (nm_block J) guess guess guess1 0;
       let guess = num_multiply True (nm_block J) guess guess num_pt5 cscale;
       let diff = num_subtract False (nm_block J) diff guess guess1 (cscale + 1);
       if num_is_near_0 diff cscale then
         if cscale < rscale + 1 then sqr_loop J num rscale guess guess1 diff (min (cscale * 3) (rscale + 1))
         else Some guess
       else sqr_loop J num rscale guess guess1 diff cscale
     }"

definition num_sqr :: "num_mem \<Rightarrow> numeric \<Rightarrow> numeric \<Rightarrow> int \<Rightarrow> (int \<times> numeric) option" where
  "num_sqr J result num scale =
     (if num_compare_int num num_0 True < 0 then Some (- 1, result)
      else if num_compare_int num num_0 True = 0 then Some (0, NUM_SET_0 result)
      else
        let cmp_res = num_compare_int num num_1 True in
        if cmp_res = 0 then Some (0, NUM_SET_1 result)
        else
          let rscale = max scale (n_scale num);
              guess = numeric_allocate (nm_block J); guess1 = numeric_allocate (nm_block J);
              diff = numeric_allocate (nm_block J) in
          do {
            (guess, guess1) \<leftarrow>
              (if cmp_res < 0 then Some (NUM_SET_1 guess, guess1)
               else num_pow J (NUM_SET_10 guess) (NUM_SET_10 guess) (fst (numeric_from_int32 guess1 (n_len num div 2))) 0);
            guess \<leftarrow> sqr_loop J num rscale guess guess1 diff 3;
            map_option (\<lambda>(rc, r). (0, r)) (num_div J False result guess num_1 rscale)
          })"

definition numeric_sqr :: "num_mem \<Rightarrow> numeric \<Rightarrow> numeric \<Rightarrow> (numeric \<times> int) option" where
  "numeric_sqr J z x =
     (if num_is_invalid x then Some (numeric_copy z x)
      else do {
        (rc, z) \<leftarrow> num_sqr J z x NUMERIC_MAX_SCALE_INT;
        Some (if rc = - 1 then numeric_nan z else numeric_normalize z)
      })"

subsection \<open>The bytes of an integer\<close>

partial_function (option) hex_loop :: "num_mem \<Rightarrow> numeric \<Rightarrow> numeric \<Rightarrow> numeric \<Rightarrow> int list option" where
  "hex_loop J cnt div256 res =
     (if numeric_compare cnt div256 = - 1 then Some [fst (numeric_to_int32 cnt) mod 256]
      else do {
        (rc, res) \<leftarrow> num_modulo J False res cnt div256 0;
        let byte = fst (numeric_to_int32 res) mod 256;
        (rc, res) \<leftarrow> num_div J False res cnt div256 0;
        rest \<leftarrow> hex_loop J (num_assign cnt res) div256 res;
        Some (byte # rest)
      })"

definition numeric_to_hex_array :: "num_mem \<Rightarrow> numeric \<Rightarrow> int list option" where
  "numeric_to_hex_array J n =
     (let cnt = num_assign (numeric_allocate (nm_block J)) n;
          cnt = cnt\<lparr>n_neg := 0, n_len := numeric_precision n, n_scale := 0\<rparr>;
          div256 = fst (numeric_from_int32 (numeric_allocate (nm_block J)) 256)
      in hex_loop J cnt div256 (numeric_allocate (nm_block J)))"

fun from_hex_loop :: "num_mem \<Rightarrow> int list \<Rightarrow> numeric \<Rightarrow> numeric \<Rightarrow> numeric \<Rightarrow> numeric \<Rightarrow> numeric \<Rightarrow> numeric" where
  "from_hex_loop J [] n mul part m256 z = n"
| "from_hex_loop J (a # arr) n mul part m256 z =
     (let part = fst (numeric_from_int32 part a);
          z = fst (numeric_multiply False (nm_block J) z part mul);
          part = num_assign part z;
          z = fst (numeric_add False (nm_block J) z n part);
          n = num_assign n z;
          z = fst (numeric_multiply False (nm_block J) z mul m256);
          mul = num_assign mul z
      in from_hex_loop J arr n mul part m256 z)"

definition numeric_from_hex_array :: "num_mem \<Rightarrow> numeric \<Rightarrow> int \<Rightarrow> int \<Rightarrow> int list \<Rightarrow> numeric" where
  "numeric_from_hex_array J n scale sign arr =
     (let mul = numeric_allocate (nm_block J); part = numeric_allocate (nm_block J);
          m256 = numeric_allocate (nm_block J); z = numeric_allocate (nm_block J);
          m256 = fst (numeric_from_int32 m256 256);
          mul = fst (numeric_from_int32 mul 1);
          n = from_hex_loop J arr n mul part m256 z
      in n\<lparr>n_len := wrap 127 (n_len n - scale), n_scale := scale, n_neg := sign\<rparr>)"

declare powmod_loop.simps [code] sqr_loop.simps [code] hex_loop.simps [code]

subsection \<open>Integers as numbers\<close>

definition int_num :: "numeric \<Rightarrow> int \<Rightarrow> bool" where
  "int_num n v \<longleftrightarrow> num_fin n \<and> num_val n = of_int v"

lemma int_numD:
  assumes "int_num n v"
  shows "num_fin n" "num_norm n" "num_ok n" "num_val n = of_int v" "n_scale n = 0" "\<bar>v\<bar> < 10 ^ 40" "n_neg n = (if v < 0 then 1 else 0)"
proof -
  show f: "num_fin n" "num_val n = of_int v" using assms by (simp_all add: int_num_def)
  show n: "num_norm n" "num_ok n" using num_fin_norm[OF f(1)] num_norm_ok by auto
  have "dlen n \<le> 40" using num_fin_bounds[OF f(1)] num_okD(1)[OF n(2)] by linarith
  hence "\<bar>num_val n\<bar> < 10 ^ 40" using num_norm_less_pow[OF n(1), of 40] by blast
  thus v: "\<bar>v\<bar> < 10 ^ 40" unfolding f(2) by (metis of_int_abs of_int_less_iff of_int_numeral of_int_power)
  define w where "w = fst (numeric_from_int32 num_0 v)"
  have w: "num_fin w" "num_val w = of_int v" "n_scale w = 0" using numeric_from_int_val[OF v, of num_0] by (simp_all add: w_def)
  have eq: "num_eq n w" using num_fin_unique[OF f(1) w(1)] f(2) w(2) by simp
  show "n_scale n = 0" using eq w(3) by (simp add: num_eq_def)
  show "n_neg n = (if v < 0 then 1 else 0)"
  proof (cases "v = 0")
    case True
    hence "num_int n = 0" using f(2) num_val_abs[OF n(2)] by (simp add: num_mag_def)
    thus ?thesis using num_fin_no_minus_zero[OF f(1)] True by (simp add: no_minus_zero_def)
  next
    case False
    thus ?thesis using f(2) num_okD(4)[OF n(2)] num_mag_nonneg[OF n(2)] by (auto simp: num_val_def)
  qed
qed

lemma int_num_from_int: "\<bar>v\<bar> < 10 ^ 40 \<Longrightarrow> int_num (fst (numeric_from_int32 n v)) v"
  using numeric_from_int_val[of v n] by (simp add: int_num_def)

lemma fit_int: "fit (of_int v) = of_int v"
proof -
  have "of_int v * 10 ^ k = (of_int (v * 10 ^ k) :: real)" for k by simp
  thus ?thesis unfolding fit_def by (rule trunc_to_exact)
qed

lemma int_num_result: "numeric_result r (of_int v) \<Longrightarrow> \<bar>v\<bar> < 10 ^ 40 \<Longrightarrow> int_num (fst r) v"
proof -
  assume r: "numeric_result r (of_int v)" and v: "\<bar>v\<bar> < 10 ^ 40"
  have "\<bar>real_of_int v\<bar> < 10 ^ 40" using v by (metis of_int_abs of_int_less_iff of_int_numeral of_int_power)
  thus ?thesis using r by (simp add: numeric_result_def int_num_def fit_int)
qed

lemma num_fin_room_104: "num_fin n \<Longrightarrow> n_len n + n_scale n \<le> NUMERIC_STACK_BYTES"
  using num_fin_bounds[of n] by (simp add: numeric_consts)

lemma num_eq_fin: "num_eq r n \<Longrightarrow> num_fin n \<Longrightarrow> num_fin r"
proof -
  assume e: "num_eq r n" and f: "num_fin n"
  have "0 \<le> n_len n" using num_okD(1)[OF num_norm_ok[OF num_fin_norm[OF f]]] by simp
  hence "n_scale n > 0 \<Longrightarrow> n_value r (n_len n + n_scale n - 1) = n_value n (n_len n + n_scale n - 1)" using e by (simp add: num_eq_def)
  thus ?thesis using f e num_eq_norm[OF e num_fin_norm[OF f]] by (simp add: num_fin_def num_eq_def num_is_zero_def)
qed

lemma num_assign_fin: "num_fin n \<Longrightarrow> num_fin (num_assign r n) \<and> num_val (num_assign r n) = num_val n"
  using num_assign_eq[OF num_fin_room_104, of n r] num_eq_fin num_assign_keeps(3)[OF num_fin_norm num_fin_room_104 refl, of n] by blast

lemma int_num_assign: "int_num n v \<Longrightarrow> int_num (num_assign r n) v"
  using num_assign_fin[of n r] by (simp add: int_num_def)

lemma int_num_multiply: "int_num x a \<Longrightarrow> int_num y b \<Longrightarrow> \<bar>a * b\<bar> < 10 ^ 40 \<Longrightarrow> int_num (fst (numeric_multiply al blk z x y)) (a * b)"
  using int_num_result[of "numeric_multiply al blk z x y" "a * b"] numeric_multiply_result[of x y al blk z] by (simp add: int_num_def)

lemma int_num_add: "int_num x a \<Longrightarrow> int_num y b \<Longrightarrow> \<bar>a + b\<bar> < 10 ^ 40 \<Longrightarrow> int_num (fst (numeric_add al blk z x y)) (a + b)"
  using int_num_result[of "numeric_add al blk z x y" "a + b"] numeric_add_result[of x y al blk z] by (simp add: int_num_def)

lemma int_num_to_int: "int_num n v \<Longrightarrow> - INT32_MAX - 1 \<le> v \<Longrightarrow> v \<le> INT32_MAX \<Longrightarrow> numeric_to_int32 n = (v, NUMERIC_STS_SUCCESS)"
proof -
  assume n: "int_num n v" and v: "- INT32_MAX - 1 \<le> v" "v \<le> INT32_MAX"
  have "trunc_to 0 (num_val n) = of_int v" using int_numD(4)[OF n] trunc_to_exact[of "of_int v" 0 v] by simp
  hence "int_part n = v" using int_part_trunc[OF int_numD(3)[OF n]] by simp
  thus ?thesis using numeric_to_int_val[OF int_numD(3)[OF n], of INT32_MAX] v by (simp add: numeric_to_int32_def INT32_MAX_def)
qed

lemma int_numI: "num_norm n \<Longrightarrow> n_scale n = 0 \<Longrightarrow> num_val n = of_int v \<Longrightarrow> \<bar>v\<bar> < 10 ^ 40 \<Longrightarrow> (v = 0 \<Longrightarrow> n_neg n = 0) \<Longrightarrow> int_num n v"
proof -
  assume n: "num_norm n" "n_scale n = 0" "num_val n = of_int v" and v: "\<bar>v\<bar> < 10 ^ 40" and z: "v = 0 \<Longrightarrow> n_neg n = 0"
  note k = num_okD[OF num_norm_ok[OF n(1)]]
  have "\<bar>real_of_int v\<bar> < 10 ^ 40" using v by (metis of_int_abs of_int_less_iff of_int_numeral of_int_power)
  hence "dlen n \<le> 40" using num_norm_less_pow[OF n(1), of 40] unfolding n(3) by blast
  moreover have "n_neg n = 0" if "num_is_zero n"
  proof -
    have "dlen n = 0" "dscale n = 0" using that n(2) k(1,2) by (simp_all add: num_is_zero_def)
    hence "num_mag n = 0" by (simp add: num_mag_def num_int_def)
    hence "v = 0" using n(3) by (simp add: num_val_def split: if_splits)
    thus ?thesis by (rule z)
  qed
  ultimately show ?thesis using n k(1) by (simp add: int_num_def num_fin_def numeric_consts)
qed

subsection \<open>Division with remainder is correct\<close>

lemma trunc_0_cases:
  fixes x y :: real assumes "y \<noteq> 0"
  defines "q \<equiv> trunc_to 0 (x / y)"
  shows "\<bar>q * y\<bar> \<le> \<bar>x\<bar>" "\<exists>z. q = of_int z" "0 \<le> q * y * x" "\<bar>y\<bar> \<le> \<bar>x\<bar> \<Longrightarrow> q \<noteq> 0" "\<bar>x - q * y\<bar> < \<bar>y\<bar>"
proof -
  let ?f = "real_of_int \<lfloor>\<bar>x / y\<bar>\<rfloor>"
  have q: "q = sgn (x / y) * ?f" by (simp add: q_def trunc_to_def)
  have f: "0 \<le> ?f" "?f \<le> \<bar>x / y\<bar>" "\<bar>x / y\<bar> < ?f + 1" by simp_all
  have qy: "q * y = sgn x * (?f * \<bar>y\<bar>)" unfolding q using assms by (auto simp: sgn_if zero_less_divide_iff)
  have xy: "\<bar>x / y\<bar> * \<bar>y\<bar> = \<bar>x\<bar>" using assms(1) by (simp add: abs_divide)
  have le: "?f * \<bar>y\<bar> \<le> \<bar>x\<bar>" using mult_right_mono[OF f(2), of "\<bar>y\<bar>"] xy by simp
  have lt: "\<bar>x\<bar> < ?f * \<bar>y\<bar> + \<bar>y\<bar>" using mult_strict_right_mono[OF f(3), of "\<bar>y\<bar>"] xy assms(1) by (simp add: distrib_right)
  have x: "x = sgn x * \<bar>x\<bar>" by (simp add: sgn_mult_abs)
  have nn: "0 \<le> ?f * \<bar>y\<bar>" using f(1) by simp
  have sg: "0 \<le> g \<Longrightarrow> \<bar>sgn x * g\<bar> \<le> g" "0 \<le> g \<Longrightarrow> 0 \<le> sgn x * g * x" for g :: real
    by (simp_all add: abs_mult sgn_if mult_nonneg_nonpos mult_nonpos_nonpos)
  show "\<bar>q * y\<bar> \<le> \<bar>x\<bar>" unfolding qy using sg(1)[OF nn] le by linarith
  have "sgn (x / y) = of_int (sgn (if 0 < x / y then 1 else if x / y = 0 then 0 else - 1))" by (simp add: sgn_if)
  thus "\<exists>z. q = of_int z" unfolding q by (metis of_int_mult)
  show "0 \<le> q * y * x" unfolding qy by (rule sg(2)[OF nn])
  show "q \<noteq> 0" if "\<bar>y\<bar> \<le> \<bar>x\<bar>"
  proof -
    have "1 \<le> \<bar>x / y\<bar>" using that assms by (simp add: abs_divide)
    hence "1 \<le> \<lfloor>\<bar>x / y\<bar>\<rfloor>" by linarith
    hence "?f \<noteq> 0" by linarith
    moreover have "sgn (x / y) \<noteq> 0" using that assms(1) by (auto simp: sgn_if)
    ultimately show ?thesis unfolding q by (rule no_zero_divisors[rotated])
  qed
  have "x - q * y = sgn x * (\<bar>x\<bar> - ?f * \<bar>y\<bar>)" unfolding qy using x by (simp add: right_diff_distrib)
  thus "\<bar>x - q * y\<bar> < \<bar>y\<bar>" using sg(1)[of "\<bar>x\<bar> - ?f * \<bar>y\<bar>"] le lt by linarith
qed

text \<open>The digits of quotient and divisor together are hardly more than those of the dividend.\<close>

lemma quotient_digits:
  assumes x: "num_norm x" and y: "num_norm y" and q: "num_norm q" and le: "\<bar>num_val q * num_val y\<bar> \<le> \<bar>num_val x\<bar>"
  shows "dlen y = 0 \<or> dlen q = 0 \<or> dlen q + dlen y \<le> dlen x + 1"
proof (rule ccontr)
  assume a: "\<not> ?thesis"
  hence p: "0 < dlen y" "0 < dlen q" "dlen x + 2 \<le> dlen q + dlen y" by auto
  have "10 ^ (dlen q - 1) \<le> num_mag q" "10 ^ (dlen y - 1) \<le> num_mag y" using num_mag_len(2) q y p by blast+
  hence "(10 :: real) ^ (dlen q - 1) * 10 ^ (dlen y - 1) \<le> num_mag q * num_mag y" using num_mag_nonneg num_norm_ok q y by (intro mult_mono) auto
  hence "(10 :: real) ^ (dlen q - 1 + (dlen y - 1)) \<le> \<bar>num_val q * num_val y\<bar>" by (simp add: power_add abs_mult num_val_abs num_norm_ok q y)
  moreover have "(10 :: real) ^ dlen x \<le> 10 ^ (dlen q - 1 + (dlen y - 1))" using p by (intro power_increasing) auto
  moreover have "\<bar>num_val x\<bar> < 10 ^ dlen x" using num_norm_less_pow[OF x] by blast
  ultimately show False using le by linarith
qed

lemma num_divmod_correct_aux:
  assumes x: "num_fin x" and y: "num_fin y" "num_val y \<noteq> 0" and s: "0 \<le> scale" "scale \<le> 20"
    and room: "scale = 0 \<or> \<bar>num_val y\<bar> \<le> \<bar>num_val x\<bar> \<or> n_len x + n_scale x + n_scale y + scale \<le> 43"
  defines "q \<equiv> trunc_to 0 (num_val x / num_val y)"
  shows "\<exists>quot' r. num_divmod J quot False al res x y scale = Some (0, quot', r) \<and> num_norm r \<and> num_val r = num_val x - q * num_val y
    \<and> n_len r \<le> n_len x + 1 \<and> (num_mag r = 0 \<longrightarrow> n_neg r = 0)
    \<and> (scale = 0 \<and> n_scale x = 0 \<and> n_scale y = 0 \<longrightarrow> n_scale r = 0)
    \<and> (case quot of None \<Rightarrow> quot' = None | Some _ \<Rightarrow> \<exists>k. quot' = Some k \<and> num_norm k \<and> num_val k = q)"
proof -
  note bx = num_fin_bounds[OF x] and bd = num_fin_bounds[OF y(1)] and nx = num_fin_norm[OF x] and ny = num_fin_norm[OF y(1)]
  note okx = num_norm_ok[OF nx] and oky = num_norm_ok[OF ny]
  let ?rs = "max (n_scale x) (n_scale y + scale)"
  have my: "num_mag y \<noteq> 0" using y(2) by (auto simp: num_val_def split: if_splits)
  hence iy: "num_int y \<noteq> 0" "\<not> num_is_zero y" using num_is_zero_mag[OF _ oky] by (auto simp: num_mag_def)
  have "div_room x y 0" using bx bd by (simp add: div_room_def numeric_consts)
  from num_divide_val[OF okx oky iy(1) this, of "nm_stk1 J" "nm_stk2 J" "nm_mval J" False "nm_block J" "numeric_allocate (nm_block J)"]
  obtain t where t: "num_div J False (numeric_allocate (nm_block J)) x y 0 = Some (0, t)" "num_norm t" "num_val t = q" "n_scale t = 0"
      "n_len t \<le> n_len x + n_scale y + 1" "num_is_zero t \<longrightarrow> n_neg t = 0"
    using bx bd by (auto simp: q_def numeric_consts)
  note kt = num_okD[OF num_norm_ok[OF t(2)]] and kx = num_okD[OF okx] and ky = num_okD[OF oky]
  note tc = trunc_0_cases[OF y(2), of "num_val x", folded q_def]
  have sum: "n_len t + n_len y \<le> 81"
    using quotient_digits[OF nx ny t(2)] tc(1) t(3,5) kt(1) kx(1) ky(1) bx bd by auto
  define p where "p = num_multiply True (nm_block J) t t y ?rs"
  have ps: "prod_scale t y ?rs = n_scale y" using t(4) bd s by (auto simp: prod_scale_def)
  obtain z where z: "q = of_int z" using tc(2) by blast
  have p: "num_norm p" "num_val p = q * num_val y" "n_scale p = n_scale y" "n_len p \<le> n_len t + n_len y"
  proof -
    have "n_len t + n_len y + prod_scale t y ?rs \<le> NUMERIC_STACK_BYTES" unfolding ps using sum bd by (simp add: numeric_consts)
    note m = num_multiply_val[OF num_norm_ok[OF t(2)] oky this p_def]
    obtain w where "num_val y * 10 ^ nat (n_scale y) = of_int w" using num_val_int10[OF oky, of "nat (n_scale y)"] by (auto simp: dscale_def)
    hence "q * num_val y * 10 ^ nat (n_scale y) = of_int (z * w)" using z by simp
    from trunc_to_exact[OF this] show "num_norm p" "num_val p = q * num_val y" "n_scale p = n_scale y" "n_len p \<le> n_len t + n_len y"
      using m unfolding ps t(3) by auto
  qed
  have "\<bar>num_val p\<bar> < 10 ^ dlen x" using tc(1) num_norm_less_pow[OF nx, of "dlen x"] unfolding p(2) by linarith
  hence pl: "n_len p \<le> n_len x" using num_norm_less_pow[OF p(1), of "dlen x"] num_okD(1)[OF num_norm_ok[OF p(1)]] kx(1) by simp
  have nr: "num_room x p ?rs" using bx bd s pl p(3) by (auto simp: num_room_def numeric_consts)
  have ar: "add_room x p ?rs" if "n_neg x \<noteq> n_neg p"
  proof (cases "scale = 0 \<or> n_len x + n_scale x + n_scale y + scale \<le> 43")
    case True
    thus ?thesis using pl p(3) bx bd s by (auto simp: add_room_def)
  next
    case False
    hence "q \<noteq> 0" using room tc(4) by blast
    hence "num_val p \<noteq> 0" "0 < num_val p * num_val x" using tc(3,4) y(2) room False unfolding p(2) by (auto simp: less_le)
    hence False using that kx(4) num_okD(4)[OF num_norm_ok[OF p(1)]] num_mag_nonneg[OF okx] num_mag_nonneg[OF num_norm_ok[OF p(1)]]
      by (auto simp: num_val_def mult_less_0_iff zero_less_mult_iff split: if_splits)
    thus ?thesis ..
  qed
  define r where "r = num_subtract al (nm_block J) res x p ?rs"
  note sv = num_subtract_val[OF nx p(1) nr ar r_def]
  have e: "num_divmod J quot False al res x y scale = Some (0, map_option (\<lambda>k. num_assign k t) quot, r)"
    using iy(2) t(1) by (simp add: num_divmod_def Let_def p_def r_def option.case_eq_if)
  have "num_mag r = 0 \<Longrightarrow> n_neg r = 0" by (rule num_subtract_sign[OF nx p(1) nr ar num_fin_no_minus_zero[OF x] r_def])
  moreover have "n_len r \<le> n_len x + 1" "n_scale r \<le> max (max (n_scale x) (n_scale y)) ?rs" using sv pl p(3) by (auto simp: result_within_def)
  moreover have "0 \<le> n_scale r" using sv num_okD(2)[OF num_norm_ok[of r]] by simp
  moreover have "num_norm (num_assign k t) \<and> num_val (num_assign k t) = q" for k
    using num_assign_keeps[OF t(2) _ refl, of k] t(3,4) sum ky(1) by (simp add: numeric_consts)
  ultimately show ?thesis using e sv unfolding p(2) by (auto split: option.splits)
qed

lemma numeric_modulo_result:
  assumes x: "num_fin x" and y: "num_fin y" "num_val y \<noteq> 0"
    and room: "\<bar>num_val y\<bar> \<le> \<bar>num_val x\<bar> \<or> n_len x + n_scale x + n_scale y \<le> 23"
  shows "\<exists>r. numeric_modulo J al z x y = Some r \<and> numeric_result r (num_val x - trunc_to 0 (num_val x / num_val y) * num_val y)"
proof -
  obtain q r where r: "num_divmod J None False al z x y NUMERIC_MAX_SCALE_INT = Some (0, q, r)" "num_norm r"
      "num_val r = num_val x - trunc_to 0 (num_val x / num_val y) * num_val y" "num_mag r = 0 \<longrightarrow> n_neg r = 0"
    using num_divmod_correct_aux[OF x y, of NUMERIC_MAX_SCALE_INT J None al z] room by (auto simp: numeric_consts)
  have "numeric_result (numeric_normalize r) (num_val r)"
    by (rule numeric_normalize_result[OF r(2)]) (use r(4) num_is_zero_mag[OF _ num_norm_ok[OF r(2)]] in auto)
  thus ?thesis using r(1,3) num_fin_valid x y(1) by (simp add: numeric_modulo_def num_modulo_def)
qed

subsection \<open>Powers of integers\<close>

text \<open>A number without decimals, with a bound on its digits.\<close>

definition whole :: "numeric \<Rightarrow> int \<Rightarrow> int \<Rightarrow> bool" where
  "whole n v l \<longleftrightarrow> num_norm n \<and> n_scale n = 0 \<and> num_val n = of_int v \<and> n_len n \<le> l"

lemma whole_multiply:
  assumes "whole a v l" "whole b w m" "l + m \<le> 100"
  shows "whole (num_multiply al blk z a b s) (v * w) (l + m)"
proof -
  have p: "prod_scale a b s = 0" using assms by (simp add: whole_def prod_scale_def)
  have "trunc_to 0 (num_val a * num_val b) = num_val a * num_val b"
    by (rule trunc_to_exact[of _ _ "v * w"]) (use assms in \<open>simp add: whole_def\<close>)
  thus ?thesis using num_multiply_val[of a b s _ al blk z, OF _ _ _ refl] assms unfolding p
    by (auto simp: whole_def num_norm_ok numeric_consts)
qed

lemma whole_assign: "whole n v l \<Longrightarrow> l \<le> 100 \<Longrightarrow> whole (num_assign r n) v l"
  using num_assign_keeps[of n _ r, OF _ _ refl] by (auto simp: whole_def numeric_consts)

lemma pow_strip_whole:
  assumes "0 < e" "whole p v l" "0 \<le> l" "l * e \<le> 100"
  shows "\<exists>k e'. snd (pow_strip J s p e) = e' \<and> 0 < k \<and> e = int k * e' \<and> odd e' \<and> whole (fst (pow_strip J s p e)) (v ^ k) (l * int k)"
  using assms
proof (induction J s p e arbitrary: v l rule: pow_strip.induct)
  case (1 J s p e)
  show ?case
  proof (cases "even e")
    case False
    thus ?thesis using 1(3) by (subst (1 2) pow_strip.simps) (auto intro!: exI[of _ 1])
  next
    case True
    then obtain d where d: "e = 2 * d" "0 < d" using 1(2) by (auto elim!: evenE)
    let ?p = "num_multiply True (nm_block J) p p p s"
    have l: "l * e = (l + l) * d" using d by simp
    have "l + l \<le> (l + l) * d" using mult_left_mono[of 1 d "l + l"] 1(4) d by simp
    hence w: "whole ?p (v * v) (l + l)" using 1(5) unfolding l by (intro whole_multiply[OF 1(3,3)]) (rule order_trans)
    have ed: "e div 2 = d" "even e \<and> e \<noteq> 0" "0 \<le> l + l" "(l + l) * d \<le> 100" using d 1(4,5) l by simp_all
    obtain k e' where k: "snd (pow_strip J s ?p d) = e'" "0 < k" "d = int k * e'" "odd e'"
        "whole (fst (pow_strip J s ?p d)) ((v * v) ^ k) ((l + l) * int k)"
      using 1(1)[unfolded ed(1), OF ed(2) d(2) w ed(3,4)] by blast
    have "pow_strip J s p e = pow_strip J s ?p d" using d True by (subst pow_strip.simps) simp
    moreover have "(v * v) ^ k = v ^ (2 * k)" "(l + l) * int k = l * int (2 * k)" "e = int (2 * k) * e'"
      using d(1) k(3) by (simp_all add: power_mult power2_eq_square algebra_simps)
    ultimately show ?thesis using k by (metis mult_pos_pos zero_less_numeral)
  qed
qed

lemma pow_loop_whole:
  assumes "0 \<le> e" "whole p v l" "whole t w m" "0 \<le> l" "0 \<le> m" "m + 2 * l * e \<le> 100"
  shows "whole (pow_loop J s p t e) (w * v ^ nat (2 * e)) (m + 2 * l * e)"
  using assms
proof (induction J s p t e arbitrary: v l w m rule: pow_loop.induct)
  case (1 J s p t e)
  show ?case
  proof (cases "0 < e")
    case False
    thus ?thesis using 1(2,4) by (subst pow_loop.simps) simp
  next
    case True
    define d where "d = e div 2"
    let ?p = "num_multiply True (nm_block J) p p p s"
    let ?t = "if odd e then num_multiply True (nm_block J) t t ?p s else t"
    let ?w = "if odd e then w * (v * v) else w" and ?m = "if odd e then m + (l + l) else m"
    have ge: "2 * l * 1 \<le> 2 * l * e" by (rule mult_left_mono) (use True 1(5) in auto)
    hence p: "whole ?p (v * v) (l + l)" using 1(6,7) by (intro whole_multiply[OF 1(3,3)]) linarith
    have t: "whole ?t ?w ?m" using whole_multiply[OF 1(4) p] 1(4,7) ge by (cases "odd e") auto
    have ed: "e = 2 * d + (if odd e then 1 else 0)" by (auto simp: d_def)
    have b: "?m + 2 * (l + l) * d = m + 2 * l * e"
    proof (cases "odd e")
      case True
      hence "e = 2 * d + 1" using ed by simp
      thus ?thesis by (simp add: algebra_simps)
    next
      case False
      hence "e = 2 * d" using ed by simp
      thus ?thesis by (simp add: algebra_simps)
    qed
    have "whole (pow_loop J s ?p ?t d) (?w * (v * v) ^ nat (2 * d)) (?m + 2 * (l + l) * d)"
      unfolding d_def by (rule 1(1)[OF True refl refl]) (use p t True 1(5-7) b in \<open>auto simp: d_def\<close>)
    moreover have "pow_loop J s p t e = pow_loop J s ?p ?t d" using True by (subst pow_loop.simps) (simp add: Let_def d_def)
    moreover have "?w * (v * v) ^ nat (2 * d) = w * v ^ nat (2 * e)"
    proof -
      have "nat (2 * e) = (if odd e then 2 else 0) + 2 * nat (2 * d)" using True by (subst ed) (auto simp: d_def nat_add_distrib nat_mult_distrib)
      moreover have "(v * v) ^ nat (2 * d) = v ^ (2 * nat (2 * d))" by (simp add: power_mult power2_eq_square)
      ultimately show ?thesis by (simp add: power_add power2_eq_square)
    qed
    ultimately show ?thesis unfolding b by simp
  qed
qed

lemma num_pow_whole:
  assumes x: "whole x v (n_len x)" and y: "int_num y e" "0 < e" "e \<le> INT32_MAX" and l: "n_len x * e \<le> 100"
  shows "\<exists>r. num_pow J res x y scale = Some (r, y) \<and> num_norm r \<and> num_val r = of_int (v ^ nat e)"
proof -
  have y0: "n_scale y = 0" "fst (numeric_to_int32 y) = e" using int_numD(5)[OF y(1)] int_num_to_int[OF y(1)] y(2,3) by (simp_all add: INT32_MAX_def)
  have lx: "0 \<le> n_len x" using num_okD(1)[OF num_norm_ok] x by (simp add: whole_def)
  have "n_len x * 1 \<le> n_len x * e" by (rule mult_left_mono) (use lx y(2) in auto)
  hence xa: "whole (num_assign z x) v (n_len x)" for z using whole_assign[OF x] l by simp
  define s where "s = min (wrap INT32_MAX (n_scale x * e)) (max scale (n_scale x))"
  define p where "p = pow_strip J s (num_assign (numeric_allocate (nm_block J)) x) e"
  obtain k e' where k: "snd p = e'" "0 < k" "e = int k * e'" "odd e'" "whole (fst p) (v ^ k) (n_len x * int k)"
    using pow_strip_whole[OF y(2) xa lx l] unfolding p_def by blast
  have e': "0 < e'" using y(2) k(2,3) by (simp add: zero_less_mult_iff)
  have m: "n_len x * int k + 2 * (n_len x * int k) * (e' div 2) = n_len x * e"
  proof -
    have "n_len x * int k + 2 * (n_len x * int k) * (e' div 2) = n_len x * int k * (1 + 2 * (e' div 2))" by (simp add: algebra_simps)
    also have "1 + 2 * (e' div 2) = e'" using k(4) by (auto elim!: oddE)
    finally show ?thesis using k(3) by simp
  qed
  have lk: "0 \<le> n_len x * int k" "n_len x * int k \<le> 100"
  proof -
    have "n_len x * int k * 1 \<le> n_len x * int k * e'" by (rule mult_left_mono) (use lx e' in auto)
    thus "n_len x * int k \<le> 100" using l unfolding k(3) by (simp add: mult.assoc)
  qed (use lx in simp)
  define t where "t = pow_loop J s (fst p) (num_assign (numeric_allocate (nm_block J)) (fst p)) (e' div 2)"
  have "whole t (v ^ k * (v ^ k) ^ nat (2 * (e' div 2))) (n_len x * e)"
    unfolding t_def m[symmetric] by (rule pow_loop_whole) (use e' lk k(5) whole_assign[OF k(5) lk(2)] l m in simp_all)
  moreover have "v ^ k * (v ^ k) ^ nat (2 * (e' div 2)) = v ^ nat e"
  proof -
    have "nat e = k * nat e'" using k(3) e' by (simp add: nat_mult_distrib)
    moreover have "nat e' = Suc (nat (2 * (e' div 2)))" using k(4) e' by (auto elim!: oddE)
    ultimately show ?thesis by (simp add: power_mult power_add)
  qed
  ultimately have "whole (num_assign res t) (v ^ nat e) (n_len x * e)" using whole_assign l by simp
  moreover have "num_pow J res x y scale = Some (num_assign res t, y)"
    using y0 y(2) k(1) unfolding num_pow_def by (simp add: Let_def s_def[symmetric] p_def[symmetric] t_def case_prod_unfold)
  ultimately show ?thesis by (auto simp: whole_def)
qed

subsection \<open>Bytes of an integer\<close>

function hex_bytes :: "int \<Rightarrow> int list" where
  "hex_bytes v = (if v < 256 then [v] else v mod 256 # hex_bytes (v div 256))"
  by auto
termination by (relation "measure nat") auto

declare hex_bytes.simps [simp del]

lemma trunc_0_div:
  assumes "0 \<le> a" "0 < b"
  shows "trunc_to 0 (real_of_int a / real_of_int b) = of_int (a div b)"
  using assms trunc_to_nonneg[of "real_of_int a / real_of_int b" 0] by (simp add: floor_divide_of_int_eq)

lemma hex_loop_bytes:
  assumes "int_num cnt v" "0 \<le> v" "int_num d 256"
  shows "hex_loop J cnt d res = Some (hex_bytes v)"
  using assms
proof (induction v arbitrary: cnt res rule: hex_bytes.induct)
  case (1 v)
  note c = int_numD[OF 1(2)] and dd = int_numD[OF 1(4)]
  have cmp: "numeric_compare cnt d = - 1 \<longleftrightarrow> v < 256"
    using num_compare_val[OF c(2) dd(2) num_fin_no_minus_zero[OF c(1)] num_fin_no_minus_zero[OF dd(1)]] num_fin_valid c(1) dd(1)
    by (simp add: numeric_compare_def cmp_sign_def c(4) dd(4))
  show ?case
  proof (cases "v < 256")
    case True
    thus ?thesis using cmp int_num_to_int[OF 1(2)] 1(3) by (subst hex_loop.simps, subst hex_bytes.simps) (simp add: INT32_MAX_def)
  next
    case False
    have d0: "num_val d \<noteq> 0" by (simp add: dd(4))
    have tq: "trunc_to 0 (num_val cnt / num_val d) = of_int (v div 256)" using trunc_0_div[OF 1(3), of 256] by (simp add: c(4) dd(4))
    obtain q r where r: "num_divmod J None False False res cnt d 0 = Some (0, q, r)" "num_norm r" "num_val r = of_int v - of_int (v div 256) * 256"
        "num_mag r = 0 \<longrightarrow> n_neg r = 0" "n_scale r = 0"
      using num_divmod_correct_aux[OF c(1) dd(1) d0, of 0 J None False res] c(5) dd(5) unfolding tq by (auto simp: c(4) dd(4))
    have rv: "num_val r = of_int (v mod 256)" unfolding r(3) by (simp add: minus_div_mult_eq_mod[symmetric])
    have "int_num r (v mod 256)"
    proof (rule int_numI[OF r(2,5) rv])
      show "\<bar>v mod 256\<bar> < 10 ^ 40" by (simp add: abs_if) (smt (verit) pos_mod_bound)
      show "n_neg r = 0" if "v mod 256 = 0" using that rv r(4) num_val_abs[OF num_norm_ok[OF r(2)]] by simp
    qed
    hence byte: "fst (numeric_to_int32 r) = v mod 256" using int_num_to_int[of r "v mod 256"] by (simp add: INT32_MAX_def)
    have "num_mag d \<noteq> 0" using d0 num_val_abs[OF dd(3)] by simp
    hence "num_int d \<noteq> 0" by (auto simp: num_mag_def)
    moreover have "div_room cnt d 0" "n_len cnt + n_scale d + 1 + 0 \<le> NUMERIC_STACK_BYTES"
      using num_fin_bounds[OF c(1)] num_fin_bounds[OF dd(1)] by (simp_all add: div_room_def numeric_consts)
    ultimately obtain t where t: "num_div J False r cnt d 0 = Some (0, t)" "num_norm t" "num_val t = of_int (v div 256)" "n_scale t = 0" "num_is_zero t \<longrightarrow> n_neg t = 0"
      using num_divide_val[OF c(3) dd(3), of 0 "nm_stk1 J" "nm_stk2 J" "nm_mval J" False "nm_block J" r] unfolding tq[symmetric] by auto
    have it: "int_num t (v div 256)" using False c(6) 1(3) by (intro int_numI[OF t(2,4,3)]) auto
    have "hex_loop J (num_assign cnt t) d t = Some (hex_bytes (v div 256))"
      by (rule 1(1)[OF False int_num_assign[OF it] _ 1(4)]) (use 1(3) in simp)
    thus ?thesis using cmp False r(1) t(1) byte by (subst hex_loop.simps, subst hex_bytes.simps) (simp add: num_modulo_def Let_def)
  qed
qed

lemma from_hex_loop_value:
  assumes "int_num n N" "int_num mul M" "int_num m 256" "0 \<le> N" "0 < M" "0 \<le> w" "N + M * w < 10 ^ 40"
  shows "int_num (from_hex_loop J (hex_bytes w) n mul part m z) (N + M * w)"
  using assms
proof (induction w arbitrary: n N mul M part z rule: hex_bytes.induct)
  case (1 w)
  define a where "a = (if w < 256 then w else w mod 256)"
  have a: "0 \<le> a" "a < 256" using 1(7) by (auto simp: a_def)
  have w: "w = a + (if w < 256 then 0 else 256 * (w div 256))" by (simp add: a_def)
  have "M * a \<le> M * w" by (rule mult_left_mono) (use w a 1(6,7) in \<open>auto split: if_splits\<close>)
  moreover have "0 \<le> M * a" using 1(6) a by simp
  ultimately have b: "0 \<le> M * a" "N + M * a < 10 ^ 40" "M * a < 10 ^ 40" using 1(5,8) by linarith+
  let ?p1 = "fst (numeric_from_int32 part a)" let ?z1 = "fst (numeric_multiply False (nm_block J) z ?p1 mul)"
  let ?p2 = "num_assign ?p1 ?z1" let ?z2 = "fst (numeric_add False (nm_block J) ?z1 n ?p2)" let ?n = "num_assign n ?z2"
  let ?z3 = "fst (numeric_multiply False (nm_block J) ?z2 mul m)" let ?m = "num_assign mul ?z3"
  have "int_num ?p1 a" using a by (intro int_num_from_int) auto
  hence "int_num ?z1 (a * M)" using b by (intro int_num_multiply[OF _ 1(3)]) (auto simp: mult.commute)
  hence "int_num ?z2 (N + a * M)" using b 1(5) by (intro int_num_add[OF 1(2) int_num_assign]) (auto simp: mult.commute)
  hence n: "int_num ?n (N + M * a)" using int_num_assign by (simp add: mult.commute)
  show ?case
  proof (cases "w < 256")
    case True
    thus ?thesis using n by (subst hex_bytes.simps) (simp add: Let_def a_def)
  next
    case False
    let ?w = "w div 256"
    have "w = a + 256 * ?w" using False w by simp
    hence "M * w = M * (a + 256 * ?w)" by simp
    hence eq: "N + M * a + M * 256 * ?w = N + M * w" by (simp add: distrib_left mult.assoc)
    have "M * 256 * 1 \<le> M * 256 * ?w" by (rule mult_left_mono) (use False 1(6) in auto)
    hence "M * 256 < 10 ^ 40" using 1(5,8) b eq by linarith
    hence "int_num ?z3 (M * 256)" using 1(6) by (intro int_num_multiply[OF 1(3,4)]) auto
    hence "int_num (from_hex_loop J (hex_bytes ?w) ?n ?m ?p2 m ?z3) (N + M * a + M * 256 * ?w)"
      using 1(5,6,7,8) b eq by (intro 1(1)[OF False n int_num_assign 1(4)]) auto
    thus ?thesis using False unfolding eq by (subst hex_bytes.simps) (simp add: Let_def a_def)
  qed
qed

lemma hex_bytes_range: "0 \<le> v \<Longrightarrow> set (hex_bytes v) \<subseteq> {0..255}"
proof (induction v rule: hex_bytes.induct)
  case (1 v)
  show ?case
  proof (cases "v < 256")
    case True
    thus ?thesis using 1(2) by (subst hex_bytes.simps) auto
  next
    case False
    have "0 \<le> v mod 256" "v mod 256 \<le> 255" by auto
    thus ?thesis using 1 False by (subst hex_bytes.simps) auto
  qed
qed

text \<open>The digits of a number read as one integer.\<close>

lemma int_num_unscaled:
  assumes n: "num_fin n" "0 < n_len n" "n_len n + n_scale n \<le> 40" and e: "num_eq c n"
  shows "int_num (c\<lparr>n_neg := 0, n_len := n_len n + n_scale n, n_scale := 0\<rparr>) (num_int n)" (is "int_num ?c _")
proof -
  note nn = num_fin_norm[OF n(1)] note ok = num_norm_ok[OF nn] note k = num_okD[OF ok]
  have "0 \<le> n_len n" "0 \<le> n_scale n" using num_fin_bounds[OF n(1)] by auto
  hence d: "dlen ?c = dlen n + dscale n" "dscale ?c = 0" by (simp_all add: dlen_def dscale_def nat_add_distrib)
  have v: "n_value c i = n_value n i" if "0 \<le> i" "i < int (dlen n + dscale n)" for i using that e k(1,2) by (simp add: num_eq_def)
  have dg: "digits (n_value c) 0 (dlen n + dscale n)" using k(5) v by (auto simp: digits_def)
  have "num_ok ?c" using dg e k(1-3) d by (simp add: num_ok_def num_eq_def)
  moreover have "n_value c 0 \<noteq> 0" using v[of 0] nn n(2) k(1,2) by (simp add: num_norm_def)
  ultimately have nc: "num_norm ?c" by (simp add: num_norm_def)
  have "dval (n_value c) 0 (dlen n + dscale n) = num_int n" unfolding num_int_def by (rule dval_same) (use v in simp)
  hence val: "num_val ?c = of_int (num_int n)" by (simp add: num_val_def num_mag_def num_int_def d)
  have b: "0 \<le> num_int n" "num_int n < 10 ^ (dlen n + dscale n)" using num_int_bounds[OF ok] by auto
  have "(10 :: int) ^ (dlen n + dscale n) \<le> 10 ^ 40" by (rule power_increasing) (use n(3) k(1,2) in auto)
  hence "\<bar>num_int n\<bar> < 10 ^ 40" using b by linarith
  from int_numI[OF nc _ val this] show ?thesis by simp
qed

lemma numeric_hex_roundtrip_aux:
  assumes n: "num_fin n" "0 < n_len n" "n_len n + n_scale n \<le> 40" and z: "int_num z 0"
  shows "numeric_to_hex_array J n = Some (hex_bytes (num_int n))"
    "num_eq (numeric_from_hex_array J z (n_scale n) (n_neg n) (hex_bytes (num_int n))) n"
proof -
  note ok = num_norm_ok[OF num_fin_norm[OF n(1)]] note k = num_okD[OF ok]
  have i256: "int_num (fst (numeric_from_int32 x 256)) 256" and i1: "int_num (fst (numeric_from_int32 x 1)) 1" for x by (rule int_num_from_int, simp)+
  have nn: "0 \<le> num_int n" using num_int_bounds[OF ok] by simp
  let ?c0 = "num_assign (numeric_allocate (nm_block J)) n"
  have e0: "num_eq ?c0 n" using num_assign_eq[OF num_fin_room_104[OF n(1)]] .
  have p: "numeric_precision n = n_len n + n_scale n" using n(2) k(2) by (simp add: numeric_precision_def Let_def)
  define c where "c = ?c0\<lparr>n_neg := 0, n_len := n_len n + n_scale n, n_scale := 0\<rparr>"
  have ic: "int_num c (num_int n)" unfolding c_def by (rule int_num_unscaled[OF n e0])
  have "hex_loop J c (fst (numeric_from_int32 (numeric_allocate (nm_block J)) 256)) (numeric_allocate (nm_block J)) = Some (hex_bytes (num_int n))"
    by (rule hex_loop_bytes[OF ic nn i256])
  thus "numeric_to_hex_array J n = Some (hex_bytes (num_int n))" unfolding numeric_to_hex_array_def Let_def p c_def .
  define r where "r = from_hex_loop J (hex_bytes (num_int n)) z (fst (numeric_from_int32 (numeric_allocate (nm_block J)) 1))
      (numeric_allocate (nm_block J)) (fst (numeric_from_int32 (numeric_allocate (nm_block J)) 256)) (numeric_allocate (nm_block J))"
  have "int_num r (0 + 1 * num_int n)"
    unfolding r_def by (rule from_hex_loop_value[OF z i1 i256]) (use nn int_numD(6)[OF ic] in auto)
  hence ir: "int_num r (num_int n)" by simp
  have eq: "num_eq r c" using num_fin_unique[OF int_numD(1)[OF ir] int_numD(1)[OF ic]] int_numD(4)[OF ir] int_numD(4)[OF ic] by simp
  have w: "wrap 127 (n_len n) = n_len n" using n(2,3) k(2) by (simp add: wrap_def)
  show "num_eq (numeric_from_hex_array J z (n_scale n) (n_neg n) (hex_bytes (num_int n))) n"
    unfolding numeric_from_hex_array_def Let_def r_def[symmetric] using eq e0 w by (auto simp: num_eq_def c_def)
qed

subsection \<open>Properties\<close>

text \<open>Memory full of a digit, for the examples.\<close>

definition junk_mem :: num_mem where
  "junk_mem = \<lparr>nm_stk1 = \<lambda>_. 7, nm_stk2 = \<lambda>_. 7, nm_mval = \<lambda>_. 7, nm_block = filled 7\<rparr>"

text \<open>The number ten to the power 39, of 40 digits, needs 17 bytes.\<close>

definition num_e39 :: numeric where
  "num_e39 = num_0\<lparr>n_len := 40, n_value := (\<lambda>i. if i = 0 then 1 else 0)\<rparr>"

lemma num_e39_fin: "num_fin num_e39"
  by (simp add: num_fin_def num_norm_def num_ok_def num_e39_def num_0_def digits_def num_is_zero_def dlen_def dscale_def numeric_consts)

lemma num_e39_int: "num_int num_e39 = 10 ^ 39"
  by code_simp

lemma num_e39_hex: "map_option length (numeric_to_hex_array J num_e39) = Some 17"
proof -
  have "int_num num_0 0" using small_num_fin(3) small_num_val(3) by (simp add: int_num_def num_0_def)
  moreover have "n_len num_e39 = 40" "n_scale num_e39 = 0" by (simp_all add: num_e39_def num_0_def)
  ultimately have "numeric_to_hex_array J num_e39 = Some (hex_bytes (10 ^ 39))"
    using numeric_hex_roundtrip_aux(1)[OF num_e39_fin] by (simp add: num_e39_int)
  moreover have "length (hex_bytes (10 ^ 39)) = 17" by code_simp
  ultimately show ?thesis by simp
qed








end
