(* ===== verification/Dt_Calendar.thy ===== *)
theory Dt_Calendar
  imports Clib
begin

unbundle bit_operations_syntax

text \<open>
  The calendar of \<^verbatim>\<open>src/libsrc/Wi/datesupp.c\<close>: the numbering of days across the Gregorian reform and
  its inverse. A date is a triple of year, month and day; the functions that return through
  pointers return such a triple. Arguments are C integers: conversions that shorten a value wrap
  around, the other operations do not overflow for the years and day numbers of the theorems.
\<close>

subsection \<open>Constants\<close>

definition DAY_LAST :: int where "DAY_LAST = 365"
definition DAY_MIN :: int where "DAY_MIN = 1"
definition DAY_MAX :: int where "DAY_MAX = 7"
definition MONTH_MIN :: int where "MONTH_MIN = 1"
definition MONTH_MAX :: int where "MONTH_MAX = 12"
definition YEAR_MIN :: int where "YEAR_MIN = 1"
definition YEAR_MAX :: int where "YEAR_MAX = 9999"
definition GREG_YEAR :: int where "GREG_YEAR = 1582"
definition GREG_MONTH :: int where "GREG_MONTH = 10"
definition GREG_LAST_JULIAN_DAY :: int where "GREG_LAST_JULIAN_DAY = 4"
definition GREG_LAST_JULIAN_DAY_AS_PROLEPTIC_GREG :: int where "GREG_LAST_JULIAN_DAY_AS_PROLEPTIC_GREG = 14"
definition GREG_JDAYS :: int where "GREG_JDAYS = 577737"

lemmas calendar_consts = DAY_LAST_def DAY_MIN_def DAY_MAX_def MONTH_MIN_def MONTH_MAX_def YEAR_MIN_def YEAR_MAX_def
  GREG_YEAR_def GREG_MONTH_def GREG_LAST_JULIAN_DAY_def GREG_LAST_JULIAN_DAY_AS_PROLEPTIC_GREG_def GREG_JDAYS_def

definition days_in_month :: "int list" where
  "days_in_month = [31, 28, 31, 30, 31, 30, 31, 31, 30, 31, 30, 31]"

definition GREG_YMD_IS_PROLEPTIC_GREG :: "int \<Rightarrow> int \<Rightarrow> int \<Rightarrow> bool" where
  "GREG_YMD_IS_PROLEPTIC_GREG year month day \<longleftrightarrow>
     year < GREG_YEAR \<or> year = GREG_YEAR \<and>
       (month < GREG_MONTH \<or> month = GREG_MONTH \<and> day \<le> GREG_LAST_JULIAN_DAY_AS_PROLEPTIC_GREG)"

definition GREG_YMD_IS_POST_JULIAN_PROLEPTIC_GREG :: "int \<Rightarrow> int \<Rightarrow> int \<Rightarrow> bool" where
  "GREG_YMD_IS_POST_JULIAN_PROLEPTIC_GREG year month day \<longleftrightarrow>
     year = GREG_YEAR \<and> month = GREG_MONTH \<and> day \<le> GREG_LAST_JULIAN_DAY_AS_PROLEPTIC_GREG \<and> GREG_LAST_JULIAN_DAY < day"

subsection \<open>Operations\<close>

definition days_in_february :: "int \<Rightarrow> int" where
  "days_in_february year =
     (let day =
        (if year > GREG_YEAR \<or> year = GREG_YEAR \<and>
              (GREG_MONTH = 1 \<or> GREG_MONTH = 2 \<and> GREG_LAST_JULIAN_DAY_AS_PROLEPTIC_GREG \<ge> 28)
         then if year AND 3 \<noteq> 0 then 28
              else if year smod 100 = 0 \<and> year smod 400 \<noteq> 0 then 28 else 29
         else if year AND 3 \<noteq> 0 then 28 else 29)
      in if year = 4 then day - 1 else day)"

definition date2num :: "int \<Rightarrow> int \<Rightarrow> int \<Rightarrow> int" where
  "date2num year month day =
     (let a = (14 - month) sdiv 12;
          y = (if year < 0 then year + 1 else year) + 4800 - a;
          m = month + 12 * a - 3;
          jdn =
            (if GREG_YMD_IS_PROLEPTIC_GREG year month day then
               let jdn = day + (153 * m + 2) sdiv 5 + 365 * y + y sdiv 4 - 32083
               in if 1722885 = jdn \<and> 1 = day then jdn - 1 else jdn
             else day + (153 * m + 2) sdiv 5 + 365 * y + y sdiv 4 - y sdiv 100 + y sdiv 400 - 32045)
      in wrap INT32_MAX (jdn - 1721423))"

definition num2date :: "int \<Rightarrow> int \<times> int \<times> int" where
  "num2date julian_days =
     (let midnight_jdn = julian_days + 1721423 in
      if 2299161 \<le> midnight_jdn then
        let mj = wrap INT32_MAX (midnight_jdn + 32044);
            g = mj sdiv 146097;
            dg = mj smod 146097;
            c = (dg sdiv 36524 + 1) * 3 sdiv 4;
            dc = dg - c * 36524;
            b = dc sdiv 1461;
            db = dc smod 1461;
            a = (db sdiv 365 + 1) * 3 sdiv 4;
            da = db - a * 365;
            y = g * 400 + c * 100 + b * 4 + a;
            m = (da * 5 + 308) sdiv 153 - 2;
            d = da - (m + 4) * 153 sdiv 5 + 122
        in (y - 4800 + (m + 2) sdiv 12, (m + 2) smod 12 + 1, d + 1)
      else if 1722884 = midnight_jdn then (5, 1, 1)
      else
        let c = wrap INT32_MAX (midnight_jdn + 32082);
            d = (4 * c + 3) sdiv 1461;
            e = c - (1461 * d) sdiv 4;
            m = (5 * e + 2) sdiv 153;
            d_civ = e - (153 * m + 2) sdiv 5 + 1;
            m_civ = m + 3 - 12 * (m sdiv 10);
            y_civ = d - 4800 + m sdiv 10
        in (if y_civ < 0 then y_civ - 1 else y_civ, m_civ, d_civ))"

definition ymd_valid_p :: "int \<Rightarrow> int \<Rightarrow> int \<Rightarrow> bool" where
  "ymd_valid_p year month day \<longleftrightarrow>
     \<not> (day < 0 \<or> month < MONTH_MIN \<or> month > MONTH_MAX \<or> year < YEAR_MIN \<or> year > YEAR_MAX
        \<or> month \<noteq> 2 \<and> day > days_in_month ! nat (month - 1)
        \<or> month = 2 \<and> day > days_in_february year)"

definition date2weekday :: "int \<Rightarrow> int \<Rightarrow> int \<Rightarrow> int" where
  "date2weekday year month day =
     (let julian_days = date2num year month day smod DAY_MAX mod 2 ^ 32
      in if julian_days > 2 then wrap INT32_MAX julian_days - 2 else wrap INT32_MAX julian_days + 5)"

subsection \<open>Years that begin in March\<close>

text \<open>
  Both directions count from March: month \<open>M\<close> of year \<open>Y\<close>, with March as month 0 and year 0 at 4801
  before the era, begins \<open>(153 * M + 2) div 5\<close> days after the first day of the year.
\<close>

definition civil_year :: "int \<Rightarrow> int \<Rightarrow> int" where
  "civil_year Y M = (if M < 10 then Y - 4800 else Y - 4799)"

definition civil_month :: "int \<Rightarrow> int" where
  "civil_month M = (if M < 10 then M + 3 else M - 9)"

definition julian_num :: "int \<Rightarrow> int \<Rightarrow> int" where
  "julian_num Y e = e + 365 * Y + Y div 4 - 1753505"

definition gregorian_num :: "int \<Rightarrow> int \<Rightarrow> int" where
  "gregorian_num Y e = e + 365 * Y + Y div 4 - Y div 100 + Y div 400 - 1753467"

definition day_of_year :: "int \<Rightarrow> int \<Rightarrow> int" where
  "day_of_year M d = d - 1 + (153 * M + 2) div 5"

text \<open>Year 1 before the era has the number 0 or -1, earlier years are negative.\<close>

definition astro_year :: "int \<Rightarrow> int" where
  "astro_year year = (if year < 0 then year + 1 else year)"

lemma march_month:
  assumes "0 \<le> M" "M \<le> 11"
  shows "(14 - civil_month M) div 12 = (if M < 10 then 0 else 1)" "1 \<le> civil_month M" "civil_month M \<le> 12"
  using assms by (auto simp: civil_month_def)

lemma date2num_march:
  assumes "0 \<le> M" "M \<le> 11" "astro_year year = civil_year Y M" "0 \<le> Y"
  shows "date2num year (civil_month M) d =
    wrap INT32_MAX (if GREG_YMD_IS_PROLEPTIC_GREG year (civil_month M) d
      then if julian_num Y (day_of_year M d) = 1462 \<and> d = 1 then 1461 else julian_num Y (day_of_year M d)
      else gregorian_num Y (day_of_year M d))"
proof -
  define a :: int where "a = (if M < 10 then 0 else 1)"
  have a: "(14 - civil_month M) sdiv 12 = a" using march_month[OF assms(1,2)] by (simp add: a_def)
  have y: "(if year < 0 then year + 1 else year) + 4800 - a = Y"
    using assms(3) by (simp add: a_def astro_year_def civil_year_def split: if_splits)
  have m: "civil_month M + 12 * a - 3 = M" by (simp add: civil_month_def a_def)
  have q: "(153 * M + 2) sdiv 5 = (153 * M + 2) div 5" "Y sdiv 4 = Y div 4" "Y sdiv 100 = Y div 100" "Y sdiv 400 = Y div 400"
    using assms(1,4) by simp_all
  show ?thesis unfolding date2num_def Let_def a y m q julian_num_def gregorian_num_def day_of_year_def
    by (rule arg_cong[of _ _ "wrap INT32_MAX"]) simp
qed

lemma date2num_julian:
  assumes "0 \<le> M" "M \<le> 11" "0 \<le> Y" "astro_year year = civil_year Y M" "1 \<le> d" "d \<le> 31"
    and "GREG_YMD_IS_PROLEPTIC_GREG year (civil_month M) d" "julian_num Y (day_of_year M d) \<noteq> 1462 \<or> d \<noteq> 1"
  shows "date2num year (civil_month M) d = julian_num Y (day_of_year M d)"
proof -
  have "Y \<le> 7000" using assms(4,7) by (auto simp: GREG_YMD_IS_PROLEPTIC_GREG_def astro_year_def civil_year_def calendar_consts split: if_splits)
  hence "wrap INT32_MAX (julian_num Y (day_of_year M d)) = julian_num Y (day_of_year M d)"
    by (intro wrap_id) (use assms(1-6) in \<open>auto simp: julian_num_def day_of_year_def INT32_MAX_def\<close>)
  thus ?thesis using date2num_march[OF assms(1,2,4,3), of d] assms(7,8) by auto
qed

lemma date2num_gregorian:
  assumes "0 \<le> M" "M \<le> 11" "0 \<le> Y" "gregorian_num Y (day_of_year M d) \<le> INT32_MAX" "year = civil_year Y M" "1 \<le> d" "d \<le> 31"
    and "\<not> GREG_YMD_IS_PROLEPTIC_GREG year (civil_month M) d"
  shows "date2num year (civil_month M) d = gregorian_num Y (day_of_year M d)"
proof -
  have "astro_year year = civil_year Y M"
    using assms(5,8) by (auto simp: astro_year_def GREG_YMD_IS_PROLEPTIC_GREG_def calendar_consts)
  moreover have "wrap INT32_MAX (gregorian_num Y (day_of_year M d)) = gregorian_num Y (day_of_year M d)"
    by (rule wrap_id) (use assms(1-7) in \<open>auto simp: gregorian_num_def day_of_year_def INT32_MAX_def\<close>)
  ultimately show ?thesis using date2num_march[OF assms(1,2) _ assms(3), of year d] assms(8) by auto
qed

subsection \<open>From numbers to dates\<close>

definition gregorian_leap :: "int \<Rightarrow> bool" where
  "gregorian_leap y \<longleftrightarrow> y mod 4 = 0 \<and> (y mod 100 \<noteq> 0 \<or> y mod 400 = 0)"

text \<open>The days of a year that begins in March, of the Gregorian and of the Julian calendar.\<close>

definition gregorian_day :: "int \<Rightarrow> int \<Rightarrow> bool" where
  "gregorian_day Y e \<longleftrightarrow> 0 \<le> e \<and> e \<le> 365 \<and> (e = 365 \<longrightarrow> gregorian_leap (Y + 1))"

definition julian_day :: "int \<Rightarrow> int \<Rightarrow> bool" where
  "julian_day Y e \<longleftrightarrow> 0 \<le> e \<and> e \<le> 365 \<and> (e = 365 \<longrightarrow> (Y + 1) mod 4 = 0)"

lemma mixed_radix_gregorian:
  fixes g c b a da :: int
  assumes "0 \<le> c" "c \<le> 3" "0 \<le> b" "b \<le> 24" "0 \<le> a" "a \<le> 3" "Y = g * 400 + c * 100 + b * 4 + a"
  shows "365 * Y + Y div 4 - Y div 100 + Y div 400 = 146097 * g + 36524 * c + 1461 * b + 365 * a"
proof -
  have "Y div 4 = 100 * g + 25 * c + b" by (rule int_div_pos_eq[of _ _ _ a]) (use assms in simp_all)
  moreover have "Y div 100 = 4 * g + c" by (rule int_div_pos_eq[of _ _ _ "b * 4 + a"]) (use assms in simp_all)
  moreover have "Y div 400 = g" by (rule int_div_pos_eq[of _ _ _ "c * 100 + b * 4 + a"]) (use assms in simp_all)
  ultimately show ?thesis using assms(7) by simp
qed

lemma day_to_month:
  assumes "0 \<le> (e :: int)" "e \<le> 365"
  defines "M \<equiv> (5 * e + 2) div 153"
  defines "d \<equiv> e - (153 * M + 2) div 5 + 1"
  shows "0 \<le> M" "M \<le> 11" "1 \<le> d" "d \<le> 31" "day_of_year M d = e"
  using assms(1,2) by (simp_all add: M_def d_def day_of_year_def)

text \<open>The fourth part of a cycle takes the extra day at its end.\<close>

lemma quarter:
  fixes x :: int
  assumes "0 \<le> x" "x \<le> 4 * L" "0 < L" "c = (x div L + 1) * 3 div 4"
  shows "0 \<le> c" "c \<le> 3" "0 \<le> x - c * L" "x - c * L \<le> L" "x - c * L = L \<longrightarrow> c = 3"
proof -
  have r: "x = L * (x div L) + x mod L" "0 \<le> x mod L" "x mod L < L" using assms(3) by simp_all
  have "0 \<le> x div L" using assms(1,3) by (simp add: pos_imp_zdiv_nonneg_iff)
  moreover have "x div L \<le> 4" using zdiv_mono1[OF assms(2,3)] assms(3) by simp
  ultimately consider "x div L = 0" | "x div L = 1" | "x div L = 2" | "x div L = 3" | "x div L = 4" by linarith
  hence "0 \<le> c \<and> c \<le> 3 \<and> 0 \<le> x - c * L \<and> x - c * L \<le> L \<and> (x - c * L = L \<longrightarrow> c = 3)"
    by cases (use r assms(2,4) in auto)
  thus "0 \<le> c" "c \<le> 3" "0 \<le> x - c * L" "x - c * L \<le> L" "x - c * L = L \<longrightarrow> c = 3" by simp_all
qed

lemma num2date_gregorian:
  assumes "577738 \<le> n" "n \<le> 2145000000" "num2date n = (year, month, day)"
  obtains Y e M where "0 \<le> Y" "gregorian_day Y e" "n = gregorian_num Y e" "M = (5 * e + 2) div 153"
    "year = civil_year Y M" "month = civil_month M" "day = e - (153 * M + 2) div 5 + 1"
proof -
  define mj where "mj = n + 1753467"
  define g where "g = mj div 146097"
  define dg where "dg = mj mod 146097"
  define c where "c = (dg div 36524 + 1) * 3 div 4"
  define dc where "dc = dg - c * 36524"
  define b where "b = dc div 1461"
  define db where "db = dc mod 1461"
  define a where "a = (db div 365 + 1) * 3 div 4"
  define da where "da = db - a * 365"
  define Y where "Y = g * 400 + c * 100 + b * 4 + a"
  have mj: "0 \<le> mj" "mj \<le> 2146753467" "wrap INT32_MAX (n + 1721423 + 32044) = mj"
    using assms(1,2) wrap_id[of INT32_MAX mj] by (simp_all add: mj_def INT32_MAX_def add.commute)
  have g: "0 \<le> g" "g \<le> 14695" "mj = 146097 * g + dg" using mj by (auto simp: g_def dg_def)
  have dg: "0 \<le> dg" "dg < 146097" by (auto simp: dg_def)
  have c: "0 \<le> c" "c \<le> 3" "0 \<le> dc" "dc \<le> 36524" "dc = 36524 \<longrightarrow> c = 3" using quarter[OF dg(1) _ _ c_def] dg(2) by (simp_all add: dc_def)
  have b: "0 \<le> b" "b \<le> 24" "0 \<le> db" "db < 1461" "dc = 1461 * b + db" using c(3,4) by (auto simp: b_def db_def)
  have a: "0 \<le> a" "a \<le> 3" "0 \<le> da" "da \<le> 365" "da = 365 \<longrightarrow> a = 3" using quarter[OF b(3) _ _ a_def] b(4) by (simp_all add: da_def)
  have Y: "0 \<le> Y" using g c b a by (simp add: Y_def)
  have n: "n = gregorian_num Y da"
    using mixed_radix_gregorian[OF c(1,2) b(1,2) a(1,2) Y_def] g(3) b(5) by (simp add: gregorian_num_def mj_def dc_def da_def)
  have "gregorian_leap (Y + 1)" if "da = 365"
  proof -
    have "a = 3" "db = 1460" using that a(5) by (auto simp: da_def)
    hence "b = 24 \<longrightarrow> c = 3" using b(5) c(5) by auto
    moreover have "Y + 1 = 100 * (4 * g + c) + 4 * (b + 1)" using \<open>a = 3\<close> by (simp add: Y_def)
    ultimately show ?thesis
    proof (cases "b = 24")
      case True
      with \<open>b = 24 \<longrightarrow> c = 3\<close> \<open>a = 3\<close> have "Y + 1 = 400 * (g + 1)" by (simp add: Y_def)
      thus ?thesis unfolding gregorian_leap_def by simp
    next
      case False
      have "(Y + 1) mod 100 = 4 * (b + 1)"
        by (rule int_mod_pos_eq[of _ _ "4 * g + c"]) (use False b(1,2) \<open>Y + 1 = _\<close> in auto)
      moreover have "Y + 1 = 4 * (25 * (4 * g + c) + (b + 1))" using \<open>a = 3\<close> by (simp add: Y_def)
      hence "(Y + 1) mod 4 = 0" by (simp only: mod_mult_self1_is_0)
      ultimately show ?thesis using b(1) unfolding gregorian_leap_def by force
    qed
  qed
  hence gd: "gregorian_day Y da" using a(3,4) by (simp add: gregorian_day_def)
  define m where "m = (da * 5 + 308) div 153 - 2"
  have m: "m = (5 * da + 2) div 153" using div_mult_self1[of 153 "5 * da + 2" 2] by (simp add: m_def mult.commute)
  have m': "0 \<le> m" "m \<le> 11" using a(3,4) unfolding m by auto
  have mv: "(m + 4) * 153 div 5 - 122 = (153 * m + 2) div 5" using div_mult_self1[of 5 "153 * m + 2" 122] by (simp add: algebra_simps)
  have m12: "(m + 2) div 12 = (if m < 10 then 0 else 1)" "(m + 2) mod 12 = (if m < 10 then m + 2 else m - 10)" using m' by (auto simp: mod_pos_geq)
  have s: "mj sdiv 146097 = g" "mj smod 146097 = dg" "(dg sdiv 36524 + 1) * 3 sdiv 4 = c" "dc sdiv 1461 = b" "dc smod 1461 = db"
    "(db sdiv 365 + 1) * 3 sdiv 4 = a" "(da * 5 + 308) sdiv 153 - 2 = m" "(m + 4) * 153 sdiv 5 = (m + 4) * 153 div 5"
    "(m + 2) sdiv 12 = (m + 2) div 12" "(m + 2) smod 12 = (m + 2) mod 12"
    using mj(1) dg(1) b(3) a(3) m' c(3) by (simp_all add: g_def dg_def c_def b_def db_def a_def m_def)
  have "num2date n = (Y - 4800 + (m + 2) div 12, (m + 2) mod 12 + 1, da - (m + 4) * 153 div 5 + 122 + 1)"
    using assms(1) unfolding num2date_def Let_def mj(3) s dc_def[symmetric] da_def[symmetric] Y_def[symmetric] by simp
  also have "\<dots> = (civil_year Y m, civil_month m, da - (153 * m + 2) div 5 + 1)"
    using mv m12 by (simp add: civil_year_def civil_month_def)
  finally show ?thesis using that[OF Y gd n m] assms(3) by simp
qed

lemma num2date_julian:
  assumes "- 1753505 \<le> n" "n \<le> 577737" "n \<noteq> 1461" "num2date n = (year, month, day)"
  obtains Y e M where "0 \<le> Y" "Y \<le> 6382" "julian_day Y e" "n = julian_num Y e" "M = (5 * e + 2) div 153"
    "astro_year year = civil_year Y M" "year \<noteq> - 1" "month = civil_month M" "day = e - (153 * M + 2) div 5 + 1"
proof -
  define c where "c = n + 1753505"
  define Y where "Y = (4 * c + 3) div 1461"
  define e where "e = c - 1461 * Y div 4"
  define m where "m = (5 * e + 2) div 153"
  have c: "0 \<le> c" "c \<le> 2331242" "wrap INT32_MAX (n + 1721423 + 32082) = c"
    using assms(1,2) wrap_id[of INT32_MAX c] by (simp_all add: c_def INT32_MAX_def add.commute)
  have Y: "0 \<le> Y" "Y \<le> 6382" using c by (auto simp: Y_def)
  define r where "r = (4 * c + 3) mod 1461"
  have r: "4 * c + 3 = 1461 * Y + r" "0 \<le> r" "r < 1461" by (simp_all add: Y_def r_def)
  have q: "1461 * Y div 4 = 365 * Y + Y div 4" using div_mult_self1[of 4 Y "365 * Y"] by simp
  obtain q4 r4 where y4: "Y = 4 * q4 + r4" "0 \<le> r4" "r4 < 4" "Y div 4 = q4" "Y mod 4 = r4" by (metis mult_div_mod_eq pos_mod_bound pos_mod_sign zero_less_numeral)
  have e4: "4 * e + 3 = Y mod 4 + r" using r(1) y4(1) unfolding e_def q y4(4,5) by algebra
  have e: "0 \<le> e" "e \<le> 365" using e4 r(2,3) y4(2,3,5) by linarith+
  have "Y mod 4 = 3" if "e = 365" using that e4 r(3) y4(3,5) by linarith
  hence "(Y + 1) mod 4 = 0" if "e = 365" using that by presburger
  hence jd: "julian_day Y e" using e by (simp add: julian_day_def)
  have n: "n = julian_num Y e" by (simp add: julian_num_def e_def q c_def)
  have m: "0 \<le> m" "m \<le> 11" using e unfolding m_def by auto
  hence m10: "m div 10 = (if m < 10 then 0 else 1)" by auto
  have d: "0 \<le> 1461 * Y" using Y by simp
  have s: "(4 * c + 3) sdiv 1461 = Y" "(1461 * Y) sdiv 4 = 1461 * Y div 4" "(5 * e + 2) sdiv 153 = m"
    "(153 * m + 2) sdiv 5 = (153 * m + 2) div 5" "m sdiv 10 = m div 10"
    using c Y e m d by (simp_all add: Y_def m_def)
  define yc where "yc = Y - 4800 + m div 10"
  have yc: "yc = civil_year Y m" by (simp add: yc_def civil_year_def m10)
  have mc: "m + 3 - 12 * (m div 10) = civil_month m" by (simp add: civil_month_def m10)
  have "num2date n = (if yc < 0 then yc - 1 else yc, civil_month m, e - (153 * m + 2) div 5 + 1)"
    using assms(2,3) unfolding num2date_def Let_def c(3) s e_def[symmetric] mc yc_def[symmetric] by simp
  moreover have "astro_year (if yc < 0 then yc - 1 else yc) = civil_year Y m" by (simp add: astro_year_def yc)
  ultimately show ?thesis using that[OF Y jd n m_def] assms(4) by auto
qed

subsection \<open>The numbering is injective\<close>

lemma day_to_month_inverse:
  assumes "1 \<le> d" "day_of_year M d < (153 * (M + 1) + 2) div 5"
  shows "(5 * day_of_year M d + 2) div 153 = M"
  by (rule int_div_pos_eq[of _ _ _ "5 * day_of_year M d + 2 - 153 * M"]) (use assms in \<open>auto simp: day_of_year_def\<close>)

lemma julian_num_mono:
  assumes "julian_day Y e" "julian_day Y' e'" "Y < Y'"
  shows "julian_num Y e < julian_num Y' e'"
proof -
  have "Y + 1 \<le> Y'" using assms(3) by simp
  hence "365 * (Y + 1) + (Y + 1) div 4 \<le> 365 * Y' + Y' div 4" by (intro add_mono zdiv_mono1) auto
  moreover have "e < 365 + (Y + 1) div 4 - Y div 4"
  proof (cases "e = 365")
    case True
    hence "(Y + 1) mod 4 = 0" using assms(1) by (simp add: julian_day_def)
    thus ?thesis using True by presburger
  next
    case False
    moreover have "Y div 4 \<le> (Y + 1) div 4" by (rule zdiv_mono1) auto
    ultimately show ?thesis using assms(1) by (simp add: julian_day_def)
  qed
  ultimately show ?thesis using assms(2) by (auto simp: julian_num_def julian_day_def)
qed

definition leap_days :: "int \<Rightarrow> int" where
  "leap_days Y = Y div 4 - Y div 100 + Y div 400"

lemma leap_days_Suc: "leap_days (Y + 1) = leap_days Y + (if gregorian_leap (Y + 1) then 1 else 0)"
proof -
  have d: "(Y + 1) div k = Y div k + (if (Y + 1) mod k = 0 then 1 else 0)" if "1 < k" for k
  proof -
    have r: "Y = k * (Y div k) + Y mod k" "0 \<le> Y mod k" "Y mod k < k" using that by simp_all
    show ?thesis
    proof (cases "Y mod k = k - 1")
      case True
      hence "Y + 1 = k * (Y div k + 1)" using r(1) unfolding distrib_left by linarith
      thus ?thesis using that by simp
    next
      case False
      hence s: "Y + 1 = k * (Y div k) + (Y mod k + 1)" "Y mod k + 1 < k" using r by linarith+
      have "(Y + 1) div k = Y div k" by (rule int_div_pos_eq[OF s(1) _ s(2)]) (use r(2) in simp)
      moreover have "(Y + 1) mod k = Y mod k + 1" by (rule int_mod_pos_eq[OF s(1) _ s(2)]) (use r(2) in simp)
      ultimately show ?thesis using r(2) by simp
    qed
  qed
  have "4 dvd Y + 1" if "100 dvd Y + 1" using that dvd_trans[of 4 100 "Y + 1"] by simp
  moreover have "100 dvd Y + 1" if "400 dvd Y + 1" using that dvd_trans[of 100 400 "Y + 1"] by simp
  moreover define A B C where "A \<longleftrightarrow> (Y + 1) mod 4 = 0" "B \<longleftrightarrow> (Y + 1) mod 100 = 0" "C \<longleftrightarrow> (Y + 1) mod 400 = 0"
  ultimately have i: "B \<longrightarrow> A" "C \<longrightarrow> B" unfolding dvd_eq_mod_eq_0 by simp_all
  have s: "(Y + 1) div 4 = Y div 4 + (if A then 1 else 0)" "(Y + 1) div 100 = Y div 100 + (if B then 1 else 0)"
    "(Y + 1) div 400 = Y div 400 + (if C then 1 else 0)" unfolding A_B_C_def by (rule d, simp)+
  have "leap_days (Y + 1) = leap_days Y + (if A then 1 else 0) - (if B then 1 else 0) + (if C then 1 else 0)"
    unfolding leap_days_def s by (simp only: algebra_simps)
  thus ?thesis using i unfolding gregorian_leap_def A_B_C_def[symmetric] by (cases A; cases B; cases C) simp_all
qed

lemma leap_days_mono: "Y \<le> Y' \<Longrightarrow> leap_days Y \<le> leap_days Y'"
proof (induction "nat (Y' - Y)" arbitrary: Y')
  case (Suc k)
  hence "leap_days Y \<le> leap_days (Y' - 1)" by simp
  thus ?case using leap_days_Suc[of "Y' - 1"] by (simp split: if_splits)
qed simp

lemma gregorian_num_leap_days: "gregorian_num Y e = e + 365 * Y + leap_days Y - 1753467"
  by (simp add: gregorian_num_def leap_days_def)

lemma gregorian_num_mono:
  assumes "gregorian_day Y e" "gregorian_day Y' e'" "Y < Y'"
  shows "gregorian_num Y e < gregorian_num Y' e'"
proof -
  have "365 * (Y + 1) + leap_days (Y + 1) \<le> 365 * Y' + leap_days Y'"
    using assms(3) by (intro add_mono leap_days_mono) auto
  moreover have "e < 365 + leap_days (Y + 1) - leap_days Y"
    using assms(1) by (auto simp: gregorian_day_def leap_days_Suc)
  moreover have "0 \<le> e'" using assms(2) by (simp add: gregorian_day_def)
  ultimately show ?thesis unfolding gregorian_num_leap_days distrib_left by linarith
qed

lemma gregorian_num_inj:
  assumes "gregorian_day Y e" "gregorian_day Y' e'" "gregorian_num Y e = gregorian_num Y' e'"
  shows "Y = Y' \<and> e = e'"
proof -
  have "Y = Y'" using gregorian_num_mono[OF assms(1,2)] gregorian_num_mono[OF assms(2,1)] assms(3) by linarith
  thus ?thesis using assms(3) by (simp add: gregorian_num_def)
qed

lemma julian_num_inj:
  assumes "julian_day Y e" "julian_day Y' e'" "julian_num Y e = julian_num Y' e'"
  shows "Y = Y' \<and> e = e'"
proof -
  have "Y = Y'" using julian_num_mono[OF assms(1,2)] julian_num_mono[OF assms(2,1)] assms(3) by linarith
  thus ?thesis using assms(3) by (simp add: julian_num_def)
qed

text \<open>The last Julian day, the 4th of October 1582, has number \<open>GREG_JDAYS\<close>.\<close>

lemma gregorian_num_reform:
  assumes "gregorian_day Y e" "0 \<le> Y"
  shows "577738 \<le> gregorian_num Y e \<longleftrightarrow> 6382 < Y \<or> Y = 6382 \<and> 228 \<le> e"
proof -
  consider "Y < 6382" | "Y = 6382" | "6382 < Y" by linarith
  thus ?thesis
  proof cases
    case 1
    have "gregorian_num Y e < gregorian_num 6382 0" by (rule gregorian_num_mono) (use assms 1 in \<open>auto simp: gregorian_day_def\<close>)
    thus ?thesis using 1 by (simp add: gregorian_num_def)
  next
    case 3
    have "gregorian_num 6382 365 \<le> gregorian_num 6383 0" by (simp add: gregorian_num_def)
    also have "gregorian_num 6383 0 \<le> gregorian_num Y e"
    proof (cases "Y = 6383")
      case True
      thus ?thesis using assms by (simp add: gregorian_day_def gregorian_num_def)
    next
      case False
      hence "gregorian_num 6383 0 < gregorian_num Y e" using 3 assms by (intro gregorian_num_mono) (auto simp: gregorian_day_def)
      thus ?thesis by simp
    qed
    finally show ?thesis using 3 by (simp add: gregorian_num_def)
  qed (simp add: gregorian_num_def)
qed

subsection \<open>Valid dates\<close>

lemma num2date_reform:
  assumes "0 \<le> e" "e \<le> 365" "M = (5 * e + 2) div 153" "d = e - (153 * M + 2) div 5 + 1"
  shows "gregorian_day Y e \<Longrightarrow> 0 \<le> Y \<Longrightarrow> 577738 \<le> gregorian_num Y e \<Longrightarrow> \<not> GREG_YMD_IS_PROLEPTIC_GREG (civil_year Y M) (civil_month M) d"
    and "julian_num Y e \<le> 577737 \<Longrightarrow> Y \<le> 6382 \<Longrightarrow> astro_year year = civil_year Y M \<Longrightarrow> GREG_YMD_IS_PROLEPTIC_GREG year (civil_month M) d"
proof -
  assume "gregorian_day Y e" "0 \<le> Y" "577738 \<le> gregorian_num Y e"
  hence r: "6382 < Y \<or> Y = 6382 \<and> 228 \<le> e" using gregorian_num_reform by blast
  show "\<not> GREG_YMD_IS_PROLEPTIC_GREG (civil_year Y M) (civil_month M) d"
  proof (cases "Y = 6382 \<and> M < 10")
    case True
    hence "228 \<le> e" "7 \<le> M" using r assms(3) by auto
    moreover have "15 \<le> d" if "M = 7" using that \<open>228 \<le> e\<close> assms(4) by simp
    ultimately show ?thesis using True by (auto simp: GREG_YMD_IS_PROLEPTIC_GREG_def civil_year_def civil_month_def calendar_consts)
  qed (use r in \<open>auto simp: GREG_YMD_IS_PROLEPTIC_GREG_def civil_year_def civil_month_def calendar_consts\<close>)
next
  assume j: "julian_num Y e \<le> 577737" "Y \<le> 6382" "astro_year year = civil_year Y M"
  have M: "0 \<le> M" "M \<le> 11" using day_to_month[OF assms(1,2)] assms(3) by auto
  show "GREG_YMD_IS_PROLEPTIC_GREG year (civil_month M) d"
  proof (cases "Y = 6382")
    case True
    hence "e \<le> 217" using j(1) by (simp add: julian_num_def)
    hence "M \<le> 7" using assms(3) by auto
    moreover have "d \<le> 14" if "M = 7" using that \<open>e \<le> 217\<close> assms(4) by simp
    ultimately show ?thesis using True j(3)
      by (auto simp: GREG_YMD_IS_PROLEPTIC_GREG_def civil_year_def civil_month_def calendar_consts astro_year_def split: if_splits)
  next
    case False
    thus ?thesis using j(2,3) M
      by (auto simp: GREG_YMD_IS_PROLEPTIC_GREG_def civil_year_def civil_month_def calendar_consts astro_year_def split: if_splits)
  qed
qed

lemma date2num_num2date:
  assumes "- 1753505 \<le> n" "n \<le> 2145000000" "n \<noteq> 1462" "num2date n = (year, month, day)"
  shows "date2num year month day = n" "1 \<le> month" "month \<le> 12" "1 \<le> day" "day \<le> 31"
proof -
  have "date2num year month day = n \<and> 1 \<le> month \<and> month \<le> 12 \<and> 1 \<le> day \<and> day \<le> 31"
  proof (cases "577738 \<le> n")
    case True
    obtain Y e M where r: "0 \<le> Y" "gregorian_day Y e" "n = gregorian_num Y e" and
      q: "M = (5 * e + 2) div 153" "year = civil_year Y M" "month = civil_month M" "day = e - (153 * M + 2) div 5 + 1"
      by (rule num2date_gregorian[OF True assms(2,4)])
    have e: "0 \<le> e" "e \<le> 365" using r(2) by (auto simp: gregorian_day_def)
    note d = day_to_month[OF e, folded q(1)]
    have np: "\<not> GREG_YMD_IS_PROLEPTIC_GREG year month day"
      unfolding q(2-) by (rule num2date_reform(1)[OF e q(1) refl r(2,1)]) (use True r(3) in simp)
    have "date2num year month day = n"
      using date2num_gregorian[OF d(1,2) r(1) _ refl d(3,4)] np r(3) assms(2) unfolding q(2-) d(5) by (simp add: INT32_MAX_def)
    thus ?thesis using march_month[OF d(1,2)] d(3,4) unfolding q(2-) by simp
  next
    case False
    show ?thesis
    proof (cases "n = 1461")
      case True
      moreover have "num2date 1461 = (5, 1, 1)" "date2num 5 1 1 = 1461" by code_simp+
      ultimately show ?thesis using assms(4) by simp
    next
      case 2: False
      have "n \<le> 577737" using False by simp
      obtain Y e M where r: "0 \<le> Y" "Y \<le> 6382" "julian_day Y e" "n = julian_num Y e" and M: "M = (5 * e + 2) div 153"
        and q: "astro_year year = civil_year Y M" "month = civil_month M" "day = e - (153 * M + 2) div 5 + 1"
        by (rule num2date_julian[OF assms(1) \<open>n \<le> 577737\<close> 2 assms(4)])
      have e: "0 \<le> e" "e \<le> 365" using r(3) by (auto simp: julian_day_def)
      note d = day_to_month[OF e, folded M]
      have p: "GREG_YMD_IS_PROLEPTIC_GREG year month day"
        unfolding q(2,3) by (rule num2date_reform(2)[OF e M refl _ r(2) q(1)]) (use False r(4) in simp)
      have "date2num year month day = n"
        using date2num_julian[OF d(1,2) r(1) q(1) d(3,4)] p r(4) assms(3) unfolding q(2,3) d(5) by simp
      thus ?thesis using march_month[OF d(1,2)] d(3,4) unfolding q(2,3) by simp
    qed
  qed
  thus "date2num year month day = n" "1 \<le> month" "month \<le> 12" "1 \<le> day" "day \<le> 31" by simp_all
qed

text \<open>
  The dates that \<^verbatim>\<open>ymd_valid_p\<close> accepts, without the days 0, the days dropped by the reform and the
  last day of the year 4, which has the number of the day after it.
\<close>

definition calendar_date :: "int \<Rightarrow> int \<Rightarrow> int \<Rightarrow> bool" where
  "calendar_date year month day \<longleftrightarrow> ymd_valid_p year month day \<and> 1 \<le> day
     \<and> \<not> GREG_YMD_IS_POST_JULIAN_PROLEPTIC_GREG year month day \<and> (year, month, day) \<noteq> (4, 12, 31)"

lemma and_3: "x AND 3 = x mod (4 :: int)"
  using take_bit_eq_mask[of 2 x] by (simp add: take_bit_eq_mod mask_eq_exp_minus_1)

lemma month_cases:
  assumes "1 \<le> (m :: int)" "m \<le> 12"
  obtains "m = 1" | "m = 2" | "m = 3" | "m = 4" | "m = 5" | "m = 6" | "m = 7" | "m = 8" | "m = 9" | "m = 10" | "m = 11" | "m = 12"
proof -
  have "m = 1 \<or> m = 2 \<or> m = 3 \<or> m = 4 \<or> m = 5 \<or> m = 6 \<or> m = 7 \<or> m = 8 \<or> m = 9 \<or> m = 10 \<or> m = 11 \<or> m = 12"
    using assms by presburger
  thus ?thesis using that by blast
qed

definition month_length :: "int \<Rightarrow> int \<Rightarrow> int" where
  "month_length y m = (if m = 2 then days_in_february y else days_in_month ! nat (m - 1))"

lemma ymd_valid_p_iff:
  "ymd_valid_p y m d \<longleftrightarrow> 0 \<le> d \<and> 1 \<le> m \<and> m \<le> 12 \<and> 1 \<le> y \<and> y \<le> 9999 \<and> d \<le> month_length y m"
  by (auto simp: ymd_valid_p_def month_length_def calendar_consts)

lemma days_in_february_range: "28 - (if y = 4 then 1 else 0) \<le> days_in_february y" "days_in_february y \<le> 29"
  by (auto simp: days_in_february_def Let_def)

lemma days_in_february_leap:
  assumes "1 \<le> y" "days_in_february y = 29"
  shows "y mod 4 = 0" "1582 < y \<Longrightarrow> gregorian_leap y"
  using assms by (auto simp: days_in_february_def Let_def and_3 gregorian_leap_def calendar_consts split: if_splits)


lemma month_length_march:
  assumes "1 \<le> m" "m \<le> 12" "d \<le> month_length y m" "M = (if m < 3 then m + 9 else m - 3)"
  shows "m \<noteq> 2 \<Longrightarrow> day_of_year M d < (153 * (M + 1) + 2) div 5" "d \<le> 31" "m \<noteq> 2 \<Longrightarrow> day_of_year M d \<le> 336"
proof -
  have "(m \<noteq> 2 \<longrightarrow> day_of_year M d < (153 * (M + 1) + 2) div 5) \<and> d \<le> 31 \<and> (m \<noteq> 2 \<longrightarrow> day_of_year M d \<le> 336)"
    using assms(1,2)
    by (cases m rule: month_cases)
      (use assms(3,4) days_in_february_range[of y] in \<open>auto simp: month_length_def days_in_month_def day_of_year_def\<close>)
  thus "m \<noteq> 2 \<Longrightarrow> day_of_year M d < (153 * (M + 1) + 2) div 5" "d \<le> 31" "m \<noteq> 2 \<Longrightarrow> day_of_year M d \<le> 336" by simp_all
qed

lemma gregorian_leap_4800: "gregorian_leap (y + 4800) \<longleftrightarrow> gregorian_leap y"
  using mod_mult_self1[of y 1200 4] mod_mult_self1[of y 48 100] mod_mult_self1[of y 12 400] by (simp add: gregorian_leap_def)

text \<open>A valid date counted from March.\<close>

lemma calendar_date_march:
  assumes "calendar_date y m d"
  obtains Y M where "0 \<le> M" "M \<le> 11" "0 \<le> Y" "Y \<le> 14800" "y = civil_year Y M" "m = civil_month M" "1 \<le> d" "d \<le> 31"
    "(5 * day_of_year M d + 2) div 153 = M"
    "GREG_YMD_IS_PROLEPTIC_GREG y m d \<longrightarrow> julian_day Y (day_of_year M d) \<and> julian_num Y (day_of_year M d) \<le> 577737"
    "\<not> GREG_YMD_IS_PROLEPTIC_GREG y m d \<longrightarrow> gregorian_day Y (day_of_year M d) \<and> 577738 \<le> gregorian_num Y (day_of_year M d)"
proof -
  have v: "1 \<le> d" "1 \<le> m" "m \<le> 12" "1 \<le> y" "y \<le> 9999" "d \<le> month_length y m" "\<not> GREG_YMD_IS_POST_JULIAN_PROLEPTIC_GREG y m d"
    using assms by (auto simp: calendar_date_def ymd_valid_p_iff)
  define M where "M = (if m < 3 then m + 9 else m - 3)"
  define Y where "Y = (if m < 3 then y + 4799 else y + 4800)"
  define e where "e = day_of_year M d"
  have M: "0 \<le> M" "M \<le> 11" "0 \<le> Y" "Y \<le> 14800" "y = civil_year Y M" "m = civil_month M"
    using v by (auto simp: M_def Y_def civil_year_def civil_month_def)
  note l = month_length_march[OF v(2,3,6) M_def, folded e_def]
  have e: "m \<noteq> 2 \<Longrightarrow> e \<le> 336" "m = 2 \<Longrightarrow> e = d + 336" using l(3) by (auto simp: e_def M_def day_of_year_def)
  have f: "m = 2 \<Longrightarrow> d \<le> days_in_february y" using v(6) by (simp add: month_length_def)
  have e0: "0 \<le> e" "e \<le> 365" using v(1) M(1) e f days_in_february_range[of y] by (simp add: e_def day_of_year_def, cases "m = 2", simp_all)
  have "(5 * e + 2) div 153 = M"
    using day_to_month_inverse[OF v(1), of M] l(1) e0 by (cases "m = 2") (auto simp: e_def M_def)
  moreover have "e = 365 \<Longrightarrow> m = 2 \<and> days_in_february y = 29 \<and> Y + 1 = y + 4800"
    using e f days_in_february_range[of y] by (cases "m = 2") (auto simp: Y_def)
  hence leap: "e = 365 \<Longrightarrow> (Y + 1) mod 4 = 0" "e = 365 \<Longrightarrow> 1582 < y \<Longrightarrow> gregorian_leap (Y + 1)"
    using days_in_february_leap[OF v(4)] mod_mult_self1[of y 1200 4] gregorian_leap_4800[of y] by (simp_all add: add.commute)
  have j: "julian_day Y e" using e0 leap(1) by (simp add: julian_day_def)
  moreover have "julian_num Y e \<le> 577737" if "GREG_YMD_IS_PROLEPTIC_GREG y m d"
  proof (cases "Y = 6382")
    case True
    hence "M \<le> 7" "M = 7 \<longrightarrow> d \<le> 4" "m \<noteq> 2"
      using that v(7) v(4) by (auto simp: Y_def M_def GREG_YMD_IS_PROLEPTIC_GREG_def GREG_YMD_IS_POST_JULIAN_PROLEPTIC_GREG_def calendar_consts split: if_splits)
    hence "e \<le> 217" using l(1) M(1) by (cases "M = 7") (auto simp: e_def day_of_year_def)
    thus ?thesis using True by (simp add: julian_num_def)
  next
    case False
    hence "Y < 6382" using that by (auto simp: Y_def GREG_YMD_IS_PROLEPTIC_GREG_def calendar_consts)
    hence "julian_num Y e < julian_num 6382 0" by (intro julian_num_mono[OF j]) (auto simp: julian_day_def)
    thus ?thesis by (simp add: julian_num_def)
  qed
  moreover have "gregorian_day Y e \<and> 577738 \<le> gregorian_num Y e" if "\<not> GREG_YMD_IS_PROLEPTIC_GREG y m d"
  proof -
    have g: "1582 < y \<or> y = 1582 \<and> (10 < m \<or> m = 10 \<and> 15 \<le> d)"
      using that by (auto simp: GREG_YMD_IS_PROLEPTIC_GREG_def calendar_consts)
    hence "gregorian_day Y e" using e0 e(1) leap(2) by (cases "m = 2") (auto simp: gregorian_day_def)
    moreover have "6382 < Y \<or> Y = 6382 \<and> 228 \<le> e"
      using g v(1-3) by (auto simp: Y_def M_def e_def day_of_year_def split: if_splits)
    ultimately show ?thesis using gregorian_num_reform M(3) by blast
  qed
  ultimately show ?thesis using that[OF M v(1) l(2)] by (simp add: e_def)
qed

lemma calendar_date_num:
  assumes "calendar_date y m d" "y = civil_year Y M" "m = civil_month M" "0 \<le> M" "M \<le> 11" "0 \<le> Y"
    and "GREG_YMD_IS_PROLEPTIC_GREG y m d" "(y, m, d) \<noteq> (5, 1, 1)" "julian_day Y (day_of_year M d)"
  shows "date2num y m d = julian_num Y (day_of_year M d)" "julian_num Y (day_of_year M d) \<noteq> 1461"
proof -
  have d: "1 \<le> d" "d \<le> 31" "1 \<le> y" "(y, m, d) \<noteq> (4, 12, 31)"
    using assms(1) month_length_march(2)[of m d y] by (auto simp: calendar_date_def ymd_valid_p_iff)
  have n: "Y = 4804 \<and> day_of_year M d = k" if "julian_num Y (day_of_year M d) = julian_num 4804 k" "julian_day 4804 k" for k
    using julian_num_inj[OF assms(9) that(2)] that(1) by simp
  show "julian_num Y (day_of_year M d) \<noteq> 1461"
  proof
    assume "julian_num Y (day_of_year M d) = 1461"
    hence e: "Y = 4804" "day_of_year M d = 305" using n[of 305] by (simp_all add: julian_num_def julian_day_def)
    hence "M = 9" using d(1,2) assms(4,5) by (auto simp: day_of_year_def)
    moreover from this have "d = 31" using e by (simp add: day_of_year_def)
    ultimately show False using d(4) e assms(2,3) by (simp add: civil_year_def civil_month_def)
  qed
  have "\<not> (julian_num Y (day_of_year M d) = 1462 \<and> d = 1)"
  proof
    assume "julian_num Y (day_of_year M d) = 1462 \<and> d = 1"
    hence e: "Y = 4804" "day_of_year M d = 306" "d = 1" using n[of 306] by (auto simp: julian_num_def julian_day_def)
    hence "M = 10" using assms(4,5) by (auto simp: day_of_year_def)
    thus False using assms(8) e assms(2,3) by (simp add: civil_year_def civil_month_def)
  qed
  thus "date2num y m d = julian_num Y (day_of_year M d)"
    using date2num_julian[OF assms(4,5,6), of y d] assms(2,3,7) d by (auto simp: astro_year_def)
qed

lemma quirk_num: "date2num 5 1 1 = 1461" "num2date 1461 = (5, 1, 1)" "calendar_date 5 1 1"
  by code_simp+

lemma num2date_date2num:
  assumes "calendar_date y m d"
  shows "num2date (date2num y m d) = (y, m, d)"
proof (cases "(y, m, d) = (5, 1, 1)")
  case True
  thus ?thesis by (simp add: quirk_num)
next
  case False
  obtain Y M where M: "0 \<le> M" "M \<le> 11" "0 \<le> Y" "Y \<le> 14800" "y = civil_year Y M" "m = civil_month M" "1 \<le> d" "d \<le> 31"
    and e: "(5 * day_of_year M d + 2) div 153 = M"
    and j: "GREG_YMD_IS_PROLEPTIC_GREG y m d \<longrightarrow> julian_day Y (day_of_year M d) \<and> julian_num Y (day_of_year M d) \<le> 577737"
    and g: "\<not> GREG_YMD_IS_PROLEPTIC_GREG y m d \<longrightarrow> gregorian_day Y (day_of_year M d) \<and> 577738 \<le> gregorian_num Y (day_of_year M d)"
    by (rule calendar_date_march[OF assms])
  have dd: "d = day_of_year M d - (153 * M + 2) div 5 + 1" by (simp add: day_of_year_def)
  have d0: "0 \<le> day_of_year M d" "day_of_year M d \<le> 400" using M(1,2,7,8) by (auto simp: day_of_year_def)
  have y: "1 \<le> y" using assms by (simp add: calendar_date_def ymd_valid_p_iff)
  obtain y' m' d' where n: "num2date (date2num y m d) = (y', m', d')" by (cases "num2date (date2num y m d)") auto
  show ?thesis
  proof (cases "GREG_YMD_IS_PROLEPTIC_GREG y m d")
    case True
    have j: "julian_day Y (day_of_year M d)" "julian_num Y (day_of_year M d) \<le> 577737" using j True by simp_all
    note c = calendar_date_num[OF assms M(5,6,1-3) True False j(1)]
    have b: "- 1753505 \<le> date2num y m d" "date2num y m d \<le> 577737" "date2num y m d \<noteq> 1461"
      using c j(2) d0(1) M(3) by (simp_all add: julian_num_def)
    obtain Y' e' M' where r: "julian_day Y' e'" "date2num y m d = julian_num Y' e'" "M' = (5 * e' + 2) div 153"
      "astro_year y' = civil_year Y' M'" "y' \<noteq> - 1" "m' = civil_month M'" "d' = e' - (153 * M' + 2) div 5 + 1"
      by (rule num2date_julian[OF b n])
    have "Y' = Y" "e' = day_of_year M d" using julian_num_inj[OF r(1) j(1)] r(2) c(1) by simp_all
    thus ?thesis using r(3-7) e dd M(5,6) n y by (auto simp: astro_year_def split: if_splits)
  next
    case 2: False
    have g: "gregorian_day Y (day_of_year M d)" "577738 \<le> gregorian_num Y (day_of_year M d)" using g 2 by simp_all
    have b: "gregorian_num Y (day_of_year M d) \<le> 5000000" using M(3,4) d0 by (simp add: gregorian_num_def)
    have c: "date2num y m d = gregorian_num Y (day_of_year M d)"
      using date2num_gregorian[OF M(1-3) _ M(5,7,8)] b 2 M(6) by (simp add: INT32_MAX_def)
    have b': "577738 \<le> date2num y m d" "date2num y m d \<le> 2145000000" using c g(2) b by simp_all
    obtain Y' e' M' where r: "gregorian_day Y' e'" "date2num y m d = gregorian_num Y' e'" "M' = (5 * e' + 2) div 153"
      "y' = civil_year Y' M'" "m' = civil_month M'" "d' = e' - (153 * M' + 2) div 5 + 1"
      by (rule num2date_gregorian[OF b' n])
    have "Y' = Y" "e' = day_of_year M d" using gregorian_num_inj[OF r(1) g(1)] r(2) c by simp_all
    thus ?thesis using r(3-6) e dd M(5,6) n by simp
  qed
qed

definition date_less :: "int \<times> int \<times> int \<Rightarrow> int \<times> int \<times> int \<Rightarrow> bool" where
  "date_less s t = (case (s, t) of ((y, m, d), (y', m', d')) \<Rightarrow> y < y' \<or> y = y' \<and> (m < m' \<or> m = m' \<and> d < d'))"

lemma date_less_march:
  assumes "date_less (civil_year Y M, civil_month M, d) (civil_year Y' M', civil_month M', d')"
    and "0 \<le> M" "M \<le> 11" "0 \<le> M'" "M' \<le> 11" "(5 * day_of_year M d + 2) div 153 = M" "(5 * day_of_year M' d' + 2) div 153 = M'"
  shows "Y < Y' \<or> Y = Y' \<and> day_of_year M d < day_of_year M' d'"
proof -
  have "Y < Y' \<or> Y = Y' \<and> (M < M' \<or> M = M' \<and> d < d')"
    using assms(1-5) by (auto simp: date_less_def civil_year_def civil_month_def split: if_splits)
  moreover have "day_of_year M d < day_of_year M' d'" if "M < M'"
  proof (rule ccontr)
    assume "\<not> ?thesis"
    hence "(5 * day_of_year M' d' + 2) div 153 \<le> (5 * day_of_year M d + 2) div 153" by (intro zdiv_mono1) auto
    thus False using that assms(6,7) by simp
  qed
  ultimately show ?thesis by (auto simp: day_of_year_def)
qed

text \<open>The number of a valid date in its calendar, before the correction for the year 4.\<close>

lemma calendar_date_cases:
  assumes "calendar_date y m d"
  obtains (julian) Y M where "0 \<le> M" "M \<le> 11" "y = civil_year Y M" "m = civil_month M" "(5 * day_of_year M d + 2) div 153 = M"
      "julian_day Y (day_of_year M d)" "date2num y m d \<le> 577737"
      "date2num y m d = julian_num Y (day_of_year M d) \<and> date2num y m d \<noteq> 1461 \<or> date2num y m d = 1461 \<and> julian_num Y (day_of_year M d) = 1462"
      "GREG_YMD_IS_PROLEPTIC_GREG y m d"
    | (gregorian) Y M where "0 \<le> M" "M \<le> 11" "y = civil_year Y M" "m = civil_month M" "(5 * day_of_year M d + 2) div 153 = M"
      "gregorian_day Y (day_of_year M d)" "577738 \<le> date2num y m d" "date2num y m d = gregorian_num Y (day_of_year M d)"
      "\<not> GREG_YMD_IS_PROLEPTIC_GREG y m d"
proof -
  obtain Y M where M: "0 \<le> M" "M \<le> 11" "0 \<le> Y" "Y \<le> 14800" "y = civil_year Y M" "m = civil_month M" "1 \<le> d" "d \<le> 31"
    and e: "(5 * day_of_year M d + 2) div 153 = M"
    and j: "GREG_YMD_IS_PROLEPTIC_GREG y m d \<longrightarrow> julian_day Y (day_of_year M d) \<and> julian_num Y (day_of_year M d) \<le> 577737"
    and g: "\<not> GREG_YMD_IS_PROLEPTIC_GREG y m d \<longrightarrow> gregorian_day Y (day_of_year M d) \<and> 577738 \<le> gregorian_num Y (day_of_year M d)"
    by (rule calendar_date_march[OF assms])
  show ?thesis
  proof (cases "GREG_YMD_IS_PROLEPTIC_GREG y m d")
    case True
    with j have j: "julian_day Y (day_of_year M d)" "julian_num Y (day_of_year M d) \<le> 577737" by simp_all
    show ?thesis
    proof (cases "(y, m, d) = (5, 1, 1)")
      case True
      hence "M = 10" "Y = 4804" using M(1,2,5,6) by (auto simp: civil_year_def civil_month_def split: if_splits)
      hence "julian_num Y (day_of_year M d) = 1462" using True by (simp add: julian_num_def day_of_year_def)
      thus ?thesis using julian[OF M(1,2,5,6) e j(1)] True quirk_num(1) \<open>GREG_YMD_IS_PROLEPTIC_GREG y m d\<close> by simp
    next
      case False
      show ?thesis using julian[OF M(1,2,5,6) e j(1)] calendar_date_num[OF assms M(5,6,1-3) True False j(1)] j(2) True by simp
    qed
  next
    case False
    with g have g: "gregorian_day Y (day_of_year M d)" "577738 \<le> gregorian_num Y (day_of_year M d)" by simp_all
    have "day_of_year M d \<le> 400" using M(1,2,8) by (auto simp: day_of_year_def)
    hence "gregorian_num Y (day_of_year M d) \<le> 5000000" using M(3,4) by (simp add: gregorian_num_def)
    hence "date2num y m d = gregorian_num Y (day_of_year M d)"
      using date2num_gregorian[OF M(1-3) _ M(5,7,8)] False M(6) by (simp add: INT32_MAX_def)
    thus ?thesis using gregorian[OF M(1,2,5,6) e g(1)] g(2) False by simp
  qed
qed

lemma date2num_less:
  assumes c: "calendar_date y m d" "calendar_date y' m' d'" and l: "date_less (y, m, d) (y', m', d')"
  shows "date2num y m d < date2num y' m' d'"
  using c(1)
proof (cases rule: calendar_date_cases)
  case 1: (julian Y M)
  show ?thesis using c(2)
  proof (cases rule: calendar_date_cases)
    case 2: (julian Y' M')
    have "Y < Y' \<or> Y = Y' \<and> day_of_year M d < day_of_year M' d'"
      using date_less_march[of Y M d Y' M' d'] l 1(1-5) 2(1-5) by simp
    hence "julian_num Y (day_of_year M d) < julian_num Y' (day_of_year M' d')"
      using julian_num_mono[OF 1(6) 2(6)] by (auto simp: julian_num_def)
    thus ?thesis using 1(8) 2(8) by linarith
  qed (use 1(7) in simp)
next
  case 1: (gregorian Y M)
  show ?thesis using c(2)
  proof (cases rule: calendar_date_cases)
    case 2: (gregorian Y' M')
    have "Y < Y' \<or> Y = Y' \<and> day_of_year M d < day_of_year M' d'"
      using date_less_march[of Y M d Y' M' d'] l 1(1-5) 2(1-5) by simp
    hence "gregorian_num Y (day_of_year M d) < gregorian_num Y' (day_of_year M' d')"
      using gregorian_num_mono[OF 1(6) 2(6)] by (auto simp: gregorian_num_def)
    thus ?thesis using 1(8) 2(8) by simp
  next
    case (julian Y' M')
    thus ?thesis using 1(9) l by (auto simp: date_less_def GREG_YMD_IS_PROLEPTIC_GREG_def)
  qed
qed

lemma date2num_order_iff:
  assumes "calendar_date y m d" "calendar_date y' m' d'"
  shows "date2num y m d < date2num y' m' d' \<longleftrightarrow> date_less (y, m, d) (y', m', d')"
proof
  assume l: "date2num y m d < date2num y' m' d'"
  show "date_less (y, m, d) (y', m', d')"
  proof (rule ccontr)
    assume "\<not> ?thesis"
    hence "date_less (y', m', d') (y, m, d) \<or> (y, m, d) = (y', m', d')" by (auto simp: date_less_def)
    thus False using l date2num_less[OF assms(2,1)] by auto
  qed
qed (rule date2num_less[OF assms])

lemma date2weekday_num:
  assumes "0 \<le> date2num y m d"
  shows "date2weekday y m d = (date2num y m d + 4) mod 7 + 1"
proof -
  define r where "r = date2num y m d mod 7"
  have r: "0 \<le> r" "r < 7" by (simp_all add: r_def)
  have u: "date2num y m d smod DAY_MAX mod 2 ^ 32 = r" using assms r by (simp add: DAY_MAX_def r_def)
  have w: "wrap INT32_MAX r = r" by (rule wrap_id) (use r in \<open>auto simp: INT32_MAX_def\<close>)
  have "(date2num y m d + 4) mod 7 = (r + 4) mod 7" by (simp add: r_def mod_add_left_eq)
  moreover have "(if r > 2 then r - 2 else r + 5) = (r + 4) mod 7 + 1" using r by (auto simp: mod_pos_geq)
  ultimately show ?thesis unfolding date2weekday_def u Let_def w by simp
qed

subsection \<open>Properties\<close>

text \<open>
  C37. Day numbers. The number of a valid date determines it, and a number that the Julian or the
  Gregorian formula covers is the number of the date \<^verbatim>\<open>num2date\<close> gives for it, across the reform of
  1582 and before the era. The days of the year 4 are the exception: the 31st of December of the year
  4 and the 1st of January of the year 5 share a number, and the number after it gives the same date.
\<close>

theorem calendar_roundtrip:
  "(\<forall>y m d. calendar_date y m d \<longrightarrow> num2date (date2num y m d) = (y, m, d))
   \<and> (\<forall>n. - 1753505 \<le> n \<and> n \<le> 2145000000 \<and> n \<noteq> 1462 \<longrightarrow>
        (case num2date n of (y, m, d) \<Rightarrow> date2num y m d = n \<and> 1 \<le> m \<and> m \<le> 12 \<and> 1 \<le> d \<and> d \<le> 31))
   \<and> ymd_valid_p 4 12 31 \<and> date2num 4 12 31 = date2num 5 1 1 \<and> num2date 1462 = num2date 1461"
proof (intro conjI allI impI)
  fix n :: int
  assume "- 1753505 \<le> n \<and> n \<le> 2145000000 \<and> n \<noteq> 1462"
  thus "case num2date n of (y, m, d) \<Rightarrow> date2num y m d = n \<and> 1 \<le> m \<and> m \<le> 12 \<and> 1 \<le> d \<and> d \<le> 31"
    using date2num_num2date[of n] by (cases "num2date n") auto
next
  show "ymd_valid_p 4 12 31" "date2num 4 12 31 = date2num 5 1 1" "num2date 1462 = num2date 1461" by code_simp+
qed (rule num2date_date2num)

theorem calendar_roundtrip_witness:
  "calendar_date 1582 10 15 \<and> num2date (date2num 1582 10 15) = (1582, 10, 15)
   \<and> num2date (- 1) = (0, 12, 30) \<and> date2num 0 12 30 = - 1"
proof -
  have "calendar_date 1582 10 15" "num2date (- 1) = (0, 12, 30)" by code_simp+
  thus ?thesis using calendar_roundtrip[THEN conjunct1] calendar_roundtrip[THEN conjunct2, THEN conjunct1, rule_format, of "- 1"] by simp
qed

text \<open>
  C38. Order of dates. The numbers of valid dates are ordered as the dates are by year, month and
  day, so that comparing packed datetimes by their day numbers compares dates; the 15th of October
  1582 follows the 4th directly.
\<close>

theorem date2num_order:
  assumes "calendar_date y m d" "calendar_date y' m' d'"
  shows "(date2num y m d < date2num y' m' d' \<longleftrightarrow> date_less (y, m, d) (y', m', d'))
    \<and> date2num 1582 10 15 = date2num 1582 10 4 + 1 \<and> date2num 1582 10 4 = GREG_JDAYS"
proof -
  have "date2num 1582 10 15 = date2num 1582 10 4 + 1" "date2num 1582 10 4 = GREG_JDAYS" by code_simp+
  thus ?thesis using date2num_order_iff[OF assms] by simp
qed

theorem date2num_order_witness:
  "calendar_date 1582 10 4 \<and> calendar_date 2000 1 1 \<and> date2num 1582 10 4 < date2num 2000 1 1"
proof -
  have "calendar_date 1582 10 4" "calendar_date 2000 1 1" "date_less (1582, 10, 4) (2000, 1, 1)" by code_simp+
  thus ?thesis using date2num_order[of 1582 10 4 2000 1 1] by simp
qed

text \<open>
  C39. Weekdays. From the year 1 on, \<^verbatim>\<open>date2weekday\<close> is the day of the week from 1 for Monday, and
  the next day has the next weekday; the 1st of January 2000 is a Saturday. For earlier dates the
  remainder is negative and is taken for a large unsigned number, which gives values below 1; leap
  years before the era have 28 days in February for \<^verbatim>\<open>days_in_february\<close> and 29 for \<^verbatim>\<open>num2date\<close>; the day
  0 is accepted by \<^verbatim>\<open>ymd_valid_p\<close>.
\<close>

theorem date2weekday_correct:
  "(\<forall>y m d. 0 \<le> date2num y m d \<longrightarrow> date2weekday y m d = (date2num y m d + 4) mod 7 + 1)
   \<and> date2weekday 2000 1 1 = 6 \<and> date2weekday 0 12 30 = - 3
   \<and> num2date (date2num (- 5) 2 29) = (- 5, 2, 29) \<and> days_in_february (- 5) = 28 \<and> ymd_valid_p 2000 1 0"
proof (intro conjI allI impI)
  show "date2weekday 2000 1 1 = 6" "date2weekday 0 12 30 = - 3" "num2date (date2num (- 5) 2 29) = (- 5, 2, 29)"
    "days_in_february (- 5) = 28" "ymd_valid_p 2000 1 0" by code_simp+
qed (rule date2weekday_num)

theorem date2weekday_correct_witness: "date2num 1 1 3 = 3 \<and> date2weekday 1 1 3 = 1"
proof -
  have "date2num 1 1 3 = 3" by code_simp
  thus ?thesis using date2weekday_correct[THEN conjunct1, rule_format, of 1 1 3] by simp
qed

end
