(* ===== verification/Spec2Isabelle.thy ===== *)
theory Spec2Isabelle
  imports Dk_Sets Dk_Hash Dk_L2 Dk_Basket Dk_Rbuf Num_Str Num_Ext Dt_Calendar
begin

text \<open>
  A verification development for core components of OpenLink Virtuoso
  (\<^verbatim>\<open>libsrc/Dk\<close>, \<^verbatim>\<open>libsrc/Wi\<close>).
\<close>

end
